(* ===== verification/Prelude.thy ===== *)
theory Prelude
  imports "HOL-Library.Word" "HOL-Library.Signed_Division"
begin

text \<open>
  Shared ground of the development: the machine types of the Go code, errors as values,
  the readers and writers of the Go standard library that the wire code uses
  (\<^verbatim>\<open>bytes.Reader\<close>, \<^verbatim>\<open>bytes.Buffer\<close>, \<^verbatim>\<open>io.ReadFull\<close>), Go's truncating conversions and
  time arithmetic, and generic lemmas on words and lists that several components use.

  Conventions. Unsigned Go integers are words of the same width, so \<open>+\<close>, \<open>-\<close> and \<open>*\<close> wrap
  as they do in Go. A \<^verbatim>\<open>time.Time\<close> is the number of nanoseconds since the zero
  time, so \<^verbatim>\<open>IsZero\<close> is comparison with 0. A \<^verbatim>\<open>bytes.Reader\<close> is the list of unread bytes. A
  \<^verbatim>\<open>bytes.Buffer\<close> that is only appended to is modelled by the bytes that get appended.
\<close>

unbundle bit_operations_syntax

section \<open>Machine types\<close>

type_synonym uint8 = "8 word"
type_synonym uint16 = "16 word"
type_synonym uint32 = "32 word"
type_synonym uint64 = "64 word"
type_synonym bytes = "8 word list"

type_synonym PacketNumber = uint64
type_synonym PacketNumberLen = uint8
type_synonym ByteCount = uint64
type_synonym StreamID = uint32
type_synonym PathID = uint8
type_synonym ConnectionID = uint64
type_synonym VersionNumber = int
type_synonym ErrorCode = uint32

type_synonym duration = int
type_synonym gotime = int

section \<open>Errors as values\<close>

text \<open>
  \<open>GoErr\<close> is an \<^verbatim>\<open>errors.New\<close> value with its message, \<open>QuicErr\<close> a \<^verbatim>\<open>*qerr.QuicError\<close>,
  \<open>CodeErr\<close> a bare \<^verbatim>\<open>qerr.ErrorCode\<close> used as an error, and \<open>Panic\<close> a run-time panic.
  Values that Go formats into a message with \<^verbatim>\<open>fmt.Sprintf\<close> are left out of the message.
\<close>

datatype error =
    EOF
  | UnexpectedEOF
  | GoErr string
  | QuicErr ErrorCode string
  | CodeErr ErrorCode
  | Panic string

type_synonym 'a result = "error + 'a"

fun bindE :: "'a result \<Rightarrow> ('a \<Rightarrow> 'b result) \<Rightarrow> 'b result" where
  "bindE (Inl e) f = Inl e"
| "bindE (Inr x) f = f x"

lemma bindE_eq_Inr_iff: "bindE m f = Inr y \<longleftrightarrow> (\<exists>x. m = Inr x \<and> f x = Inr y)"
  by (cases m) auto

lemma bindE_eq_Inl_iff:
  "bindE m f = Inl e \<longleftrightarrow> m = Inl e \<or> (\<exists>x. m = Inr x \<and> f x = Inl e)"
  by (cases m) auto

lemma bindE_assoc [simp]: "bindE (bindE m f) g = bindE m (\<lambda>x. bindE (f x) g)"
  by (cases m) auto

lemma bindE_cong [fundef_cong]:
  "m = m' \<Longrightarrow> (\<And>x. m' = Inr x \<Longrightarrow> f x = f' x) \<Longrightarrow> bindE m f = bindE m' f'"
  by (cases m') auto

definition is_panic :: "error \<Rightarrow> bool" where
  "is_panic e = (case e of Panic _ \<Rightarrow> True | _ \<Rightarrow> False)"

section \<open>Readers of the Go library\<close>

text \<open>A reader takes the unread bytes and returns its value with the bytes left.\<close>

type_synonym 'a reader = "bytes \<Rightarrow> ('a \<times> bytes) result"

fun ReadByte :: "uint8 reader" where
  "ReadByte [] = Inl EOF"
| "ReadByte (b # r) = Inr (b, r)"

definition ReadFull :: "nat \<Rightarrow> bytes reader" where
  "ReadFull n r =
     (if n = 0 then Inr ([], r)
      else if r = [] then Inl EOF
      else if length r < n then Inl UnexpectedEOF
      else Inr (take n r, drop n r))"

lemma ReadByte_eq_Inr_iff: "ReadByte r = Inr (b, r') \<longleftrightarrow> r = b # r'"
  by (cases r) auto

lemma ReadFull_append [simp]: "length bs = n \<Longrightarrow> ReadFull n (bs @ r) = Inr (bs, r)"
  by (auto simp: ReadFull_def)

lemma ReadFull_all [simp]: "length bs = n \<Longrightarrow> ReadFull n bs = Inr (bs, [])"
  by (auto simp: ReadFull_def)

lemma ReadFull_eq_Inr_iff:
  "ReadFull n r = Inr (bs, r') \<longleftrightarrow> length bs = n \<and> r = bs @ r'"
  by (auto simp: ReadFull_def)

text \<open>Computations that never end in a run-time panic.\<close>

definition no_panic :: "'a result \<Rightarrow> bool" where
  "no_panic m = (case m of Inl e \<Rightarrow> \<not> is_panic e | Inr _ \<Rightarrow> True)"

named_theorems no_panic_intros \<open>introduction rules for the absence of panics\<close>

lemma no_panic_Inr [simp, no_panic_intros]: "no_panic (Inr x)"
  by (simp add: no_panic_def)

lemma no_panic_Inl [simp]:
  "no_panic (Inl EOF)" "no_panic (Inl UnexpectedEOF)" "no_panic (Inl (GoErr s))"
  "no_panic (Inl (QuicErr c s))" "no_panic (Inl (CodeErr c))" "\<not> no_panic (Inl (Panic s))"
  by (simp_all add: no_panic_def is_panic_def)

lemma no_panic_bindE [no_panic_intros]:
  "no_panic m \<Longrightarrow> (\<And>x. m = Inr x \<Longrightarrow> no_panic (f x)) \<Longrightarrow> no_panic (bindE m f)"
  by (cases m) (auto simp: no_panic_def)

lemma no_panic_if [no_panic_intros]:
  "(c \<Longrightarrow> no_panic a) \<Longrightarrow> (\<not> c \<Longrightarrow> no_panic b) \<Longrightarrow> no_panic (if c then a else b)"
  by simp

lemma no_panic_case_prod [no_panic_intros]:
  "(\<And>x y. p = (x, y) \<Longrightarrow> no_panic (f x y)) \<Longrightarrow> no_panic (case p of (x, y) \<Rightarrow> f x y)"
  by (cases p) auto

lemma no_panic_ReadByte [simp, no_panic_intros]: "no_panic (ReadByte r)"
  by (cases r) auto

lemma no_panic_ReadFull [simp, no_panic_intros]: "no_panic (ReadFull n r)"
  by (simp add: ReadFull_def)

lemma no_panic_iff: "no_panic m \<longleftrightarrow> (\<forall>s. m \<noteq> Inl (Panic s))"
  by (auto simp: no_panic_def is_panic_def split: sum.splits error.splits)

section \<open>Conversions and time\<close>

text \<open>Go's signed division truncates towards zero; \<^verbatim>\<open>time.Time.Sub\<close> saturates.\<close>

definition InfDuration :: duration where
  "InfDuration = 2 ^ 63 - 1"

definition time_Sub :: "gotime \<Rightarrow> gotime \<Rightarrow> duration" where
  "time_Sub t u = max (- (2 ^ 63)) (min InfDuration (t - u))"

abbreviation Microsecond :: duration where "Microsecond \<equiv> 1000"
abbreviation Millisecond :: duration where "Millisecond \<equiv> 1000000"
abbreviation Second :: duration where "Second \<equiv> 1000000000"

definition uint64_of_duration :: "duration \<Rightarrow> uint64" where
  "uint64_of_duration d = word_of_int d"

section \<open>Generic lemmas on words\<close>

named_theorems unat_simps \<open>reading machine integers as natural numbers\<close>

declare word_less_nat_alt [unat_simps] word_le_nat_alt [unat_simps]

lemma unat_add_no_wrap:
  "unat a + unat b < 2 ^ LENGTH('a) \<Longrightarrow> unat (a + b :: 'a::len word) = unat a + unat b"
  by (simp add: unat_word_ariths)

lemma unat_diff_no_wrap:
  "unat b \<le> unat a \<Longrightarrow> unat (a - b :: 'a::len word) = unat a - unat b"
  by (simp add: unat_sub word_le_nat_alt)

lemma unat_of_nat_lt: "n < 2 ^ LENGTH('a) \<Longrightarrow> unat (of_nat n :: 'a::len word) = n"
  by (simp add: unat_of_nat)

lemma unat_of_nat8: "n < 256 \<Longrightarrow> unat (of_nat n :: uint8) = n"
  by (simp add: unat_of_nat)

lemma unat_of_nat16: "n < 65536 \<Longrightarrow> unat (of_nat n :: uint16) = n"
  by (simp add: unat_of_nat)

lemma unat_of_nat32: "n < 4294967296 \<Longrightarrow> unat (of_nat n :: uint32) = n"
  by (simp add: unat_of_nat)

lemma unat_of_nat64: "n < 18446744073709551616 \<Longrightarrow> unat (of_nat n :: uint64) = n"
  by (simp add: unat_of_nat)

lemma unat_ucast_shrink:
  "unat (ucast (x :: 'a::len word) :: 'b::len word) = unat x mod 2 ^ LENGTH('b)"
  by (simp add: unsigned_ucast_eq take_bit_eq_mod)

lemma unat_ucast_grow:
  "unat x < 2 ^ LENGTH('b) \<Longrightarrow> unat (ucast (x :: 'a::len word) :: 'b::len word) = unat x"
  by (simp add: unat_ucast_shrink)

lemma unat_ucast_widen [simp]:
  "LENGTH('a) \<le> LENGTH('b) \<Longrightarrow> unat (ucast (x :: 'a::len word) :: 'b::len word) = unat x"
  by (rule unat_ucast_grow) (rule less_le_trans [OF unsigned_less], simp)

lemma ucast_ucast_widen [simp]:
  "LENGTH('a) \<le> LENGTH('b) \<Longrightarrow> ucast (ucast (x :: 'a::len word) :: 'b::len word) = x"
  unfolding word_unat_eq_iff by (subst unat_ucast_shrink) simp

lemma if_xor: "(if c then x XOR k else x) = x XOR (if c then k else (0 :: 'a::len word))"
  by simp

lemma unat_succ_below:
  fixes x y :: "'a::len word"
  assumes "unat x + 1 \<le> unat y"
  shows "unat (x + 1) = unat x + 1"
proof -
  have "unat x + unat (1 :: 'a word) < 2 ^ LENGTH('a)"
    using assms unsigned_less [of y] by (simp add: le_less_trans)
  then show ?thesis by (simp add: unat_add_no_wrap)
qed

lemma unat_2p:
  assumes "n < LENGTH('a)"
  shows "unat (2 ^ n :: 'a::len word) = 2 ^ n"
proof -
  have "unat (of_nat (2 ^ n) :: 'a word) = 2 ^ n" using assms by (intro unat_of_nat_lt) simp
  then show ?thesis by simp
qed

lemma unat_push_bit_1: "n < LENGTH('a) \<Longrightarrow> unat (push_bit n 1 :: 'a::len word) = 2 ^ n"
  by (simp add: push_bit_eq_mult unat_2p)

lemma unat_lt8 [simp]: "unat (x :: uint8) < 256"
  using unsigned_less [of x] by simp

lemma unat_lt16 [simp]: "unat (x :: uint16) < 65536"
  using unsigned_less [of x] by simp

lemma unat_lt32 [simp]: "unat (x :: uint32) < 4294967296"
  using unsigned_less [of x] by simp

lemma unat_lt64 [simp]: "unat (x :: uint64) < 18446744073709551616"
  using unsigned_less [of x] by simp

end
