(* ===== verification/Protocol.thy ===== *)
theory Protocol
  imports Prelude
begin

text \<open>
  The package \<^verbatim>\<open>internal/protocol\<close>: packet number lengths and the inference of full packet
  numbers from truncated ones (\<^verbatim>\<open>packet_number.go\<close>), version numbers and their tags
  (\<^verbatim>\<open>version.go\<close>), and the constants that the other components use
  (\<^verbatim>\<open>protocol.go\<close>, \<^verbatim>\<open>server_parameters.go\<close>).
\<close>

section \<open>Constants\<close>

definition PacketNumberLenInvalid :: PacketNumberLen where "PacketNumberLenInvalid = 0"
definition PacketNumberLen1 :: PacketNumberLen where "PacketNumberLen1 = 1"
definition PacketNumberLen2 :: PacketNumberLen where "PacketNumberLen2 = 2"
definition PacketNumberLen4 :: PacketNumberLen where "PacketNumberLen4 = 4"
definition PacketNumberLen6 :: PacketNumberLen where "PacketNumberLen6 = 6"

lemmas PacketNumberLen_defs =
  PacketNumberLenInvalid_def PacketNumberLen1_def PacketNumberLen2_def PacketNumberLen4_def
  PacketNumberLen6_def

definition InitialPathID :: PathID where "InitialPathID = 0"
definition MaxByteCount :: ByteCount where "MaxByteCount = - 1"
definition MaxPacketSize :: ByteCount where "MaxPacketSize = 1350"
definition DefaultMaxCongestionWindow :: nat where "DefaultMaxCongestionWindow = 2500"
definition MaxTrackedReceivedAckRanges :: nat where
  "MaxTrackedReceivedAckRanges = DefaultMaxCongestionWindow"
definition MaxTrackedSentPackets :: nat where
  "MaxTrackedSentPackets = 2 * DefaultMaxCongestionWindow"
definition MaxTrackedSkippedPackets :: nat where "MaxTrackedSkippedPackets = 10"
definition MaxPacketsReceivedBeforeAckSend :: int where "MaxPacketsReceivedBeforeAckSend = 20"
definition MaxNonRetransmittablePackets :: int where "MaxNonRetransmittablePackets = 19"
definition RetransmittablePacketsBeforeAck :: int where "RetransmittablePacketsBeforeAck = 2"
definition MaxStreamFrameSorterGaps :: nat where "MaxStreamFrameSorterGaps = 2500"
definition AckSendDelay :: duration where "AckSendDelay = 25 * Millisecond"

text \<open>\<^verbatim>\<open>perspective.go\<close> and \<^verbatim>\<open>encryption_level.go\<close>.\<close>

datatype Perspective = PerspectiveServer | PerspectiveClient

datatype EncryptionLevel =
    EncryptionUnspecified
  | EncryptionUnencrypted
  | EncryptionSecure
  | EncryptionForwardSecure

section \<open>Packet numbers\<close>

definition delta :: "PacketNumber \<Rightarrow> PacketNumber \<Rightarrow> PacketNumber" where
  "delta a b = (if a < b then b - a else a - b)"

definition closestTo :: "PacketNumber \<Rightarrow> PacketNumber \<Rightarrow> PacketNumber \<Rightarrow> PacketNumber" where
  "closestTo target a b = (if delta target a < delta target b then a else b)"

definition InferPacketNumber ::
  "PacketNumberLen \<Rightarrow> PacketNumber \<Rightarrow> PacketNumber \<Rightarrow> PacketNumber" where
  "InferPacketNumber packetNumberLength lastPacketNumber wirePacketNumber =
     (let epochDelta = push_bit (unat (packetNumberLength * 8)) (1 :: PacketNumber);
          epoch = lastPacketNumber AND NOT (epochDelta - 1);
          prevEpochBegin = epoch - epochDelta;
          nextEpochBegin = epoch + epochDelta
      in closestTo (lastPacketNumber + 1)
           (epoch + wirePacketNumber)
           (closestTo (lastPacketNumber + 1)
              (prevEpochBegin + wirePacketNumber) (nextEpochBegin + wirePacketNumber)))"

definition GetPacketNumberLengthForPublicHeader ::
  "PacketNumber \<Rightarrow> PacketNumber \<Rightarrow> PacketNumberLen" where
  "GetPacketNumberLengthForPublicHeader packetNumber leastUnacked =
     (let diff = packetNumber - leastUnacked
      in if diff < push_bit (2 * 8 - 2) 2 then PacketNumberLen2
         else if diff < push_bit (4 * 8 - 2) 2 then PacketNumberLen4
         else PacketNumberLen6)"

definition GetPacketNumberLength :: "PacketNumber \<Rightarrow> PacketNumberLen" where
  "GetPacketNumberLength packetNumber =
     (if packetNumber < push_bit (1 * 8) 1 then PacketNumberLen1
      else if packetNumber < push_bit (2 * 8) 1 then PacketNumberLen2
      else if packetNumber < push_bit (4 * 8) 1 then PacketNumberLen4
      else PacketNumberLen6)"

section \<open>Versions\<close>

definition Version37 :: VersionNumber where "Version37 = 37"
definition Version38 :: VersionNumber where "Version38 = 38"
definition Version39 :: VersionNumber where "Version39 = 39"
definition VersionTLS :: VersionNumber where "VersionTLS = 101"
definition VersionWhatever :: VersionNumber where "VersionWhatever = 0"
definition VersionUnsupported :: VersionNumber where "VersionUnsupported = - 1"
definition VersionUnknown :: VersionNumber where "VersionUnknown = - 2"
definition VersionMP :: VersionNumber where "VersionMP = 512"

lemmas Version_defs =
  Version37_def Version38_def Version39_def VersionTLS_def VersionWhatever_def
  VersionUnsupported_def VersionUnknown_def VersionMP_def

definition SupportedVersions :: "VersionNumber list" where
  "SupportedVersions = [VersionMP, Version39, Version38, Version37]"

definition VersionNumberToTag :: "VersionNumber \<Rightarrow> uint32" where
  "VersionNumberToTag vn =
     (let v = word_of_int vn :: uint32
      in 81 + push_bit 8 (v div 100 mod 10 + 48) + push_bit 16 (v div 10 mod 10 + 48)
         + push_bit 24 (v mod 10 + 48))"

definition VersionTagToNumber :: "uint32 \<Rightarrow> VersionNumber" where
  "VersionTagToNumber v =
     uint (((drop_bit 8 v AND 255) - 48) * 100 + ((drop_bit 16 v AND 255) - 48) * 10
       + ((drop_bit 24 v AND 255) - 48))"

fun IsSupportedVersion :: "VersionNumber list \<Rightarrow> VersionNumber \<Rightarrow> bool" where
  "IsSupportedVersion [] v = False"
| "IsSupportedVersion (t # supported) v = (if t = v then True else IsSupportedVersion supported v)"

fun ChooseSupportedVersion :: "VersionNumber list \<Rightarrow> VersionNumber list \<Rightarrow> VersionNumber" where
  "ChooseSupportedVersion [] theirs = VersionUnsupported"
| "ChooseSupportedVersion (ourVer # ours) theirs =
     (if list_ex (\<lambda>theirVer. ourVer = theirVer) theirs then ourVer
      else ChooseSupportedVersion ours theirs)"


lemma and_not_mask_eq: "x AND NOT (mask n) = push_bit n (drop_bit n x)" for x :: "'a::len word"
  by (rule bit_word_eqI) (auto simp: bit_simps)

lemma unat_and_not_mask: "unat (x AND NOT (mask n)) = unat x div 2 ^ n * 2 ^ n"
  for x :: "'a::len word"
proof -
  have "(x AND NOT (mask n)) + take_bit n x = x"
    unfolding and_not_mask_eq by (rule bits_ident)
  then have "x AND NOT (mask n) = x - take_bit n x"
    by (simp add: eq_diff_eq)
  moreover have "unat (take_bit n x) = unat x mod 2 ^ n"
    unfolding unsigned_take_bit_eq by (rule take_bit_eq_mod)
  ultimately have "unat (x AND NOT (mask n)) = unat x - unat x mod 2 ^ n"
    by (simp add: unat_diff_no_wrap)
  then show ?thesis by (simp add: minus_mod_eq_div_mult)
qed

lemma uint_diff_le: "uint b \<le> uint a \<Longrightarrow> uint (a - b :: 'a::len word) = uint a - uint b"
  by (simp add: uint_minus_simple_alt [symmetric] word_le_def)

lemma uint_add_lt:
  "uint a + uint b < 2 ^ LENGTH('a) \<Longrightarrow> uint (a + b :: 'a::len word) = uint a + uint b"
  by (simp add: uint_word_ariths mod_pos_pos_trivial)

lemma uint_delta: "uint (delta a b) = \<bar>uint a - uint b\<bar>"
  by (auto simp: delta_def word_less_def uint_diff_le)

lemma closestTo_left:
  "\<bar>uint t - uint a\<bar> < \<bar>uint t - uint b\<bar> \<Longrightarrow> closestTo t a b = a"
  by (simp add: closestTo_def word_less_def uint_delta)

lemma closestTo_right:
  "\<bar>uint t - uint b\<bar> \<le> \<bar>uint t - uint a\<bar> \<Longrightarrow> closestTo t a b = b"
  by (simp add: closestTo_def word_less_def uint_delta)

lemma closestTo_cases: "closestTo t a b = a \<or> closestTo t a b = b"
  by (simp add: closestTo_def)

text \<open>Two numbers with the same residue that are close to each other lie in adjacent epochs.\<close>

lemma adjacent_epochs:
  fixes m n D p e q :: int
  assumes "p = m * D + q" "e = n * D" "0 \<le> q" "q < D" "p - e < 2 * D" "- D \<le> p - e"
  shows "p = e + q \<or> p = e - D + q \<or> p = e + D + q"
proof -
  have "m - n = 0 \<or> m - n = 1 \<or> m - n = - 1"
  proof (rule ccontr)
    assume "\<not> ?thesis"
    then consider "2 \<le> m - n" | "m - n \<le> - 2" by linarith
    then have "2 * D \<le> (m - n) * D \<or> (m - n) * D \<le> - 2 * D"
      using assms(3,4) mult_right_mono [of 2 "m - n" D] mult_right_mono [of "m - n" "- 2" D]
      by cases auto
    moreover have "(m - n) * D = p - q - e" using assms(1,2) by (simp add: algebra_simps)
    ultimately show False using assms(3-) by linarith
  qed
  then show ?thesis using assms(1,2) by (auto simp: algebra_simps eq_diff_eq diff_eq_eq)
qed

lemma closest_candidate:
  fixes last pn epoch E w :: PacketNumber and D q e p :: int
  assumes E: "uint E = D" and w: "uint w = q" and e: "uint epoch = e" and p: "uint pn = p"
    and q: "0 \<le> q" "q < D" and D: "1 < D" "D \<le> 2 ^ 48" "2 * H = D"
    and last: "e \<le> uint last" "uint last < e + D" "uint last < 2 ^ 62"
    and near: "\<bar>p - (uint last + 1)\<bar> < H"
    and cand: "p = e + q \<or> p = e - D + q \<or> p = e + D + q"
    and low: "e = 0 \<or> D \<le> e"
  shows "closestTo (last + 1) (epoch + w) (closestTo (last + 1) (epoch - E + w) (epoch + E + w)) = pn"
    (is "closestTo ?t ?c0 (closestTo ?t ?c1 ?c2) = pn")
proof -
  have t: "uint ?t = uint last + 1" using last by (subst uint_add_lt) simp_all
  have c0: "uint ?c0 = e + q" using assms by (subst uint_add_lt) simp_all
  have eE: "uint (epoch + E) = e + D" using assms by (subst uint_add_lt) simp_all
  have c2: "uint ?c2 = e + D + q" using assms eE by (subst uint_add_lt) simp_all
  have c1: "uint ?c1 = e - D + q" if "D \<le> e"
    using assms that by (subst uint_add_lt) (simp_all add: uint_diff_le)
  have c1': "uint ?c1 = 2 ^ 64 - D + q" if "e = 0"
  proof -
    have "epoch = 0" using e that by (simp add: unsigned_eq_0_iff)
    then have "uint (epoch - E) = 2 ^ 64 - D" using E D by (simp add: uint_word_ariths zmod_zminus1_eq_if)
    then show ?thesis using assms by (subst uint_add_lt) simp_all
  qed
  have eqI: "x = pn" if "uint x = p" for x using that p by (simp add: word_uint_eq_iff)
  note far = t c0 c2 c1 c1' last near D q low
  from cand show ?thesis
  proof (elim disjE)
    assume p0: "p = e + q"
    have "closestTo ?t ?c0 ?c1 = ?c0" and "closestTo ?t ?c0 ?c2 = ?c0"
      using far p0 by (auto intro!: closestTo_left)
    then show ?thesis using closestTo_cases [of ?t ?c1 ?c2] c0 p0 by (auto intro: eqI)
  next
    assume p1: "p = e - D + q"
    have De: "D \<le> e" using p1 p low D q uint_nonnegative [of pn] by linarith
    have "closestTo ?t ?c1 ?c2 = ?c1" and "closestTo ?t ?c0 ?c1 = ?c1"
      using far p1 De by (auto intro!: closestTo_left closestTo_right)
    then show ?thesis using c1 [OF De] p1 by (auto intro: eqI)
  next
    assume p2: "p = e + D + q"
    have "closestTo ?t ?c1 ?c2 = ?c2" and "closestTo ?t ?c0 ?c2 = ?c2"
      using far p2 by (auto intro!: closestTo_right)
    then show ?thesis using c2 p2 by (auto intro: eqI)
  qed
qed

definition valid_PacketNumberLen :: "PacketNumberLen \<Rightarrow> bool" where
  "valid_PacketNumberLen l \<longleftrightarrow>
     l = PacketNumberLen1 \<or> l = PacketNumberLen2 \<or> l = PacketNumberLen4 \<or> l = PacketNumberLen6"

definition truncatePacketNumber :: "PacketNumberLen \<Rightarrow> PacketNumber \<Rightarrow> PacketNumber" where
  "truncatePacketNumber l pn = take_bit (8 * unat l) pn"

lemma push_bit_1_minus_1: "push_bit k (1 :: 'a::len word) - 1 = mask k"
  by (simp add: mask_eq_exp_minus_1 push_bit_of_1)

lemma InferPacketNumber_near:
  fixes last pn :: PacketNumber
  assumes len: "valid_PacketNumberLen len" and last: "unat last < 2 ^ 62"
    and near: "\<bar>uint pn - (uint last + 1)\<bar> < 2 ^ (8 * unat len - 1)"
  shows "InferPacketNumber len last (truncatePacketNumber len pn) = pn"
proof -
  define k where "k = 8 * unat len"
  have k: "unat (len * 8) = k" "0 < k" "k \<le> 48"
    using len by (auto simp: k_def valid_PacketNumberLen_def PacketNumberLen_defs)
  define D H :: int where "D = 2 ^ k" and "H = 2 ^ (k - 1)"
  have DH: "2 * H = D" using k by (simp add: D_def H_def flip: power_Suc)
  have D: "1 < D" "D \<le> 2 ^ 48"
    using k power_increasing [of k 48 "2 :: int"] by (auto simp: D_def)
  define e where "e = uint (last AND NOT (mask k))"
  have e: "e = uint last div D * D"
    using arg_cong [OF unat_and_not_mask [of last k], of int] by (simp add: e_def D_def zdiv_int)
  have E: "uint (push_bit k (1 :: PacketNumber)) = D"
    using k by (simp add: D_def uint_2p word_gt_0)
  have q: "uint (take_bit k pn) = uint pn mod D"
    unfolding D_def unsigned_take_bit_eq by (rule take_bit_eq_mod)
  have qb: "0 \<le> uint pn mod D" "uint pn mod D < D" using D by simp_all
  have pn: "uint pn = uint pn div D * D + uint pn mod D" by simp
  have "uint last = e + uint last mod D" unfolding e by simp
  then have lastE: "e \<le> uint last" "uint last < e + D"
    using D pos_mod_bound [of D "uint last"] pos_mod_sign [of D "uint last"] by linarith+
  have nearH: "\<bar>uint pn - (uint last + 1)\<bar> < H" using near by (simp add: H_def k_def)
  have cand: "uint pn = e + uint pn mod D \<or> uint pn = e - D + uint pn mod D \<or> uint pn = e + D + uint pn mod D"
    using lastE nearH DH D by (intro adjacent_epochs [OF pn e qb]) linarith+
  have "0 \<le> uint last div D" using D by (simp add: pos_imp_zdiv_nonneg_iff)
  then have low: "e = 0 \<or> D \<le> e"
    using D mult_right_mono [of 1 "uint last div D" D] unfolding e by (cases "uint last div D = 0") simp_all
  have "int (unat last) < int (2 ^ 62)" using last by (simp only: of_nat_less_iff)
  then have lst: "uint last < 2 ^ 62" by simp
  show ?thesis
    unfolding InferPacketNumber_def truncatePacketNumber_def Let_def k(1) push_bit_1_minus_1 k_def [symmetric]
    by (rule closest_candidate [OF E q e_def [symmetric] refl qb D DH lastE lst nearH cand low])
qed

text \<open>
  (C3) A sender that picks the packet number length from its least unacked packet, and a
  receiver that has seen at least the packet before that one, agree on the full packet
  number, as long as fewer than \<open>2 ^ 47\<close> packets are in flight and the packet is not
  reordered by \<open>2 ^ 15\<close> or more.
\<close>

theorem InferPacketNumber_GetPacketNumberLengthForPublicHeader:
  fixes last pn leastUnacked :: PacketNumber
  assumes "leastUnacked \<le> pn" and "pn - leastUnacked < 2 ^ 47" and "unat last < 2 ^ 62"
    and "unat leastUnacked \<le> unat last + 1" and "unat last + 1 < unat pn + 2 ^ 15"
  shows "(let len = GetPacketNumberLengthForPublicHeader pn leastUnacked
          in InferPacketNumber len last (truncatePacketNumber len pn) = pn)"
proof -
  let ?len = "GetPacketNumberLengthForPublicHeader pn leastUnacked"
  have d: "unat (pn - leastUnacked) = unat pn - unat leastUnacked"
    using assms(1) by (simp add: unat_diff_no_wrap word_le_nat_alt)
  have len: "valid_PacketNumberLen ?len" and "unat pn - unat leastUnacked < 2 ^ (8 * unat ?len - 1)"
      and "15 \<le> 8 * unat ?len - 1"
    using assms(2) d
    by (auto simp: GetPacketNumberLengthForPublicHeader_def Let_def valid_PacketNumberLen_def
        PacketNumberLen_defs unat_simps)
  moreover from this(3) have "(2 :: nat) ^ 15 \<le> 2 ^ (8 * unat ?len - 1)"
    by (intro power_increasing) simp_all
  ultimately have "unat pn < unat last + 1 + 2 ^ (8 * unat ?len - 1)"
      and "unat last + 1 < unat pn + 2 ^ (8 * unat ?len - 1)"
    using assms(1,4,5) by (simp_all add: word_le_nat_alt)
  then have "int (unat pn) < int (unat last + 1 + 2 ^ (8 * unat ?len - 1))"
      and "int (unat last + 1) < int (unat pn + 2 ^ (8 * unat ?len - 1))"
    by (simp_all only: of_nat_less_iff)
  then have "\<bar>uint pn - (uint last + 1)\<bar> < 2 ^ (8 * unat ?len - 1)"
    by (simp add: abs_less_iff)
  with len assms(3) show ?thesis by (simp add: Let_def InferPacketNumber_near)
qed

theorem InferPacketNumber_GetPacketNumberLengthForPublicHeader_witness:
  "(let len = GetPacketNumberLengthForPublicHeader 100000 99990
    in InferPacketNumber len 99995 (truncatePacketNumber len 100000) = 100000)"
  by (rule InferPacketNumber_GetPacketNumberLengthForPublicHeader) simp_all

lemma GetPacketNumberLength_valid [simp]: "valid_PacketNumberLen (GetPacketNumberLength pn)"
  by (simp add: GetPacketNumberLength_def valid_PacketNumberLen_def)

lemma GetPacketNumberLength_fits:
  "unat pn < 2 ^ 48 \<Longrightarrow> unat pn < 2 ^ (8 * unat (GetPacketNumberLength pn))"
  by (auto simp: GetPacketNumberLength_def PacketNumberLen_defs unat_simps)

lemma truncate_GetPacketNumberLength:
  assumes "unat pn < 2 ^ 48"
  shows "truncatePacketNumber (GetPacketNumberLength pn) pn = pn"
proof -
  have "take_bit (8 * unat (GetPacketNumberLength pn)) (unat pn) = unat pn"
    using GetPacketNumberLength_fits [OF assms] by (simp add: take_bit_nat_eq_self_iff)
  then show ?thesis
    by (simp add: truncatePacketNumber_def word_unat_eq_iff unsigned_take_bit_eq)
qed

section \<open>Version tags\<close>

lemma version_digit:
  fixes a b c :: nat
  assumes "a < 256" "b < 256" "c < 256"
  defines "t \<equiv> 81 + 256 * (a + 256 * (b + 256 * c))"
  shows "t div 256 mod 256 = a" "t div 65536 mod 256 = b" "t div 16777216 mod 256 = c"
proof -
  have 1: "t div 256 = a + 256 * (b + 256 * c)" by (simp add: t_def)
  have 2: "t div 65536 = b + 256 * c"
    using div_mult2_eq [of t 256 256] assms(1) by (simp add: 1)
  have 3: "t div 16777216 = c"
    using div_mult2_eq [of t 65536 256] assms(2) by (simp add: 2)
  show "t div 256 mod 256 = a" "t div 65536 mod 256 = b" "t div 16777216 mod 256 = c"
    using assms(1-3) mod_mult_self2 [of a 256 "b + 256 * c"] mod_mult_self2 [of b 256 c]
    unfolding 1 2 3 by simp_all
qed

lemma VersionNumberToTag_unat:
  fixes n :: nat
  assumes "n < 1000"
  shows "unat (VersionNumberToTag (int n))
    = 81 + 256 * ((n div 100 + 48) + 256 * ((n div 10 mod 10 + 48) + 256 * (n mod 10 + 48)))"
    (is "_ = ?n")
proof -
  define v :: uint32 where "v = of_nat n"
  have v: "unat v = n" using assms by (simp add: v_def unat_of_nat_lt)
  have d: "n div 100 < 10" using assms by simp
  have "v div 100 mod 10 = of_nat (n div 100)" "v div 10 mod 10 = of_nat (n div 10 mod 10)"
      "v mod 10 = of_nat (n mod 10)"
    using assms d by (simp_all add: word_unat_eq_iff unat_mod unat_div v unat_of_nat)
  then have "VersionNumberToTag (int n) = of_nat ?n"
    by (simp add: VersionNumberToTag_def v_def [symmetric] push_bit_eq_mult)
  moreover have "?n < 4294967296" using d mod_less_divisor [of 10 n] mod_less_divisor [of 10 "n div 10"]
    by simp
  ultimately show ?thesis by (simp only: unat_of_nat32)
qed

lemma unat_and_255: "unat (drop_bit k v AND 255) = unat v div 2 ^ k mod 256" for v :: uint32
proof -
  have "drop_bit k v AND 255 = take_bit 8 (drop_bit k v)" by (simp add: take_bit_eq_mask mask_eq_exp_minus_1)
  then have "unat (drop_bit k v AND 255) = take_bit 8 (drop_bit k (unat v))"
    by (simp add: unsigned_take_bit_eq unsigned_drop_bit_eq take_bit_nat_eq_self)
  then show ?thesis by (simp add: drop_bit_eq_div take_bit_eq_mod)
qed

text \<open>Version tags are read back as the version number they were made from.\<close>

lemma VersionTagToNumber_VersionNumberToTag:
  assumes "0 \<le> vn" "vn < 1000"
  shows "VersionTagToNumber (VersionNumberToTag vn) = vn"
proof -
  obtain n where n: "vn = int n" "n < 1000" using assms by (metis nonneg_int_cases of_nat_less_numeral_iff)
  define t where "t = VersionNumberToTag (int n)"
  have d: "n div 100 + 48 < 256" "n div 10 mod 10 + 48 < 256" "n mod 10 + 48 < 256" using n by simp_all
  note t = VersionNumberToTag_unat [OF n(2), folded t_def]
  have u: "unat (drop_bit 8 t AND 255) = n div 100 + 48"
    "unat (drop_bit 16 t AND 255) = n div 10 mod 10 + 48" "unat (drop_bit 24 t AND 255) = n mod 10 + 48"
    using version_digit [OF d, folded t] by (simp_all add: unat_and_255)
  have e: "(drop_bit 8 t AND 255) - 48 = of_nat (n div 100)"
    "(drop_bit 16 t AND 255) - 48 = of_nat (n div 10 mod 10)"
    "(drop_bit 24 t AND 255) - 48 = of_nat (n mod 10)"
    using u d by (simp_all add: word_unat_eq_iff unat_diff_no_wrap unat_of_nat32)
  have "n = 10 * (n div 10) + n mod 10" "n div 10 = 10 * (n div 10 div 10) + n div 10 mod 10"
    by simp_all
  then have s: "n div 100 * 100 + n div 10 mod 10 * 10 + n mod 10 = n"
    using div_mult2_eq [of n 10 10, simplified] by linarith
  have "of_nat (n div 100) * 100 + of_nat (n div 10 mod 10) * 10 + of_nat (n mod 10)
      = (of_nat n :: uint32)"
    using arg_cong [OF s, of "of_nat :: nat \<Rightarrow> uint32"] by simp
  moreover have "uint (of_nat n :: uint32) = int n"
    using n(2) by (simp only: uint_nat unat_of_nat32)
  ultimately show ?thesis
    unfolding VersionTagToNumber_def n(1) t_def [symmetric] e by simp
qed

lemma IsSupportedVersion_iff: "IsSupportedVersion supported v \<longleftrightarrow> v \<in> set supported"
  by (induction supported) auto

text \<open>
  (C30) Version negotiation picks the first version of our own list that the peer offers, and
  \<open>VersionUnsupported\<close> exactly when the two lists have no usable version in common.
\<close>

theorem ChooseSupportedVersion_spec:
  "ChooseSupportedVersion ours theirs =
     (case filter (\<lambda>v. IsSupportedVersion theirs v) ours of [] \<Rightarrow> VersionUnsupported | v # _ \<Rightarrow> v)"
  by (induction ours) (auto simp: IsSupportedVersion_iff list_ex_iff)

end
