(* ===== verification/Byte_Order.thy ===== *)
theory Byte_Order
  imports Protocol
begin

text \<open>
  The byte orders of \<^verbatim>\<open>internal/utils\<close>: the interface \<^verbatim>\<open>ByteOrder\<close> (\<^verbatim>\<open>byteorder.go\<close>) with its
  two implementations (\<^verbatim>\<open>byteorder_little_endian.go\<close>, \<^verbatim>\<open>byteorder_big_endian.go\<close>), and the
  16-bit floating point format of \<^verbatim>\<open>float16.go\<close>. The locale \<open>byte_order\<close> states what
  the frames rely on; both implementations and \<open>GetByteOrder\<close> are interpreted as instances.
\<close>


section \<open>The specification: bytes as digits\<close>

text \<open>The number that a byte string denotes with the least significant byte first, and the
  \<open>n\<close> low bytes of a number.\<close>

fun le_val :: "bytes \<Rightarrow> nat" where
  "le_val [] = 0"
| "le_val (b # bs) = unat b + 256 * le_val bs"

fun le_bytes :: "nat \<Rightarrow> nat \<Rightarrow> bytes" where
  "le_bytes 0 v = []"
| "le_bytes (Suc n) v = of_nat v # le_bytes n (v div 256)"

lemma le_bytes_numeral [simp]:
  "le_bytes (numeral n) v = of_nat v # le_bytes (pred_numeral n) (v div 256)"
  using le_bytes.simps(2) [of "pred_numeral n" v] by (simp only: numeral_eq_Suc [of n])

lemma length_le_bytes [simp]: "length (le_bytes n v) = n"
  by (induction n arbitrary: v) auto

lemma le_val_le_bytes: "le_val (le_bytes n v) = v mod 256 ^ n"
  by (induction n arbitrary: v) (auto simp: unat_of_nat mod_mult2_eq)

lemma le_val_bound: "le_val bs < 256 ^ length bs"
proof (induction bs)
  case (Cons b bs)
  then have "unat b + 256 * le_val bs < 256 * 256 ^ length bs"
    using unat_lt8 [of b] by linarith
  then show ?case by simp
qed simp

lemma le_bytes_le_val: "le_bytes (length bs) (le_val bs) = bs"
proof (induction bs)
  case (Cons b bs)
  have "unat (of_nat (unat b + 256 * le_val bs) :: uint8) = (unat b + 256 * le_val bs) mod 256"
    by (subst unat_of_nat) simp
  also have "\<dots> = unat b" by simp
  finally have "of_nat (le_val (b # bs)) = b" unfolding le_val.simps by (simp only: word_unat_eq_iff)
  moreover have "le_val (b # bs) div 256 = le_val bs" by simp
  ultimately show ?case using Cons by (simp only: list.size le_bytes.simps) simp
qed simp

section \<open>The interface\<close>

record ByteOrder =
  ReadUintN :: "uint8 \<Rightarrow> uint64 reader"
  ReadUint64 :: "uint64 reader"
  ReadUint32 :: "uint32 reader"
  ReadUint16 :: "uint16 reader"
  WriteUint64 :: "uint64 \<Rightarrow> bytes"
  WriteUint56 :: "uint64 \<Rightarrow> bytes result"
  WriteUint48 :: "uint64 \<Rightarrow> bytes result"
  WriteUint40 :: "uint64 \<Rightarrow> bytes result"
  WriteUint32 :: "uint32 \<Rightarrow> bytes"
  WriteUint24 :: "uint32 \<Rightarrow> bytes result"
  WriteUint16 :: "uint16 \<Rightarrow> bytes"

section \<open>Little endian\<close>

function le_ReadUintN_loop :: "uint8 \<Rightarrow> uint8 \<Rightarrow> uint64 \<Rightarrow> uint64 reader" where
  "le_ReadUintN_loop i len res b =
     (if i < len
      then bindE (ReadByte b) (\<lambda>(bt, b).
             le_ReadUintN_loop (i + 1) len (res XOR push_bit (unat (i * 8)) (ucast bt)) b)
      else Inr (res, b))"
  by pat_completeness auto
termination
  by (relation "measure (\<lambda>(i, len, res, b). length b)") (auto simp: ReadByte_eq_Inr_iff)

declare le_ReadUintN_loop.simps [simp del]

definition le_ReadUintN :: "uint8 \<Rightarrow> uint64 reader" where
  "le_ReadUintN len b = le_ReadUintN_loop 0 len 0 b"

definition le_ReadUint64 :: "uint64 reader" where
  "le_ReadUint64 b =
     bindE (ReadByte b) (\<lambda>(b1, b). bindE (ReadByte b) (\<lambda>(b2, b).
     bindE (ReadByte b) (\<lambda>(b3, b). bindE (ReadByte b) (\<lambda>(b4, b).
     bindE (ReadByte b) (\<lambda>(b5, b). bindE (ReadByte b) (\<lambda>(b6, b).
     bindE (ReadByte b) (\<lambda>(b7, b). bindE (ReadByte b) (\<lambda>(b8, b).
     Inr (ucast b1 + push_bit 8 (ucast b2) + push_bit 16 (ucast b3) + push_bit 24 (ucast b4)
         + push_bit 32 (ucast b5) + push_bit 40 (ucast b6) + push_bit 48 (ucast b7)
         + push_bit 56 (ucast b8), b)))))))))"

definition le_ReadUint32 :: "uint32 reader" where
  "le_ReadUint32 b =
     bindE (ReadByte b) (\<lambda>(b1, b). bindE (ReadByte b) (\<lambda>(b2, b).
     bindE (ReadByte b) (\<lambda>(b3, b). bindE (ReadByte b) (\<lambda>(b4, b).
     Inr (ucast b1 + push_bit 8 (ucast b2) + push_bit 16 (ucast b3) + push_bit 24 (ucast b4), b)))))"

definition le_ReadUint16 :: "uint16 reader" where
  "le_ReadUint16 b =
     bindE (ReadByte b) (\<lambda>(b1, b). bindE (ReadByte b) (\<lambda>(b2, b).
     Inr (ucast b1 + push_bit 8 (ucast b2), b)))"

definition le_WriteUint64 :: "uint64 \<Rightarrow> bytes" where
  "le_WriteUint64 i =
     [ucast i, ucast (drop_bit 8 i), ucast (drop_bit 16 i), ucast (drop_bit 24 i),
      ucast (drop_bit 32 i), ucast (drop_bit 40 i), ucast (drop_bit 48 i), ucast (drop_bit 56 i)]"

definition le_WriteUint56 :: "uint64 \<Rightarrow> bytes result" where
  "le_WriteUint56 i =
     (if i \<ge> push_bit 56 1 then Inl (Panic ''value doesn't fit into 56 bits'')
      else Inr [ucast i, ucast (drop_bit 8 i), ucast (drop_bit 16 i), ucast (drop_bit 24 i),
      ucast (drop_bit 32 i), ucast (drop_bit 40 i), ucast (drop_bit 48 i)])"

definition le_WriteUint48 :: "uint64 \<Rightarrow> bytes result" where
  "le_WriteUint48 i =
     (if i \<ge> push_bit 48 1 then Inl (Panic ''value doesn't fit into 48 bits'')
      else Inr [ucast i, ucast (drop_bit 8 i), ucast (drop_bit 16 i), ucast (drop_bit 24 i),
      ucast (drop_bit 32 i), ucast (drop_bit 40 i)])"

definition le_WriteUint40 :: "uint64 \<Rightarrow> bytes result" where
  "le_WriteUint40 i =
     (if i \<ge> push_bit 40 1 then Inl (Panic ''value doesn't fit into 40 bits'')
      else Inr [ucast i, ucast (drop_bit 8 i), ucast (drop_bit 16 i), ucast (drop_bit 24 i),
      ucast (drop_bit 32 i)])"

definition le_WriteUint32 :: "uint32 \<Rightarrow> bytes" where
  "le_WriteUint32 i =
     [ucast i, ucast (drop_bit 8 i), ucast (drop_bit 16 i), ucast (drop_bit 24 i)]"

definition le_WriteUint24 :: "uint32 \<Rightarrow> bytes result" where
  "le_WriteUint24 i =
     (if i \<ge> push_bit 24 1 then Inl (Panic ''value doesn't fit into 24 bits'')
      else Inr [ucast i, ucast (drop_bit 8 i), ucast (drop_bit 16 i)])"

definition le_WriteUint16 :: "uint16 \<Rightarrow> bytes" where
  "le_WriteUint16 i =
     [ucast i, ucast (drop_bit 8 i)]"

definition LittleEndian :: ByteOrder where
  "LittleEndian =
     \<lparr>ReadUintN = le_ReadUintN, ReadUint64 = le_ReadUint64, ReadUint32 = le_ReadUint32,
      ReadUint16 = le_ReadUint16, WriteUint64 = le_WriteUint64, WriteUint56 = le_WriteUint56,
      WriteUint48 = le_WriteUint48, WriteUint40 = le_WriteUint40, WriteUint32 = le_WriteUint32,
      WriteUint24 = le_WriteUint24, WriteUint16 = le_WriteUint16\<rparr>"

section \<open>Big endian\<close>

function be_ReadUintN_loop :: "uint8 \<Rightarrow> uint8 \<Rightarrow> uint64 \<Rightarrow> uint64 reader" where
  "be_ReadUintN_loop i len res b =
     (if i < len
      then bindE (ReadByte b) (\<lambda>(bt, b).
             be_ReadUintN_loop (i + 1) len (res XOR push_bit (unat ((len - 1 - i) * 8)) (ucast bt)) b)
      else Inr (res, b))"
  by pat_completeness auto
termination
  by (relation "measure (\<lambda>(i, len, res, b). length b)") (auto simp: ReadByte_eq_Inr_iff)

declare be_ReadUintN_loop.simps [simp del]

definition be_ReadUintN :: "uint8 \<Rightarrow> uint64 reader" where
  "be_ReadUintN len b = be_ReadUintN_loop 0 len 0 b"

definition be_ReadUint64 :: "uint64 reader" where
  "be_ReadUint64 b =
     bindE (ReadByte b) (\<lambda>(b8, b). bindE (ReadByte b) (\<lambda>(b7, b).
     bindE (ReadByte b) (\<lambda>(b6, b). bindE (ReadByte b) (\<lambda>(b5, b).
     bindE (ReadByte b) (\<lambda>(b4, b). bindE (ReadByte b) (\<lambda>(b3, b).
     bindE (ReadByte b) (\<lambda>(b2, b). bindE (ReadByte b) (\<lambda>(b1, b).
     Inr (ucast b1 + push_bit 8 (ucast b2) + push_bit 16 (ucast b3) + push_bit 24 (ucast b4)
         + push_bit 32 (ucast b5) + push_bit 40 (ucast b6) + push_bit 48 (ucast b7)
         + push_bit 56 (ucast b8), b)))))))))"

definition be_ReadUint32 :: "uint32 reader" where
  "be_ReadUint32 b =
     bindE (ReadByte b) (\<lambda>(b4, b). bindE (ReadByte b) (\<lambda>(b3, b).
     bindE (ReadByte b) (\<lambda>(b2, b). bindE (ReadByte b) (\<lambda>(b1, b).
     Inr (ucast b1 + push_bit 8 (ucast b2) + push_bit 16 (ucast b3) + push_bit 24 (ucast b4), b)))))"

definition be_ReadUint16 :: "uint16 reader" where
  "be_ReadUint16 b =
     bindE (ReadByte b) (\<lambda>(b2, b). bindE (ReadByte b) (\<lambda>(b1, b).
     Inr (ucast b1 + push_bit 8 (ucast b2), b)))"

definition be_WriteUint64 :: "uint64 \<Rightarrow> bytes" where
  "be_WriteUint64 i =
     [ucast (drop_bit 56 i), ucast (drop_bit 48 i), ucast (drop_bit 40 i), ucast (drop_bit 32 i),
      ucast (drop_bit 24 i), ucast (drop_bit 16 i), ucast (drop_bit 8 i), ucast i]"

definition be_WriteUint56 :: "uint64 \<Rightarrow> bytes result" where
  "be_WriteUint56 i =
     (if i \<ge> push_bit 56 1 then Inl (Panic ''value doesn't fit into 56 bits'')
      else Inr [ucast (drop_bit 48 i), ucast (drop_bit 40 i), ucast (drop_bit 32 i), ucast (drop_bit 24 i),
      ucast (drop_bit 16 i), ucast (drop_bit 8 i), ucast i])"

definition be_WriteUint48 :: "uint64 \<Rightarrow> bytes result" where
  "be_WriteUint48 i =
     (if i \<ge> push_bit 48 1 then Inl (Panic ''value doesn't fit into 48 bits'')
      else Inr [ucast (drop_bit 40 i), ucast (drop_bit 32 i), ucast (drop_bit 24 i), ucast (drop_bit 16 i),
      ucast (drop_bit 8 i), ucast i])"

definition be_WriteUint40 :: "uint64 \<Rightarrow> bytes result" where
  "be_WriteUint40 i =
     (if i \<ge> push_bit 40 1 then Inl (Panic ''value doesn't fit into 40 bits'')
      else Inr [ucast (drop_bit 32 i), ucast (drop_bit 24 i), ucast (drop_bit 16 i), ucast (drop_bit 8 i),
      ucast i])"

definition be_WriteUint32 :: "uint32 \<Rightarrow> bytes" where
  "be_WriteUint32 i =
     [ucast (drop_bit 24 i), ucast (drop_bit 16 i), ucast (drop_bit 8 i), ucast i]"

definition be_WriteUint24 :: "uint32 \<Rightarrow> bytes result" where
  "be_WriteUint24 i =
     (if i \<ge> push_bit 24 1 then Inl (Panic ''value doesn't fit into 24 bits'')
      else Inr [ucast (drop_bit 16 i), ucast (drop_bit 8 i), ucast i])"

definition be_WriteUint16 :: "uint16 \<Rightarrow> bytes" where
  "be_WriteUint16 i =
     [ucast (drop_bit 8 i), ucast i]"

definition BigEndian :: ByteOrder where
  "BigEndian =
     \<lparr>ReadUintN = be_ReadUintN, ReadUint64 = be_ReadUint64, ReadUint32 = be_ReadUint32,
      ReadUint16 = be_ReadUint16, WriteUint64 = be_WriteUint64, WriteUint56 = be_WriteUint56,
      WriteUint48 = be_WriteUint48, WriteUint40 = be_WriteUint40, WriteUint32 = be_WriteUint32,
      WriteUint24 = be_WriteUint24, WriteUint16 = be_WriteUint16\<rparr>"

definition GetByteOrder :: "VersionNumber \<Rightarrow> ByteOrder" where
  "GetByteOrder v = (if v < Version39 then LittleEndian else BigEndian)"

section \<open>The 16-bit floating point format\<close>

definition uFloat16ExponentBits :: nat where "uFloat16ExponentBits = 5"
definition uFloat16MaxExponent :: nat where "uFloat16MaxExponent = 2 ^ uFloat16ExponentBits - 2"
definition uFloat16MantissaBits :: nat where "uFloat16MantissaBits = 16 - uFloat16ExponentBits"
definition uFloat16MantissaEffectiveBits :: nat where
  "uFloat16MantissaEffectiveBits = uFloat16MantissaBits + 1"
definition uFloat16MaxValue :: uint64 where
  "uFloat16MaxValue = push_bit uFloat16MaxExponent (push_bit uFloat16MantissaEffectiveBits 1 - 1)"

lemmas uFloat16_defs =
  uFloat16ExponentBits_def uFloat16MaxExponent_def uFloat16MantissaBits_def
  uFloat16MantissaEffectiveBits_def uFloat16MaxValue_def

text \<open>
  The decoding of \<^verbatim>\<open>readUfloat16\<close> (everything after the two bytes are read), the binary
  search of \<^verbatim>\<open>writeUfloat16\<close> over the offsets 16, 8, 4, 2, 1, and its encoding. The methods
  \<^verbatim>\<open>ReadUfloat16\<close> and \<^verbatim>\<open>WriteUfloat16\<close> of both byte orders pass the receiver on.
\<close>

definition decodeUfloat16 :: "uint16 \<Rightarrow> uint64" where
  "decodeUfloat16 val =
     (let res = ucast val :: uint64
      in if res < push_bit uFloat16MantissaEffectiveBits 1 then res
         else let exponent = drop_bit uFloat16MantissaBits val - 1;
                  res = res - push_bit uFloat16MantissaBits (ucast exponent)
              in push_bit (unat exponent) res)"

definition ReadUfloat16 :: "ByteOrder \<Rightarrow> uint64 reader" where
  "ReadUfloat16 byteOrder b =
     bindE (ReadUint16 byteOrder b) (\<lambda>(val, b). Inr (decodeUfloat16 val, b))"

function ufloat16_search :: "uint16 \<Rightarrow> uint16 \<Rightarrow> uint64 \<Rightarrow> uint16 \<times> uint64" where
  "ufloat16_search offset exponent v =
     (if offset > 0
      then if v \<ge> push_bit (uFloat16MantissaBits + unat offset) 1
           then ufloat16_search (offset div 2) (exponent + offset) (drop_bit (unat offset) v)
           else ufloat16_search (offset div 2) exponent v
      else (exponent, v))"
  by pat_completeness auto
termination
  by (relation "measure (\<lambda>(offset, exponent, v). unat offset)")
    (auto simp: unat_div word_gt_0 unat_gt_0)

declare ufloat16_search.simps [simp del]

definition encodeUfloat16 :: "uint64 \<Rightarrow> uint16" where
  "encodeUfloat16 v =
     (if v < push_bit uFloat16MantissaEffectiveBits 1 then ucast v
      else if v \<ge> uFloat16MaxValue then 0xFFFF
      else let (exponent, v) = ufloat16_search 16 0 v
           in ucast v + push_bit uFloat16MantissaBits exponent)"

definition WriteUfloat16 :: "ByteOrder \<Rightarrow> uint64 \<Rightarrow> bytes" where
  "WriteUfloat16 byteOrder v = WriteUint16 byteOrder (encodeUfloat16 v)"

section \<open>The digits behind the byte orders\<close>

lemma unat_drop_bit_div: "unat (drop_bit k (i :: 'a::len word)) = unat i div 2 ^ k"
proof -
  have "unat (drop_bit k i) = drop_bit k (unat i)"
    by (simp add: unsigned_drop_bit_eq take_bit_nat_eq_self)
  then show ?thesis by (simp add: drop_bit_eq_div)
qed

lemma ucast_drop_bit8: "(ucast (drop_bit k (i :: 'a::len word)) :: uint8) = of_nat (unat i div 2 ^ k)"
  unfolding word_unat_eq_iff unat_ucast_shrink unat_of_nat unat_drop_bit_div by simp

lemma xor_push_bit_eq_add:
  assumes "unat a < 2 ^ k"
  shows "a XOR push_bit k b = a + push_bit k (b :: 'a::len word)"
proof -
  have "take_bit k a = a"
    using assms by (simp add: word_unat_eq_iff unsigned_take_bit_eq take_bit_nat_eq_self)
  then have "a AND push_bit k b = take_bit k a AND push_bit k b" by simp
  also have "\<dots> = 0" by (rule bit_word_eqI) (auto simp: bit_simps)
  finally show ?thesis by (simp add: disjunctive_add_eq_xor)
qed

lemma le_val_append: "le_val (as @ bs) = le_val as + 256 ^ length as * le_val bs"
  by (induction as) (simp_all add: algebra_simps)

lemma xor_first_byte:
  "ucast (b :: uint8) XOR push_bit 8 (of_nat L) = (of_nat (unat b + 256 * L) :: uint64)"
proof -
  have "unat (ucast b :: uint64) < 2 ^ 8" by simp
  then have "ucast b XOR push_bit 8 (of_nat L) = ucast b + (push_bit 8 (of_nat L) :: uint64)"
    by (rule xor_push_bit_eq_add)
  also have "\<dots> = of_nat (unat b + 256 * L)" by (simp add: push_bit_eq_mult)
  finally show ?thesis .
qed

lemma xor_last_byte:
  assumes "L < 256 ^ k" "k < 8"
  shows "push_bit (8 * k) (ucast (b :: uint8)) XOR of_nat L = (of_nat (L + 256 ^ k * unat b) :: uint64)"
proof -
  have p: "(256 :: nat) ^ k = 2 ^ (8 * k)" by (simp add: power_mult)
  have "unat (of_nat L :: uint64) \<le> L" unfolding unat_of_nat by (rule mod_less_eq_dividend)
  then have "unat (of_nat L :: uint64) < 2 ^ (8 * k)" using assms(1) unfolding p by linarith
  then have "of_nat L XOR push_bit (8 * k) (ucast b) = of_nat L + (push_bit (8 * k) (ucast b) :: uint64)"
    by (rule xor_push_bit_eq_add)
  also have "\<dots> = of_nat (L + 256 ^ k * unat b)" by (simp add: push_bit_eq_mult power_mult)
  finally show ?thesis by (simp only: xor.commute)
qed

lemma le_ReadUintN_loop_val:
  "i + length bs = n \<Longrightarrow> n \<le> 8 \<Longrightarrow>
   le_ReadUintN_loop (of_nat i) (of_nat n) res (bs @ r) =
     Inr (res XOR push_bit (8 * i) (of_nat (le_val bs)), r)"
proof (induction bs arbitrary: i res)
  case Nil
  then show ?case by (subst le_ReadUintN_loop.simps) simp
next
  case (Cons b bs)
  have s: "unat (of_nat i * 8 :: uint8) = 8 * i" using Cons.prems by (simp add: unat_word_ariths unat_of_nat8)
  have lt: "(of_nat i :: uint8) < of_nat n"
    using Cons.prems by (simp add: word_less_nat_alt unat_of_nat8)
  have x: "push_bit (8 * i) (ucast b) XOR push_bit (8 * Suc i) (of_nat (le_val bs)) =
           push_bit (8 * i) (of_nat (unat b + 256 * le_val bs) :: uint64)"
    unfolding xor_first_byte [symmetric] push_bit_xor push_bit_push_bit by (simp add: add.commute)
  show ?case using Cons.IH [of "Suc i" "res XOR push_bit (8 * i) (ucast b)"] Cons.prems lt s x
    by (subst le_ReadUintN_loop.simps) (simp add: ac_simps)
qed

lemma be_ReadUintN_loop_val:
  "i + length bs = n \<Longrightarrow> n \<le> 8 \<Longrightarrow>
   be_ReadUintN_loop (of_nat i) (of_nat n) res (bs @ r) = Inr (res XOR of_nat (le_val (rev bs)), r)"
proof (induction bs arbitrary: i res)
  case Nil
  then show ?case by (subst be_ReadUintN_loop.simps) simp
next
  case (Cons b bs)
  have "of_nat n - 1 - (of_nat i :: uint8) = of_nat (length bs)" using Cons.prems(1) by auto
  then have s: "unat ((of_nat n - 1 - of_nat i) * 8 :: uint8) = 8 * length bs"
    using Cons.prems by (simp add: unat_word_ariths unat_of_nat8)
  have lt: "(of_nat i :: uint8) < of_nat n"
    using Cons.prems by (simp add: word_less_nat_alt unat_of_nat8)
  have x: "push_bit (8 * length bs) (ucast b) XOR of_nat (le_val (rev bs)) =
           (of_nat (le_val (rev (b # bs))) :: uint64)"
    using Cons.prems le_val_bound [of "rev bs"] by (simp add: xor_last_byte le_val_append)
  show ?case
    using Cons.IH [of "Suc i" "res XOR push_bit (8 * length bs) (ucast b)"] Cons.prems lt s x
    by (subst be_ReadUintN_loop.simps) (simp add: ac_simps)
qed

lemma le_ReadUintN_loop_short:
  "i + length r < n \<Longrightarrow> n \<le> 8 \<Longrightarrow> le_ReadUintN_loop (of_nat i) (of_nat n) res r = Inl EOF"
proof (induction r arbitrary: i res)
  case Nil
  then show ?case by (subst le_ReadUintN_loop.simps) (simp add: word_less_nat_alt unat_of_nat8)
next
  case (Cons b r)
  have "(of_nat i :: uint8) < of_nat n" using Cons.prems by (simp add: word_less_nat_alt unat_of_nat8)
  then show ?case using Cons.IH [of "Suc i"] Cons.prems
    by (subst le_ReadUintN_loop.simps) (simp add: ac_simps)
qed

lemma be_ReadUintN_loop_short:
  "i + length r < n \<Longrightarrow> n \<le> 8 \<Longrightarrow> be_ReadUintN_loop (of_nat i) (of_nat n) res r = Inl EOF"
proof (induction r arbitrary: i res)
  case Nil
  then show ?case by (subst be_ReadUintN_loop.simps) (simp add: word_less_nat_alt unat_of_nat8)
next
  case (Cons b r)
  have "(of_nat i :: uint8) < of_nat n" using Cons.prems by (simp add: word_less_nat_alt unat_of_nat8)
  then show ?case using Cons.IH [of "Suc i"] Cons.prems
    by (subst be_ReadUintN_loop.simps) (simp add: ac_simps)
qed

lemma le_ReadUintN_loop_no_panic: "no_panic (le_ReadUintN_loop i len res b)"
proof (induction i len res b rule: le_ReadUintN_loop.induct)
  case (1 i len res b)
  then show ?case
    by (subst le_ReadUintN_loop.simps) (auto intro!: no_panic_intros)
qed

lemma be_ReadUintN_loop_no_panic: "no_panic (be_ReadUintN_loop i len res b)"
proof (induction i len res b rule: be_ReadUintN_loop.induct)
  case (1 i len res b)
  then show ?case
    by (subst be_ReadUintN_loop.simps) (auto intro!: no_panic_intros)
qed

section \<open>What a byte order promises\<close>

text \<open>
  \<open>enc n v\<close> are the \<open>n\<close> bytes that stand for \<open>v\<close>, \<open>dec bs\<close> is the number that the bytes
  \<open>bs\<close> stand for. The laws say that every write appends the digits of its argument, that the
  writes of 24, 40, 48 and 56 bits panic exactly on values that do not fit, and that every
  read consumes exactly its digits or reports the end of the input.
\<close>

locale byte_order =
  fixes bo :: ByteOrder
    and enc :: "nat \<Rightarrow> nat \<Rightarrow> bytes"
    and dec :: "bytes \<Rightarrow> nat"
  assumes length_enc: "length (enc n v) = n"
    and dec_enc: "dec (enc n v) = v mod 256 ^ n"
    and dec_bound: "dec bs < 256 ^ length bs"
    and enc_dec: "enc (length bs) (dec bs) = bs"
    and write64: "WriteUint64 bo i64 = enc 8 (unat i64)"
    and write56: "WriteUint56 bo i64 = (if unat i64 < 2 ^ 56 then Inr (enc 7 (unat i64))
                    else Inl (Panic ''value doesn't fit into 56 bits''))"
    and write48: "WriteUint48 bo i64 = (if unat i64 < 2 ^ 48 then Inr (enc 6 (unat i64))
                    else Inl (Panic ''value doesn't fit into 48 bits''))"
    and write40: "WriteUint40 bo i64 = (if unat i64 < 2 ^ 40 then Inr (enc 5 (unat i64))
                    else Inl (Panic ''value doesn't fit into 40 bits''))"
    and write32: "WriteUint32 bo i32 = enc 4 (unat i32)"
    and write24: "WriteUint24 bo i32 = (if unat i32 < 2 ^ 24 then Inr (enc 3 (unat i32))
                    else Inl (Panic ''value doesn't fit into 24 bits''))"
    and write16: "WriteUint16 bo i16 = enc 2 (unat i16)"
    and readN_dec: "length bs = n \<Longrightarrow> n \<le> 8 \<Longrightarrow>
                    ReadUintN bo (of_nat n) (bs @ r) = Inr (of_nat (dec bs), r)"
    and read64_dec: "length bs = 8 \<Longrightarrow> ReadUint64 bo (bs @ r) = Inr (of_nat (dec bs), r)"
    and read32_dec: "length bs = 4 \<Longrightarrow> ReadUint32 bo (bs @ r) = Inr (of_nat (dec bs), r)"
    and read16_dec: "length bs = 2 \<Longrightarrow> ReadUint16 bo (bs @ r) = Inr (of_nat (dec bs), r)"
    and readN_short: "length r < n \<Longrightarrow> n \<le> 8 \<Longrightarrow> ReadUintN bo (of_nat n) r = Inl EOF"
    and readN_no_panic: "no_panic (ReadUintN bo k r)"
    and read64_short: "length r < 8 \<Longrightarrow> ReadUint64 bo r = Inl EOF"
    and read32_short: "length r < 4 \<Longrightarrow> ReadUint32 bo r = Inl EOF"
    and read16_short: "length r < 2 \<Longrightarrow> ReadUint16 bo r = Inl EOF"
begin

lemma length_write64 [simp]: "length (WriteUint64 bo i) = 8"
  by (simp add: write64 length_enc)

lemma length_write32 [simp]: "length (WriteUint32 bo j) = 4"
  by (simp add: write32 length_enc)

lemma length_write16 [simp]: "length (WriteUint16 bo k) = 2"
  by (simp add: write16 length_enc)

lemma readN_enc:
  assumes "n \<le> 8"
  shows "ReadUintN bo (of_nat n) (enc n v @ r) = Inr (of_nat (v mod 256 ^ n), r)"
  by (simp add: readN_dec assms length_enc dec_enc)

lemma read64_write64 [simp]: "ReadUint64 bo (WriteUint64 bo i @ r) = Inr (i, r)"
  using unat_lt64 [of i] by (simp add: read64_dec write64 length_enc dec_enc)

lemma read32_write32 [simp]: "ReadUint32 bo (WriteUint32 bo j @ r) = Inr (j, r)"
  using unat_lt32 [of j] by (simp add: read32_dec write32 length_enc dec_enc)

lemma read16_write16 [simp]: "ReadUint16 bo (WriteUint16 bo k @ r) = Inr (k, r)"
  using unat_lt16 [of k] by (simp add: read16_dec write16 length_enc dec_enc)

lemma read16_cases:
  "ReadUint16 bo r = (if length r < 2 then Inl EOF else Inr (of_nat (dec (take 2 r)), drop 2 r))"
  using read16_short [of r] read16_dec [of "take 2 r" "drop 2 r"] by simp

lemma read32_cases:
  "ReadUint32 bo r = (if length r < 4 then Inl EOF else Inr (of_nat (dec (take 4 r)), drop 4 r))"
  using read32_short [of r] read32_dec [of "take 4 r" "drop 4 r"] by simp

lemma read64_cases:
  "ReadUint64 bo r = (if length r < 8 then Inl EOF else Inr (of_nat (dec (take 8 r)), drop 8 r))"
  using read64_short [of r] read64_dec [of "take 8 r" "drop 8 r"] by simp

lemma readN_cases:
  assumes "n \<le> 8"
  shows "ReadUintN bo (of_nat n) r =
     (if length r < n then Inl EOF else Inr (of_nat (dec (take n r)), drop n r))"
  using readN_short [of r n] readN_dec [of "take n r" n "drop n r"] assms by simp

lemma no_panic_reads [simp]:
  "no_panic (ReadUint16 bo r)" "no_panic (ReadUint32 bo r)" "no_panic (ReadUint64 bo r)"
  "no_panic (ReadUintN bo k r)"
  by (simp_all add: read16_cases read32_cases read64_cases readN_no_panic)

lemma readN_bound:
  assumes "ReadUintN bo (of_nat n) r = Inr (v, r')" "n < 8"
  shows "unat v < 256 ^ n"
proof -
  have "n \<le> length r" and v: "v = of_nat (dec (take n r))"
    using assms by (auto simp: readN_cases split: if_splits)
  then have b: "dec (take n r) < 256 ^ n" using dec_bound [of "take n r"] by simp
  have "unat v \<le> dec (take n r)" unfolding v unat_of_nat by (rule mod_less_eq_dividend)
  with b show ?thesis by linarith
qed

end

section \<open>The two byte orders keep the promise\<close>

lemma LittleEndian_sel [simp]:
  "ReadUintN LittleEndian = le_ReadUintN" "ReadUint64 LittleEndian = le_ReadUint64"
  "ReadUint32 LittleEndian = le_ReadUint32" "ReadUint16 LittleEndian = le_ReadUint16"
  "WriteUint64 LittleEndian = le_WriteUint64" "WriteUint56 LittleEndian = le_WriteUint56"
  "WriteUint48 LittleEndian = le_WriteUint48" "WriteUint40 LittleEndian = le_WriteUint40"
  "WriteUint32 LittleEndian = le_WriteUint32" "WriteUint24 LittleEndian = le_WriteUint24"
  "WriteUint16 LittleEndian = le_WriteUint16"
  by (simp_all add: LittleEndian_def)

lemma BigEndian_sel [simp]:
  "ReadUintN BigEndian = be_ReadUintN" "ReadUint64 BigEndian = be_ReadUint64"
  "ReadUint32 BigEndian = be_ReadUint32" "ReadUint16 BigEndian = be_ReadUint16"
  "WriteUint64 BigEndian = be_WriteUint64" "WriteUint56 BigEndian = be_WriteUint56"
  "WriteUint48 BigEndian = be_WriteUint48" "WriteUint40 BigEndian = be_WriteUint40"
  "WriteUint32 BigEndian = be_WriteUint32" "WriteUint24 BigEndian = be_WriteUint24"
  "WriteUint16 BigEndian = be_WriteUint16"
  by (simp_all add: BigEndian_def)

lemma length_Suc_numeral_cases:
  "length xs = numeral k \<longleftrightarrow> (\<exists>y ys. xs = y # ys \<and> length ys = pred_numeral k)"
  by (cases xs) (auto simp: numeral_eq_Suc)

lemma length_lt_numeral_cases:
  "length xs < numeral k \<longleftrightarrow> xs = [] \<or> (\<exists>y ys. xs = y # ys \<and> length ys < pred_numeral k)"
  by (cases xs) (auto simp: numeral_eq_Suc)

lemmas le_writes = le_WriteUint64_def le_WriteUint56_def le_WriteUint48_def le_WriteUint40_def
  le_WriteUint32_def le_WriteUint24_def le_WriteUint16_def
lemmas be_writes = be_WriteUint64_def be_WriteUint56_def be_WriteUint48_def be_WriteUint40_def
  be_WriteUint32_def be_WriteUint24_def be_WriteUint16_def
lemmas le_reads = le_ReadUint64_def le_ReadUint32_def le_ReadUint16_def
lemmas be_reads = be_ReadUint64_def be_ReadUint32_def be_ReadUint16_def

lemma le_read_val:
  "length bs = 8 \<Longrightarrow> le_ReadUint64 (bs @ r) = Inr (of_nat (le_val bs), r)"
  "length bs = 4 \<Longrightarrow> le_ReadUint32 (bs @ r) = Inr (of_nat (le_val bs), r)"
  "length bs = 2 \<Longrightarrow> le_ReadUint16 (bs @ r) = Inr (of_nat (le_val bs), r)"
  by (auto simp: length_Suc_numeral_cases length_Suc_conv le_reads push_bit_eq_mult)

lemma be_read_val:
  "length bs = 8 \<Longrightarrow> be_ReadUint64 (bs @ r) = Inr (of_nat (le_val (rev bs)), r)"
  "length bs = 4 \<Longrightarrow> be_ReadUint32 (bs @ r) = Inr (of_nat (le_val (rev bs)), r)"
  "length bs = 2 \<Longrightarrow> be_ReadUint16 (bs @ r) = Inr (of_nat (le_val (rev bs)), r)"
  by (auto simp: length_Suc_numeral_cases length_Suc_conv be_reads push_bit_eq_mult)

lemma le_read_short:
  "length r < 8 \<Longrightarrow> le_ReadUint64 r = Inl EOF"
  "length r < 4 \<Longrightarrow> le_ReadUint32 r = Inl EOF"
  "length r < 2 \<Longrightarrow> le_ReadUint16 r = Inl EOF"
  by (auto simp: length_lt_numeral_cases le_reads)

lemma be_read_short:
  "length r < 8 \<Longrightarrow> be_ReadUint64 r = Inl EOF"
  "length r < 4 \<Longrightarrow> be_ReadUint32 r = Inl EOF"
  "length r < 2 \<Longrightarrow> be_ReadUint16 r = Inl EOF"
  by (auto simp: length_lt_numeral_cases be_reads)

lemma le_ReadUintN_no_panic: "no_panic (le_ReadUintN len b)"
  by (simp add: le_ReadUintN_def le_ReadUintN_loop_no_panic)

lemma le_readN:
  "length bs = n \<Longrightarrow> n \<le> 8 \<Longrightarrow> le_ReadUintN (of_nat n) (bs @ r) = Inr (of_nat (le_val bs), r)"
  "length r < n \<Longrightarrow> n \<le> 8 \<Longrightarrow> le_ReadUintN (of_nat n) r = Inl EOF"
  using le_ReadUintN_loop_val [of 0 bs n 0 r] le_ReadUintN_loop_short [of 0 r n 0]
  by (simp_all add: le_ReadUintN_def)

lemma be_ReadUintN_no_panic: "no_panic (be_ReadUintN len b)"
  by (simp add: be_ReadUintN_def be_ReadUintN_loop_no_panic)

lemma be_readN:
  "length bs = n \<Longrightarrow> n \<le> 8 \<Longrightarrow>
   be_ReadUintN (of_nat n) (bs @ r) = Inr (of_nat (le_val (rev bs)), r)"
  "length r < n \<Longrightarrow> n \<le> 8 \<Longrightarrow> be_ReadUintN (of_nat n) r = Inl EOF"
  using be_ReadUintN_loop_val [of 0 bs n 0 r] be_ReadUintN_loop_short [of 0 r n 0]
  by (simp_all add: be_ReadUintN_def)

lemmas write_to_digits = ucast_drop_bit8 unat_simps push_bit_eq_mult

interpretation le: byte_order LittleEndian le_bytes le_val
  by unfold_locales
    (auto simp: le_val_le_bytes le_val_bound le_bytes_le_val le_writes write_to_digits
       le_read_val le_readN le_read_short le_ReadUintN_no_panic simp flip: div_mult2_eq)

definition be_bytes :: "nat \<Rightarrow> nat \<Rightarrow> bytes" where
  "be_bytes n v = rev (le_bytes n v)"

definition be_val :: "bytes \<Rightarrow> nat" where
  "be_val bs = le_val (rev bs)"

interpretation be: byte_order BigEndian be_bytes be_val
proof unfold_locales
  show "be_val bs < 256 ^ length bs" for bs using le_val_bound [of "rev bs"] by (simp add: be_val_def)
  show "be_bytes (length bs) (be_val bs) = bs" for bs
    using le_bytes_le_val [of "rev bs"] by (simp add: be_val_def be_bytes_def)
qed (auto simp: be_bytes_def be_val_def le_val_le_bytes be_writes write_to_digits
       be_read_val be_readN be_read_short be_ReadUintN_no_panic simp flip: div_mult2_eq)

text \<open>The byte order of a version is one of the two, so it keeps the promise as well.\<close>

definition version_bytes :: "VersionNumber \<Rightarrow> nat \<Rightarrow> nat \<Rightarrow> bytes" where
  "version_bytes v = (if v < Version39 then le_bytes else be_bytes)"

definition version_val :: "VersionNumber \<Rightarrow> bytes \<Rightarrow> nat" where
  "version_val v = (if v < Version39 then le_val else be_val)"

interpretation vo: byte_order "GetByteOrder v" "version_bytes v" "version_val v" for v
  using le.byte_order_axioms be.byte_order_axioms
  by (simp add: GetByteOrder_def version_bytes_def version_val_def)

lemma version_bytes_1 [simp]: "version_bytes v (Suc 0) x = [of_nat x]"
  by (simp add: version_bytes_def be_bytes_def)

section \<open>The 16-bit floats keep their values\<close>

lemma ufloat16_search_step:
  fixes v :: uint64 and o' :: uint16
  assumes "2 ^ 11 \<le> unat v" "unat v < 2 ^ (11 + 2 * unat o')" "0 < unat o'" "unat o' \<le> 16"
  obtains d where "d = 0 \<or> d = unat o'"
    "ufloat16_search o' e v = ufloat16_search (o' div 2) (e + of_nat d) (drop_bit d v)"
    "2 ^ 11 \<le> unat (drop_bit d v)" "unat (drop_bit d v) < 2 ^ (11 + unat o')"
proof -
  have u: "unat (push_bit (11 + unat o') 1 :: uint64) = 2 ^ (11 + unat o')"
    using assms(4) by (intro unat_push_bit_1) simp
  have pos: "0 < o'" using assms(3) by (simp add: unat_simps)
  show thesis
  proof (cases "2 ^ (11 + unat o') \<le> unat v")
    case True
    have "2 ^ 11 * 2 ^ unat o' \<le> unat v" using True by (simp add: power_add)
    then have "2 ^ 11 \<le> unat v div 2 ^ unat o'" by (simp add: less_eq_div_iff_mult_less_eq)
    moreover have "unat v < 2 ^ (11 + unat o') * 2 ^ unat o'"
      using assms(2) by (simp add: mult_2 ac_simps flip: power_add)
    then have "unat v div 2 ^ unat o' < 2 ^ (11 + unat o')" by (simp add: less_mult_imp_div_less)
    moreover have "ufloat16_search o' e v = ufloat16_search (o' div 2) (e + of_nat (unat o')) (drop_bit (unat o') v)"
      using True u pos
      by (subst ufloat16_search.simps) (simp add: word_le_nat_alt uFloat16_defs)
    ultimately show ?thesis by (intro that [of "unat o'"]) (simp_all add: unat_drop_bit_div)
  next
    case False
    have "ufloat16_search o' e v = ufloat16_search (o' div 2) e v"
      using False u pos
      by (subst ufloat16_search.simps) (simp add: word_le_nat_alt uFloat16_defs)
    then show ?thesis using False assms by (intro that [of 0]) simp_all
  qed
qed

lemma ufloat16_search_pow2:
  fixes v :: uint64
  assumes "k \<le> 4" "2 ^ 11 \<le> unat v" "unat v < 2 ^ (11 + 2 ^ Suc k)"
  shows "\<exists>d < 2 ^ Suc k. ufloat16_search (2 ^ k) e v = (e + of_nat d, drop_bit d v) \<and>
           2 ^ 11 \<le> unat (drop_bit d v) \<and> unat (drop_bit d v) < 2 ^ 12"
  using assms
proof (induction k arbitrary: e v)
  case 0
  then obtain d where d: "d = 0 \<or> d = unat (1 :: uint16)"
    "ufloat16_search 1 e v = ufloat16_search (1 div 2) (e + of_nat d) (drop_bit d v)"
    "2 ^ 11 \<le> unat (drop_bit d v)" "unat (drop_bit d v) < 2 ^ (11 + unat (1 :: uint16))"
    using ufloat16_search_step [of v 1 e] by auto
  then have "ufloat16_search 1 e v = (e + of_nat d, drop_bit d v)"
    by (simp add: ufloat16_search.simps [of 0])
  with d show ?case by (intro exI [of _ d]) auto
next
  case (Suc k)
  have u: "unat (2 ^ Suc k :: uint16) = 2 ^ Suc k" using Suc.prems(1) by (intro unat_2p) simp
  have le: "(2 :: nat) ^ Suc k \<le> 2 ^ 4" using Suc.prems(1) by (intro power_increasing) simp_all
  have half: "(2 ^ Suc k :: uint16) div 2 = 2 ^ k"
    using Suc.prems(1) unat_2p [where 'a = 16, of k] u
    by (simp add: word_unat_eq_iff unat_div del: power_Suc) simp
  obtain d where d: "d = 0 \<or> d = 2 ^ Suc k"
    "ufloat16_search (2 ^ Suc k) e v = ufloat16_search (2 ^ k) (e + of_nat d) (drop_bit d v)"
    "2 ^ 11 \<le> unat (drop_bit d v)" "unat (drop_bit d v) < 2 ^ (11 + 2 ^ Suc k)"
    using ufloat16_search_step [of v "2 ^ Suc k" e] Suc.prems le unfolding u half by auto
  obtain d' where d': "d' < 2 ^ Suc k"
    "ufloat16_search (2 ^ k) (e + of_nat d) (drop_bit d v) =
       (e + of_nat d + of_nat d', drop_bit d' (drop_bit d v))"
    "2 ^ 11 \<le> unat (drop_bit d' (drop_bit d v))" "unat (drop_bit d' (drop_bit d v)) < 2 ^ 12"
    using Suc.IH [OF _ d(3,4)] Suc.prems(1) by fastforce
  then show ?case using d by (intro exI [of _ "d + d'"]) (auto simp: add.commute add.left_commute)
qed

text \<open>Both directions as arithmetic on natural numbers.\<close>

lemma unat_uFloat16MaxValue: "unat uFloat16MaxValue = 4095 * 2 ^ 30"
  by (simp add: uFloat16_defs push_bit_eq_mult)

lemma unat_encodeUfloat16:
  obtains "unat v < 4096" "unat (encodeUfloat16 v) = unat v"
  | "4095 * 2 ^ 30 \<le> unat v" "unat (encodeUfloat16 v) = 65535"
  | e where "1 \<le> e" "e \<le> 30" "2048 \<le> unat v div 2 ^ e" "unat v div 2 ^ e < 4096"
      "unat (encodeUfloat16 v) = unat v div 2 ^ e + e * 2048" "4096 \<le> unat v" "unat v < 4095 * 2 ^ 30"
proof -
  have c: "v < push_bit uFloat16MantissaEffectiveBits 1 \<longleftrightarrow> unat v < 4096"
    "v \<ge> uFloat16MaxValue \<longleftrightarrow> 4095 * 2 ^ 30 \<le> unat v"
    using unat_uFloat16MaxValue by (simp_all add: unat_simps uFloat16_defs unat_push_bit_1)
  consider "unat v < 4096" | "4096 \<le> unat v" "4095 * 2 ^ 30 \<le> unat v"
    | "4096 \<le> unat v" "unat v < 4095 * 2 ^ 30" by linarith
  then show thesis
  proof cases
    case 1
    then show ?thesis using c by (intro that(1)) (simp_all add: encodeUfloat16_def unat_ucast_shrink)
  next
    case 2
    then show ?thesis using c by (intro that(2)) (simp_all add: encodeUfloat16_def)
  next
    case 3
    obtain d where d: "d < 2 ^ Suc 4" "ufloat16_search (2 ^ 4) 0 v = (0 + of_nat d, drop_bit d v)"
      "2 ^ 11 \<le> unat (drop_bit d v)" "unat (drop_bit d v) < 2 ^ 12"
      using ufloat16_search_pow2 [of 4 v 0] 3 by auto
    have enc: "encodeUfloat16 v = ucast (drop_bit d v) + push_bit 11 (of_nat d)"
      using 3 c d(2) by (simp add: encodeUfloat16_def uFloat16MantissaBits_def uFloat16ExponentBits_def)
    have bounds: "2048 \<le> unat v div 2 ^ d" "unat v div 2 ^ d < 4096"
      using d by (simp_all add: unat_drop_bit_div)
    have "d \<noteq> 0" using bounds(2) 3(1) by (cases d) auto
    moreover have "d \<noteq> 31" using bounds(1) 3(2) by auto
    ultimately have d30: "1 \<le> d" "d \<le> 30" using d(1) by auto
    have "unat (encodeUfloat16 v) = unat v div 2 ^ d + d * 2048"
      using d30 bounds unfolding enc
      by (simp add: push_bit_eq_mult unat_word_ariths unat_of_nat16 unat_ucast_shrink unat_drop_bit_div)
    then show ?thesis using d30 bounds 3 by (intro that(3) [of d])
  qed
qed

lemma unat_decodeUfloat16:
  "unat (decodeUfloat16 w) =
     (if unat w < 4096 then unat w else (2048 + unat w mod 2048) * 2 ^ (unat w div 2048 - 1))"
proof (cases "unat w < 4096")
  case True
  then show ?thesis by (simp add: decodeUfloat16_def uFloat16_defs unat_simps unat_push_bit_1)
next
  case False
  define k where "k = unat w div 2048 - 1"
  have "unat w div 2048 < 32" using unat_lt16 [of w] by (simp only: less_mult_imp_div_less)
  then have k: "1 \<le> k" "k \<le> 30" and split: "unat w = (k + 1) * 2048 + unat w mod 2048"
    using False unfolding k_def by auto
  have ex: "unat (drop_bit 11 w - 1) = k"
    using k by (simp add: unat_sub word_le_nat_alt unat_drop_bit_div k_def)
  have p: "unat (push_bit 11 (ucast (drop_bit 11 w - 1)) :: uint64) = k * 2048"
    using k ex by (simp add: push_bit_eq_mult unat_word_ariths)
  have sub: "unat (ucast w - push_bit 11 (ucast (drop_bit 11 w - 1)) :: uint64) = 2048 + unat w mod 2048"
    using p split by (subst unat_sub) (simp_all add: word_le_nat_alt)
  have "(2 :: nat) ^ k \<le> 2 ^ 30" using k by (intro power_increasing) simp_all
  then have "(2048 + unat w mod 2048) * 2 ^ k \<le> 4096 * 2 ^ 30" by (intro mult_mono) simp_all
  then have "(2048 + unat w mod 2048) * 2 ^ k < 2 ^ 64" by simp
  then have "unat (push_bit k (ucast w - push_bit 11 (ucast (drop_bit 11 w - 1))) :: uint64) =
    (2048 + unat w mod 2048) * 2 ^ k"
    unfolding push_bit_eq_mult unat_word_ariths using sub k
    by (simp add: unat_2p push_bit_eq_mult)
  then show ?thesis using False ex
    by (simp add: decodeUfloat16_def uFloat16_defs unat_simps unat_push_bit_1 k_def)
qed

lemma pow2_window_unique:
  assumes "2048 \<le> (d :: nat) div 2 ^ e" "d div 2 ^ e < 4096" "2048 \<le> d div 2 ^ k" "d div 2 ^ k < 4096"
  shows "e = k"
proof -
  have b: "2 ^ (11 + n) \<le> d \<and> d < 2 ^ (12 + n)" if "2048 \<le> d div 2 ^ n" "d div 2 ^ n < 4096" for n
    using that by (simp add: less_eq_div_iff_mult_less_eq div_less_iff_less_mult power_add)
  have "(2 :: nat) ^ (11 + e) < 2 ^ (12 + k)" "(2 :: nat) ^ (11 + k) < 2 ^ (12 + e)"
    using b [of e] b [of k] assms by linarith+
  then have "11 + e < 12 + k" "11 + k < 12 + e"
    using power_less_imp_less_exp [of "2 :: nat"] by (meson one_less_numeral_iff semiring_norm(76))+
  then show ?thesis by simp
qed

lemma encode_decodeUfloat16: "encodeUfloat16 (decodeUfloat16 w) = w"
proof (cases "unat w < 4096")
  case True
  then show ?thesis
    by (cases rule: unat_encodeUfloat16 [of "decodeUfloat16 w"])
      (auto simp: unat_decodeUfloat16 word_unat_eq_iff)
next
  case False
  define k where "k = unat w div 2048 - 1"
  define m where "m = 2048 + unat w mod 2048"
  have "unat w div 2048 < 32" using unat_lt16 [of w] by (simp only: less_mult_imp_div_less)
  then have k: "1 \<le> k" "k \<le> 30" and "unat w = (k + 1) * 2048 + unat w mod 2048"
      and m: "2048 \<le> m" "m < 4096"
    using False unfolding k_def m_def by auto
  then have w: "unat w = m + k * 2048" unfolding m_def by simp
  have d: "unat (decodeUfloat16 w) = m * 2 ^ k" using False by (simp add: unat_decodeUfloat16 m_def k_def)
  show ?thesis
  proof (cases rule: unat_encodeUfloat16 [of "decodeUfloat16 w"])
    case 1
    have "2048 * 2 ^ 1 \<le> m * 2 ^ k" using k m by (intro mult_mono power_increasing) simp_all
    then show ?thesis using 1 d by simp
  next
    case 2
    have "k = 30"
    proof (rule ccontr)
      assume "k \<noteq> 30"
      then have "m * 2 ^ k \<le> 4095 * 2 ^ 29" using k m by (intro mult_mono power_increasing) simp_all
      then show False using 2 d by simp
    qed
    then show ?thesis using 2 d m w by (simp add: word_unat_eq_iff)
  next
    case (3 e)
    have "e = k" using 3 m unfolding d by (intro pow2_window_unique [of "m * 2 ^ k" e k]) simp_all
    then show ?thesis using 3 d w by (simp add: word_unat_eq_iff)
  qed
qed

lemma decode_encodeUfloat16_cases:
  obtains "decodeUfloat16 (encodeUfloat16 v) = v" "unat v < 4096"
  | "4095 * 2 ^ 30 \<le> unat v" "unat (decodeUfloat16 (encodeUfloat16 v)) = 4095 * 2 ^ 30"
  | e where "2048 \<le> unat v div 2 ^ e" "unat v < 4095 * 2 ^ 30"
      "unat (decodeUfloat16 (encodeUfloat16 v)) = unat v div 2 ^ e * 2 ^ e"
proof (cases rule: unat_encodeUfloat16 [of v])
  case 1
  then show thesis by (intro that(1)) (simp_all add: word_unat_eq_iff unat_decodeUfloat16)
next
  case 2
  then show thesis by (intro that(2)) (simp_all add: unat_decodeUfloat16)
next
  case (3 e)
  define m where "m = unat v div 2 ^ e - 2048"
  have m: "unat v div 2 ^ e = 2048 + m" "m < 2048" using 3 unfolding m_def by auto
  have "unat (encodeUfloat16 v) div 2048 = e + 1" "unat (encodeUfloat16 v) mod 2048 = m"
    "\<not> unat (encodeUfloat16 v) < 4096"
    using 3 m by simp_all
  then show thesis using 3 m by (intro that(3) [of e]) (simp_all add: unat_decodeUfloat16)
qed

lemma decode_encodeUfloat16_bounds:
  defines "y v \<equiv> decodeUfloat16 (encodeUfloat16 v)"
  shows "unat (y v) \<le> unat v"
    and "unat v < 4095 * 2 ^ 30 \<Longrightarrow> (unat v - unat (y v)) * 2048 \<le> unat v"
    and "4095 * 2 ^ 30 \<le> unat v \<Longrightarrow> y v = uFloat16MaxValue"
proof -
  have "unat (y v) \<le> unat v \<and> (unat v < 4095 * 2 ^ 30 \<longrightarrow> (unat v - unat (y v)) * 2048 \<le> unat v) \<and>
    (4095 * 2 ^ 30 \<le> unat v \<longrightarrow> y v = uFloat16MaxValue)"
  proof (cases rule: decode_encodeUfloat16_cases [of v])
    case (3 e)
    have mod: "unat v - unat (y v) = unat v mod 2 ^ e"
      unfolding y_def 3 by (simp add: minus_div_mult_eq_mod)
    have "unat v mod 2 ^ e * 2048 \<le> 2 ^ e * (unat v div 2 ^ e)"
      using 3 by (intro mult_mono) simp_all
    also have "\<dots> \<le> unat v" by simp
    finally show ?thesis using 3 mod unfolding y_def by simp
  qed (auto simp: y_def word_unat_eq_iff unat_uFloat16MaxValue)
  then show "unat (y v) \<le> unat v"
    "unat v < 4095 * 2 ^ 30 \<Longrightarrow> (unat v - unat (y v)) * 2048 \<le> unat v"
    "4095 * 2 ^ 30 \<le> unat v \<Longrightarrow> y v = uFloat16MaxValue" by auto
qed

lemma ReadUfloat16_WriteUfloat16 [simp]:
  "ReadUfloat16 (GetByteOrder ver) (WriteUfloat16 (GetByteOrder ver) v @ r) =
     Inr (decodeUfloat16 (encodeUfloat16 v), r)"
  by (simp add: ReadUfloat16_def WriteUfloat16_def)

lemma no_panic_ReadUfloat16 [simp]: "no_panic (ReadUfloat16 (GetByteOrder ver) b)"
  by (auto simp: ReadUfloat16_def intro!: no_panic_intros)

lemma length_WriteUfloat16 [simp]: "length (WriteUfloat16 (GetByteOrder ver) v) = 2"
  by (simp add: WriteUfloat16_def)

text \<open>
  (C28) The 16-bit float of the ACK delay loses little and never overshoots: writing a value and
  reading it back gives a value that is not larger, that differs by at most one part in 2048
  from the original up to the largest representable number, and that is this number above it.
\<close>

theorem ufloat16_write_read:
  "\<exists>y. ReadUfloat16 (GetByteOrder ver) (WriteUfloat16 (GetByteOrder ver) x @ r) = Inr (y, r) \<and>
     unat y \<le> unat x \<and>
     (if x < uFloat16MaxValue then (unat x - unat y) * 2048 \<le> unat x else y = uFloat16MaxValue)"
  using decode_encodeUfloat16_bounds [of x] unat_uFloat16MaxValue
  by (intro exI [of _ "decodeUfloat16 (encodeUfloat16 x)"]) (auto simp: unat_simps)

text \<open>
  (C29) Reading a 16-bit float and writing the value again restores the two bytes: the encoding
  is canonical, in both byte orders.
\<close>

theorem ufloat16_read_write:
  assumes "ReadUfloat16 (GetByteOrder ver) b = Inr (x, r)"
  shows "b = WriteUfloat16 (GetByteOrder ver) x @ r"
proof -
  obtain val where v: "ReadUint16 (GetByteOrder ver) b = Inr (val, r)" "x = decodeUfloat16 val"
    using assms by (auto simp: ReadUfloat16_def bindE_eq_Inr_iff)
  then have "2 \<le> length b" "val = of_nat (version_val ver (take 2 b))" "r = drop 2 b"
    by (auto simp: vo.read16_cases split: if_splits)
  moreover from this have "WriteUint16 (GetByteOrder ver) val = take 2 b"
    using vo.dec_bound [of ver "take 2 b"] vo.enc_dec [of ver "take 2 b"]
    by (simp add: vo.write16 unat_of_nat16)
  ultimately show ?thesis using v by (simp add: WriteUfloat16_def encode_decodeUfloat16)
qed

theorem ufloat16_read_write_witness:
  "[0x12, 0x34, 7] = WriteUfloat16 (GetByteOrder 39) (decodeUfloat16 0x1234) @ [7]"
  by (rule ufloat16_read_write) code_simp

end
