(* ===== verification/Stream_Frame.thy ===== *)
theory Stream_Frame
imports Byte_Order
begin

text \<open>
  The STREAM frame of \<^verbatim>\<open>internal/wire/stream_frame.go\<close>: parsing, writing and its lengths. A write
  returns the bytes it appends to the buffer.
\<close>

definition InvalidStreamData :: ErrorCode where "InvalidStreamData = 46"
definition EmptyStreamFrameNoFin :: ErrorCode where "EmptyStreamFrameNoFin = 50"

record StreamFrame =
  sf_StreamID :: StreamID
  sf_UnreliableMarker :: bool
  sf_FinBit :: bool
  sf_DataLenPresent :: bool
  sf_Offset :: ByteCount
  sf_Data :: bytes

definition errInvalidStreamIDLen :: error where
  "errInvalidStreamIDLen = GoErr ''StreamFrame: Invalid StreamID length''"

definition errInvalidOffsetLen :: error where
  "errInvalidOffsetLen = GoErr ''StreamFrame: Invalid offset length''"

definition sf_DataLen :: "StreamFrame \<Rightarrow> ByteCount" where
  "sf_DataLen f = of_nat (length (sf_Data f))"

definition calculateStreamIDLength :: "StreamFrame \<Rightarrow> uint8" where
  "calculateStreamIDLength f =
     (if sf_StreamID f < push_bit 8 1 then 1
      else if sf_StreamID f < push_bit 16 1 then 2
      else if sf_StreamID f < push_bit 24 1 then 3
      else 4)"

definition getOffsetLength :: "StreamFrame \<Rightarrow> ByteCount" where
  "getOffsetLength f =
     (if sf_Offset f = 0 then 0
      else if sf_Offset f < push_bit 16 1 then 2
      else if sf_Offset f < push_bit 24 1 then 3
      else if sf_Offset f < push_bit 32 1 then 4
      else if sf_Offset f < push_bit 40 1 then 5
      else if sf_Offset f < push_bit 48 1 then 6
      else if sf_Offset f < push_bit 56 1 then 7
      else 8)"

definition sf_MinLength :: "StreamFrame \<Rightarrow> ByteCount" where
  "sf_MinLength f =
     (let len = 1 + ucast (calculateStreamIDLength f) + getOffsetLength f
      in if sf_DataLenPresent f then len + 2 else len)"

text \<open>
  The parser, with everything after the type byte as a definition of its own. The sum
  \<open>Offset + DataLen\<close> wraps at 64 bits, which is what the overflow test looks for.
\<close>

definition parseStreamBody ::
    "VersionNumber \<Rightarrow> bool \<Rightarrow> bool \<Rightarrow> uint8 \<Rightarrow> uint8 \<Rightarrow> StreamFrame reader" where
  "parseStreamBody version fin dataLenPresent offsetLen streamIDLen r =
     bindE (ReadUintN (GetByteOrder version) streamIDLen r) (\<lambda>(sid, r).
     bindE (ReadUintN (GetByteOrder version) offsetLen r) (\<lambda>(offset, r).
     bindE (if dataLenPresent then ReadUint16 (GetByteOrder version) r else Inr (0, r))
       (\<lambda>(dataLen, r).
     if dataLen > ucast MaxPacketSize
     then Inl (QuicErr InvalidStreamData ''data len too large'')
     else let dataLen = (if dataLenPresent then dataLen else of_nat (length r))
     in bindE (if dataLen \<noteq> 0 then ReadFull (unat dataLen) r else Inr ([], r)) (\<lambda>(data, r).
     let frame = \<lparr>sf_StreamID = ucast sid, sf_UnreliableMarker = False, sf_FinBit = fin,
                  sf_DataLenPresent = dataLenPresent, sf_Offset = offset, sf_Data = data\<rparr>
     in if sf_Offset frame + sf_DataLen frame < sf_Offset frame
        then Inl (QuicErr InvalidStreamData ''data overflows maximum offset'')
        else if \<not> sf_FinBit frame \<and> sf_DataLen frame = 0
        then Inl (CodeErr EmptyStreamFrameNoFin)
        else Inr (frame, r)))))"

definition ParseStreamFrame :: "VersionNumber \<Rightarrow> StreamFrame reader" where
  "ParseStreamFrame version r =
     bindE (ReadByte r) (\<lambda>(typeByte, r).
     let typeByte = typeByte AND 0xFE;
         fin = (typeByte AND 0x40 > 0);
         dataLenPresent = (typeByte AND 0x20 > 0);
         offsetLen = drop_bit 2 (typeByte AND 0x1c);
         offsetLen = (if offsetLen \<noteq> 0 then offsetLen + 1 else offsetLen);
         streamIDLen = (typeByte AND 0x3) + 1
     in parseStreamBody version fin dataLenPresent offsetLen streamIDLen r)"

text \<open>The two switches of the writer, then the writer.\<close>

definition writeStreamID :: "VersionNumber \<Rightarrow> uint8 \<Rightarrow> StreamID \<Rightarrow> bytes result" where
  "writeStreamID version streamIDLen sid =
     (if streamIDLen = 1 then Inr [ucast sid]
      else if streamIDLen = 2 then Inr (WriteUint16 (GetByteOrder version) (ucast sid))
      else if streamIDLen = 3 then WriteUint24 (GetByteOrder version) sid
      else if streamIDLen = 4 then Inr (WriteUint32 (GetByteOrder version) sid)
      else Inl errInvalidStreamIDLen)"

definition writeOffset :: "VersionNumber \<Rightarrow> ByteCount \<Rightarrow> ByteCount \<Rightarrow> bytes result" where
  "writeOffset version offsetLength offset =
     (if offsetLength = 0 then Inr []
      else if offsetLength = 2 then Inr (WriteUint16 (GetByteOrder version) (ucast offset))
      else if offsetLength = 3 then WriteUint24 (GetByteOrder version) (ucast offset)
      else if offsetLength = 4 then Inr (WriteUint32 (GetByteOrder version) (ucast offset))
      else if offsetLength = 5 then WriteUint40 (GetByteOrder version) offset
      else if offsetLength = 6 then WriteUint48 (GetByteOrder version) offset
      else if offsetLength = 7 then WriteUint56 (GetByteOrder version) offset
      else if offsetLength = 8 then Inr (WriteUint64 (GetByteOrder version) offset)
      else Inl errInvalidOffsetLen)"

definition sf_typeByte :: "StreamFrame \<Rightarrow> uint8" where
  "sf_typeByte f =
     (let typeByte = 0x80 :: uint8;
          typeByte = (if sf_UnreliableMarker f then typeByte XOR 0x01 else typeByte);
          typeByte = (if sf_FinBit f then typeByte XOR 0x40 else typeByte);
          typeByte = (if sf_DataLenPresent f then typeByte XOR 0x20 else typeByte);
          offsetLength = getOffsetLength f;
          typeByte = (if offsetLength > 0 then typeByte XOR push_bit 2 (ucast offsetLength - 1)
                      else typeByte)
      in typeByte XOR (calculateStreamIDLength f - 1))"

definition sf_Write :: "VersionNumber \<Rightarrow> StreamFrame \<Rightarrow> bytes result" where
  "sf_Write version f =
     (if length (sf_Data f) = 0 \<and> \<not> sf_FinBit f
      then Inl (GoErr ''StreamFrame: attempting to write empty frame without FIN'')
      else bindE (writeStreamID version (calculateStreamIDLength f) (sf_StreamID f)) (\<lambda>sid.
           bindE (writeOffset version (getOffsetLength f) (sf_Offset f)) (\<lambda>off.
           Inr ([sf_typeByte f] @ sid @ off
                @ (if sf_DataLenPresent f
                   then WriteUint16 (GetByteOrder version) (of_nat (length (sf_Data f))) else [])
                @ sf_Data f))))"

section \<open>The variable-length fields\<close>

definition sid_width :: "StreamFrame \<Rightarrow> nat" where
  "sid_width f = unat (calculateStreamIDLength f)"

definition off_width :: "StreamFrame \<Rightarrow> nat" where
  "off_width f = unat (getOffsetLength f)"

lemma sid_width_cases:
  obtains "sid_width f = 1" "calculateStreamIDLength f = 1" "unat (sf_StreamID f) < 256"
  | "sid_width f = 2" "calculateStreamIDLength f = 2" "256 \<le> unat (sf_StreamID f)"
      "unat (sf_StreamID f) < 256 ^ 2"
  | "sid_width f = 3" "calculateStreamIDLength f = 3" "256 ^ 2 \<le> unat (sf_StreamID f)"
      "unat (sf_StreamID f) < 256 ^ 3"
  | "sid_width f = 4" "calculateStreamIDLength f = 4" "256 ^ 3 \<le> unat (sf_StreamID f)"
proof -
  consider "unat (sf_StreamID f) < 256" | "256 \<le> unat (sf_StreamID f)" "unat (sf_StreamID f) < 256 ^ 2"
    | "256 ^ 2 \<le> unat (sf_StreamID f)" "unat (sf_StreamID f) < 256 ^ 3"
    | "256 ^ 3 \<le> unat (sf_StreamID f)" by linarith
  then show thesis
    by cases
      (auto intro: that simp: sid_width_def calculateStreamIDLength_def unat_simps unat_push_bit_1)
qed

lemma calculateStreamIDLength_eq: "calculateStreamIDLength f = of_nat (sid_width f)"
  by (simp add: sid_width_def)

lemma getOffsetLength_eq: "getOffsetLength f = of_nat (off_width f)"
  by (simp add: off_width_def)

lemma sid_width_bounds:
  "1 \<le> sid_width f" "sid_width f \<le> 4" "unat (sf_StreamID f) < 256 ^ sid_width f"
  using unat_lt32 [of "sf_StreamID f"] by (cases f rule: sid_width_cases; simp)+

lemma writeStreamID_width:
  "writeStreamID v (calculateStreamIDLength f) (sf_StreamID f) =
     Inr (version_bytes v (sid_width f) (unat (sf_StreamID f)))"
  by (cases f rule: sid_width_cases)
    (simp_all add: writeStreamID_def vo.write16 vo.write24 vo.write32 unat_ucast_shrink)

lemma off_width_cases:
  obtains "off_width f = 0" "getOffsetLength f = 0" "sf_Offset f = 0"
  | n where "2 \<le> n" "n \<le> 8" "off_width f = n" "getOffsetLength f = of_nat n"
      "unat (sf_Offset f) < 256 ^ n"
proof -
  have "off_width f = 0 \<and> getOffsetLength f = 0 \<and> sf_Offset f = 0 \<or>
    (off_width f \<in> {2..8} \<and> unat (sf_Offset f) < 256 ^ off_width f)"
    using unat_lt64 [of "sf_Offset f"]
    by (auto simp: off_width_def getOffsetLength_def unat_simps unat_push_bit_1)
  then show thesis using that getOffsetLength_eq by (metis atLeastAtMost_iff)
qed

lemma off_width_bounds: "off_width f \<le> 8" "unat (sf_Offset f) < 256 ^ off_width f"
  by (cases f rule: off_width_cases; simp)+

lemma nat_2_8_cases: "2 \<le> n \<Longrightarrow> n \<le> 8 \<Longrightarrow> n = 2 \<or> n = 3 \<or> n = 4 \<or> n = 5 \<or> n = 6 \<or> n = 7 \<or> n = (8 :: nat)"
  by arith

lemma writeOffset_width:
  "writeOffset v (getOffsetLength f) (sf_Offset f) =
     Inr (version_bytes v (off_width f) (unat (sf_Offset f)))"
proof (cases f rule: off_width_cases)
  case 1
  have "version_bytes v 0 0 = []" using vo.length_enc [of v 0 0] by simp
  with 1 show ?thesis by (simp add: writeOffset_def)
next
  case (2 n)
  from nat_2_8_cases [OF 2(1,2)] show ?thesis using 2
    by (elim disjE)
      (simp_all add: writeOffset_def vo.write16 vo.write24 vo.write32 vo.write40 vo.write48
         vo.write56 vo.write64 unat_ucast_shrink)
qed

text \<open>What the type byte says about the fields.\<close>

lemma sf_typeByte_eq:
  "sf_typeByte f = 0x80 XOR (if sf_UnreliableMarker f then 1 else 0) XOR (if sf_FinBit f then 0x40 else 0)
     XOR (if sf_DataLenPresent f then 0x20 else 0)
     XOR (if off_width f \<noteq> 0 then push_bit 2 (of_nat (off_width f) - 1) else 0)
     XOR (of_nat (sid_width f) - 1)"
proof -
  have "(0 < getOffsetLength f) = (off_width f \<noteq> 0)" by (simp add: off_width_def unat_gt_0 word_gt_0)
  moreover have "(ucast (getOffsetLength f) :: uint8) = of_nat (off_width f)" by (simp add: off_width_def)
  ultimately show ?thesis
    by (simp only: sf_typeByte_def Let_def calculateStreamIDLength_eq if_xor xor.assoc)
qed

lemma off_code:
  assumes "n \<in> {0, 2, 3, 4, 5, 6, 7, 8}"
  defines "x \<equiv> (if n \<noteq> 0 then push_bit 2 (of_nat n - 1) else 0) :: uint8"
  shows "x AND 0x40 = 0" "x AND 0x20 = 0" "x AND 0x3 = 0" "x AND 0xFE = x"
    "drop_bit 2 (x AND 0x1c) = (if n \<noteq> 0 then of_nat n - 1 else 0)"
  using assms by (elim insertE; simp add: x_def)+

lemma sid_code:
  assumes "n \<in> {1, 2, 3, 4}"
  defines "x \<equiv> (of_nat n - 1) :: uint8"
  shows "x AND 0x40 = 0" "x AND 0x20 = 0" "x AND 0x1c = 0"
    "(x AND 0xFE) AND 0x3 = (if n \<in> {1, 2} then 0 else 2)"
  using assms by (elim insertE; simp add: x_def)+

lemma sf_typeByte_masks:
  defines "tb f \<equiv> sf_typeByte f AND 0xFE"
  shows "tb f AND 0x40 = (if sf_FinBit f then 0x40 else 0)"
    and "tb f AND 0x20 = (if sf_DataLenPresent f then 0x20 else 0)"
    and "drop_bit 2 (tb f AND 0x1c) = (if off_width f \<noteq> 0 then of_nat (off_width f) - 1 else 0)"
    and "tb f AND 0x3 = (if sid_width f \<in> {1, 2} then 0 else 2)"
proof -
  have o: "off_width f \<in> {0, 2, 3, 4, 5, 6, 7, 8}"
    by (cases f rule: off_width_cases) (auto dest: nat_2_8_cases)
  have s: "sid_width f \<in> {1, 2, 3, 4}"
    using sid_width_bounds [of f] by auto
  have m: "0xFE AND 0x40 = (0x40 :: uint8)" "0xFE AND 0x20 = (0x20 :: uint8)"
    "0xFE AND 0x1c = (0x1c :: uint8)" "0xFE AND 0x3 = (0x2 :: uint8)" by simp_all
  show "tb f AND 0x40 = (if sf_FinBit f then 0x40 else 0)"
    unfolding tb_def sf_typeByte_eq and.assoc m bit.conj_xor_distrib2 off_code [OF o] sid_code [OF s]
    by simp
  show "tb f AND 0x20 = (if sf_DataLenPresent f then 0x20 else 0)"
    unfolding tb_def sf_typeByte_eq and.assoc m bit.conj_xor_distrib2 off_code [OF o] sid_code [OF s]
    by simp
  show "drop_bit 2 (tb f AND 0x1c) = (if off_width f \<noteq> 0 then of_nat (off_width f) - 1 else 0)"
    unfolding tb_def sf_typeByte_eq and.assoc m bit.conj_xor_distrib2 sid_code [OF s]
    using off_code(5) [OF o] by simp
  show "tb f AND 0x3 = (if sid_width f \<in> {1, 2} then 0 else 2)"
    unfolding tb_def sf_typeByte_eq bit.conj_xor_distrib2 sid_code [OF s] off_code(3,4) [OF o]
    by simp
qed

lemma sf_offsetLen:
  "(if (if off_width f \<noteq> 0 then of_nat (off_width f) - 1 else 0 :: uint8) \<noteq> 0
    then (if off_width f \<noteq> 0 then of_nat (off_width f) - 1 else 0) + 1
    else (if off_width f \<noteq> 0 then of_nat (off_width f) - 1 else 0)) = (of_nat (off_width f) :: uint8)"
proof (cases f rule: off_width_cases)
  case (2 k)
  then have "(of_nat k - 1 :: uint8) \<noteq> 0" by (auto dest: nat_2_8_cases)
  with 2 show ?thesis by simp
qed simp

lemma ParseStreamFrame_typeByte:
  "ParseStreamFrame v (sf_typeByte f # r) =
     parseStreamBody v (sf_FinBit f) (sf_DataLenPresent f) (of_nat (off_width f))
       (if sid_width f \<in> {1, 2} then 1 else 3) r"
proof -
  have "((if c then 0x40 else 0 :: uint8) > 0) = c" "((if c then 0x20 else 0 :: uint8) > 0) = c"
    "(if c then 0 else 2 :: uint8) + 1 = (if c then 1 else 3)" for c by simp_all
  then show ?thesis
    unfolding ParseStreamFrame_def ReadByte.simps bindE.simps prod.case Let_def sf_typeByte_masks
      sf_offsetLen by simp
qed

lemma read_sid:
  "ReadUintN (GetByteOrder v) (of_nat (sid_width f))
     (version_bytes v (sid_width f) (unat (sf_StreamID f)) @ r) = Inr (ucast (sf_StreamID f), r)"
  using vo.readN_enc [of "sid_width f" v "unat (sf_StreamID f)" r] sid_width_bounds [of f] by simp

lemma read_offset:
  "ReadUintN (GetByteOrder v) (of_nat (off_width f))
     (version_bytes v (off_width f) (unat (sf_Offset f)) @ r) = Inr (sf_Offset f, r)"
  using vo.readN_enc [of "off_width f" v "unat (sf_Offset f)" r] off_width_bounds [of f] by simp

lemma sf_Write_eq:
  assumes "sf_Data f \<noteq> [] \<or> sf_FinBit f"
  shows "sf_Write v f = Inr (sf_typeByte f # version_bytes v (sid_width f) (unat (sf_StreamID f))
           @ version_bytes v (off_width f) (unat (sf_Offset f))
           @ (if sf_DataLenPresent f
              then WriteUint16 (GetByteOrder v) (of_nat (length (sf_Data f))) else [])
           @ sf_Data f)"
  using assms by (auto simp: sf_Write_def writeStreamID_width writeOffset_width)

text \<open>Everything after the type byte is read back, given the right lengths.\<close>

lemma parseStreamBody_write:
  assumes "sf_Data f \<noteq> [] \<or> sf_FinBit f"
    and "unat (sf_Offset f) + length (sf_Data f) < 2 ^ 64"
    and "if sf_DataLenPresent f then length (sf_Data f) \<le> 1350
         else length (sf_Data f) < 2 ^ 16 \<and> r = []"
  shows "parseStreamBody v (sf_FinBit f) (sf_DataLenPresent f) (of_nat (off_width f)) (of_nat (sid_width f))
       (version_bytes v (sid_width f) (unat (sf_StreamID f))
        @ version_bytes v (off_width f) (unat (sf_Offset f))
        @ (if sf_DataLenPresent f then WriteUint16 (GetByteOrder v) (of_nat (length (sf_Data f))) else [])
        @ sf_Data f @ r) = Inr (f\<lparr>sf_UnreliableMarker := False\<rparr>, r)"
proof -
  define len where "len = length (sf_Data f)"
  have len16: "len < 65536" using assms(3) by (auto simp: len_def split: if_splits)
  have ovf: "\<not> sf_Offset f + of_nat len < sf_Offset f"
    using assms(2) by (simp add: unat_simps unat_add_no_wrap unat_of_nat64 len_def)
  have empty: "sf_FinBit f \<or> (of_nat len :: uint64) \<noteq> 0"
    using assms(1) len16 by (auto simp: len_def word_unat_eq_iff unat_of_nat64)
  have zero: "(of_nat len :: uint16) = 0 \<longleftrightarrow> len = 0"
    using len16 by (simp add: word_unat_eq_iff unat_of_nat16)
  have present: "\<not> (1350 :: uint16) < of_nat len" if "sf_DataLenPresent f"
    using assms(3) that by (simp add: unat_simps unat_of_nat16 len_def)
  show ?thesis
    unfolding parseStreamBody_def read_sid read_offset bindE.simps prod.case
    using present zero ovf empty unat_of_nat16 [OF len16] assms(3)
    by (cases "len = 0")
      (auto simp: Let_def sf_DataLen_def MaxPacketSize_def len_def intro!: StreamFrame.equality)
qed

lemma sf_round_trip:
  assumes "sf_Data f \<noteq> [] \<or> sf_FinBit f"
    and "unat (sf_StreamID f) < 2 ^ 8 \<or> 2 ^ 16 \<le> unat (sf_StreamID f) \<and> unat (sf_StreamID f) < 2 ^ 24"
    and "unat (sf_Offset f) + length (sf_Data f) < 2 ^ 64"
    and "if sf_DataLenPresent f then length (sf_Data f) \<le> 1350
         else length (sf_Data f) < 2 ^ 16 \<and> r = []"
  shows "\<exists>bs. sf_Write v f = Inr bs \<and>
    ParseStreamFrame v (bs @ r) = Inr (f\<lparr>sf_UnreliableMarker := False\<rparr>, r)"
proof -
  have "(if sid_width f \<in> {1, 2} then 1 else 3 :: uint8) = of_nat (sid_width f)"
    using assms(2) by (cases f rule: sid_width_cases) auto
  then show ?thesis
    unfolding sf_Write_eq [OF assms(1)] using parseStreamBody_write [OF assms(1,3,4), of v]
    by - (intro exI conjI, rule refl, simp only: append_Cons append_assoc ParseStreamFrame_typeByte)
qed

lemma length_sf_Write:
  assumes "sf_Write v f = Inr bs" and "length (sf_Data f) < 2 ^ 63"
  shows "length bs = unat (sf_MinLength f + sf_DataLen f)"
proof -
  have "sf_Data f \<noteq> [] \<or> sf_FinBit f" using assms(1) by (auto simp: sf_Write_def split: if_splits)
  then have l: "length bs = 1 + sid_width f + off_width f + (if sf_DataLenPresent f then 2 else 0)
      + length (sf_Data f)"
    using assms(1) by (auto simp: sf_Write_eq vo.length_enc)
  have "sf_MinLength f + sf_DataLen f =
      of_nat (1 + sid_width f + off_width f + (if sf_DataLenPresent f then 2 else 0) + length (sf_Data f))"
    by (simp add: sf_MinLength_def sf_DataLen_def Let_def getOffsetLength_eq sid_width_def)
  with l show ?thesis
    using sid_width_bounds [of f] off_width_bounds [of f] assms(2) by (simp only:) (subst unat_of_nat64, auto)
qed



text \<open>
  (C31) For all other stream IDs the round trip fails: the lowest bit of the type byte, which
  the marker shares with the length of the stream ID, is cleared by the parser, so it reads a
  stream ID that is one byte too short and never the one that was written.
\<close>

theorem ParseStreamFrame_Write_other_sid:
  assumes "2 ^ 8 \<le> unat (sf_StreamID f) \<and> unat (sf_StreamID f) < 2 ^ 16 \<or> 2 ^ 24 \<le> unat (sf_StreamID f)"
    and "sf_Write v f = Inr bs" and "ParseStreamFrame v (bs @ r) = Inr (g, r')"
  shows "sf_StreamID g \<noteq> sf_StreamID f"
proof -
  define n where "n = sid_width f - 1"
  have w: "(if sid_width f \<in> {1, 2} then 1 else 3 :: uint8) = of_nat n" "n < 8"
      and small: "256 ^ n \<le> unat (sf_StreamID f)"
    using assms(1) unfolding n_def by (cases f rule: sid_width_cases; auto)+
  have "sf_Data f \<noteq> [] \<or> sf_FinBit f" using assms(2) by (auto simp: sf_Write_def split: if_splits)
  then obtain bs' where "bs = sf_typeByte f # bs'" using assms(2) by (auto simp: sf_Write_eq)
  then have "parseStreamBody v (sf_FinBit f) (sf_DataLenPresent f) (of_nat (off_width f)) (of_nat n)
      (bs' @ r) = Inr (g, r')"
    using assms(3) w by (simp add: ParseStreamFrame_typeByte)
  then obtain sid r1 where "ReadUintN (GetByteOrder v) (of_nat n) (bs' @ r) = Inr (sid, r1)"
      and g: "sf_StreamID g = ucast sid"
    by (auto simp: parseStreamBody_def bindE_eq_Inr_iff Let_def split: if_splits)
  then have "unat sid < 256 ^ n" using vo.readN_bound w(2) by blast
  moreover have "unat (sf_StreamID g) \<le> unat sid" unfolding g unat_ucast_shrink by simp
  ultimately show ?thesis using small by auto
qed

theorem ParseStreamFrame_Write_other_sid_witness:
  "sf_StreamID \<lparr>sf_StreamID = 1, sf_UnreliableMarker = False, sf_FinBit = False,
     sf_DataLenPresent = False, sf_Offset = 0, sf_Data = [44, 7]\<rparr> \<noteq> (300 :: uint32)"
proof -
  define f g :: StreamFrame where
    "f = \<lparr>sf_StreamID = 300, sf_UnreliableMarker = False, sf_FinBit = False,
          sf_DataLenPresent = False, sf_Offset = 0, sf_Data = [7]\<rparr>"
    and "g = \<lparr>sf_StreamID = 1, sf_UnreliableMarker = False, sf_FinBit = False,
          sf_DataLenPresent = False, sf_Offset = 0, sf_Data = [44, 7]\<rparr>"
  have "sf_Write 512 f = Inr [0x81, 1, 44, 7]" unfolding f_def by code_simp
  moreover have "ParseStreamFrame 512 ([0x81, 1, 44, 7] @ []) = Inr (g, [])"
    unfolding g_def by code_simp
  ultimately have "sf_StreamID g \<noteq> sf_StreamID f"
    by (intro ParseStreamFrame_Write_other_sid [of f 512 "[0x81, 1, 44, 7]" "[]" g "[]"])
      (simp_all add: f_def)
  then show ?thesis unfolding f_def g_def by simp
qed

end
