(* ===== verification/Datagram_Frame.thy ===== *)
theory Datagram_Frame
imports Stream_Frame
begin

text \<open>
  The DATAGRAM frame of \<^verbatim>\<open>internal/wire/datagram_frame.go\<close>. Its fields and its encoding are those
  of a STREAM frame without the unreliable marker, so the body is shared with
  \<^verbatim>\<open>stream_frame.go\<close>; the type byte is read without clearing its lowest bit. No other part of the code uses
  the frame.
\<close>

record DatagramFrame =
  df_StreamID :: StreamID
  df_FinBit :: bool
  df_DataLenPresent :: bool
  df_Offset :: ByteCount
  df_Data :: bytes

definition df_stream :: "DatagramFrame \<Rightarrow> StreamFrame" where
  "df_stream f = \<lparr>sf_StreamID = df_StreamID f, sf_UnreliableMarker = False, sf_FinBit = df_FinBit f,
     sf_DataLenPresent = df_DataLenPresent f, sf_Offset = df_Offset f, sf_Data = df_Data f\<rparr>"

definition of_stream :: "StreamFrame \<Rightarrow> DatagramFrame" where
  "of_stream f = \<lparr>df_StreamID = sf_StreamID f, df_FinBit = sf_FinBit f,
     df_DataLenPresent = sf_DataLenPresent f, df_Offset = sf_Offset f, df_Data = sf_Data f\<rparr>"

definition df_calculateStreamIDLength :: "DatagramFrame \<Rightarrow> uint8" where
  "df_calculateStreamIDLength f = calculateStreamIDLength (df_stream f)"

definition df_getOffsetLength :: "DatagramFrame \<Rightarrow> ByteCount" where
  "df_getOffsetLength f = getOffsetLength (df_stream f)"

definition df_DataLen :: "DatagramFrame \<Rightarrow> ByteCount" where
  "df_DataLen f = of_nat (length (df_Data f))"

definition df_MinLength :: "DatagramFrame \<Rightarrow> ByteCount" where
  "df_MinLength f =
     (let len = 1 + ucast (df_calculateStreamIDLength f) + df_getOffsetLength f
      in if df_DataLenPresent f then len + 2 else len)"

definition ParseDatagramFrame :: "VersionNumber \<Rightarrow> DatagramFrame reader" where
  "ParseDatagramFrame version r =
     bindE (ReadByte r) (\<lambda>(typeByte, r).
     let fin = (typeByte AND 0x40 > 0);
         dataLenPresent = (typeByte AND 0x20 > 0);
         offsetLen = drop_bit 2 (typeByte AND 0x1c);
         offsetLen = (if offsetLen \<noteq> 0 then offsetLen + 1 else offsetLen);
         streamIDLen = (typeByte AND 0x3) + 1
     in bindE (parseStreamBody version fin dataLenPresent offsetLen streamIDLen r) (\<lambda>(f, r).
        Inr (of_stream f, r)))"

definition df_Write :: "VersionNumber \<Rightarrow> DatagramFrame \<Rightarrow> bytes result" where
  "df_Write version f =
     (if length (df_Data f) = 0 \<and> \<not> df_FinBit f
      then Inl (GoErr ''StreamFrame: attempting to write empty frame without FIN'')
      else bindE (writeStreamID version (df_calculateStreamIDLength f) (df_StreamID f)) (\<lambda>sid.
           bindE (writeOffset version (df_getOffsetLength f) (df_Offset f)) (\<lambda>off.
           Inr ([sf_typeByte (df_stream f)] @ sid @ off
                @ (if df_DataLenPresent f
                   then WriteUint16 (GetByteOrder version) (of_nat (length (df_Data f))) else [])
                @ df_Data f))))"

lemma df_stream_sel [simp]:
  "sf_StreamID (df_stream f) = df_StreamID f" "sf_UnreliableMarker (df_stream f) = False"
  "sf_FinBit (df_stream f) = df_FinBit f" "sf_DataLenPresent (df_stream f) = df_DataLenPresent f"
  "sf_Offset (df_stream f) = df_Offset f" "sf_Data (df_stream f) = df_Data f"
  "of_stream (df_stream f) = f" "(df_stream f)\<lparr>sf_UnreliableMarker := False\<rparr> = df_stream f"
  by (simp_all add: df_stream_def of_stream_def)

lemma df_Write_stream: "df_Write v f = sf_Write v (df_stream f)"
  by (simp add: df_Write_def sf_Write_def df_calculateStreamIDLength_def df_getOffsetLength_def)

lemma df_typeByte_masks:
  assumes "\<not> sf_UnreliableMarker f"
  shows "sf_typeByte f AND 0x40 = (if sf_FinBit f then 0x40 else 0)"
    and "sf_typeByte f AND 0x20 = (if sf_DataLenPresent f then 0x20 else 0)"
    and "drop_bit 2 (sf_typeByte f AND 0x1c) = (if off_width f \<noteq> 0 then of_nat (off_width f) - 1 else 0)"
    and "sf_typeByte f AND 0x3 = of_nat (sid_width f) - 1"
proof -
  have o: "off_width f \<in> {0, 2, 3, 4, 5, 6, 7, 8}"
    by (cases f rule: off_width_cases) (auto dest: nat_2_8_cases)
  have s: "sid_width f \<in> {1, 2, 3, 4}"
    using sid_width_bounds [of f] by auto
  have s3: "(of_nat (sid_width f) - 1 :: uint8) AND 0x3 = of_nat (sid_width f) - 1"
    using s by (elim insertE) simp_all
  show "sf_typeByte f AND 0x40 = (if sf_FinBit f then 0x40 else 0)"
    "sf_typeByte f AND 0x20 = (if sf_DataLenPresent f then 0x20 else 0)"
    "sf_typeByte f AND 0x3 = of_nat (sid_width f) - 1"
    unfolding sf_typeByte_eq bit.conj_xor_distrib2 off_code [OF o] sid_code [OF s] s3
    using assms by simp_all
  show "drop_bit 2 (sf_typeByte f AND 0x1c) = (if off_width f \<noteq> 0 then of_nat (off_width f) - 1 else 0)"
    unfolding sf_typeByte_eq bit.conj_xor_distrib2 sid_code [OF s]
    using off_code(5) [OF o] assms by simp
qed

text \<open>
  Unlike a STREAM frame, a DATAGRAM frame comes back for every stream ID.
\<close>

lemma ParseDatagramFrame_Write:
  assumes "df_Data f \<noteq> [] \<or> df_FinBit f"
    and "unat (df_Offset f) + length (df_Data f) < 2 ^ 64"
    and "if df_DataLenPresent f then length (df_Data f) \<le> 1350
         else length (df_Data f) < 2 ^ 16 \<and> r = []"
  shows "\<exists>bs. df_Write v f = Inr bs \<and> length bs = unat (df_MinLength f + df_DataLen f) \<and>
    ParseDatagramFrame v (bs @ r) = Inr (f, r)"
proof -
  let ?g = "df_stream f"
  have flags: "((if c then 0x40 else 0 :: uint8) > 0) = c" "((if c then 0x20 else 0 :: uint8) > 0) = c" for c
    by simp_all
  have masks: "sf_typeByte ?g AND 0x40 = (if df_FinBit f then 0x40 else 0)"
    "sf_typeByte ?g AND 0x20 = (if df_DataLenPresent f then 0x20 else 0)"
    "drop_bit 2 (sf_typeByte ?g AND 0x1c) = (if off_width ?g \<noteq> 0 then of_nat (off_width ?g) - 1 else 0)"
    "sf_typeByte ?g AND 0x3 = of_nat (sid_width ?g) - 1"
    using df_typeByte_masks [of ?g] by simp_all
  have tb: "ParseDatagramFrame v (sf_typeByte ?g # b) =
      bindE (parseStreamBody v (df_FinBit f) (df_DataLenPresent f) (of_nat (off_width ?g))
        (of_nat (sid_width ?g)) b) (\<lambda>(f, r). Inr (of_stream f, r))" for b
    unfolding ParseDatagramFrame_def ReadByte.simps bindE.simps prod.case Let_def masks flags sf_offsetLen
    by simp
  obtain bs where bs: "sf_Write v ?g = Inr bs" using sf_Write_eq [of ?g v] assms(1) by simp
  have "length bs = unat (df_MinLength f + df_DataLen f)"
    using length_sf_Write [OF bs] assms(3)
    by (simp add: df_MinLength_def sf_MinLength_def sf_DataLen_def df_DataLen_def
        df_calculateStreamIDLength_def df_getOffsetLength_def split: if_splits)
  moreover have "ParseDatagramFrame v (bs @ r) = Inr (f, r)"
  proof -
    note body = parseStreamBody_write [of ?g r v, unfolded df_stream_sel, OF assms]
    show ?thesis using bs assms(1) body
      by (simp only: sf_Write_eq df_stream_sel sum.inject(2)) (auto simp: tb simp del: df_stream_sel(1-6))
  qed
  ultimately show ?thesis using bs by (simp add: df_Write_stream)
qed

end
