(* ===== verification/Wire_Frame.thy ===== *)
theory Wire_Frame
imports Byte_Order
begin

text \<open>
  The interface \<^verbatim>\<open>Frame\<close> of \<^verbatim>\<open>internal/wire/frame.go\<close> together with the parser that belongs to each
  kind of frame. A kind of frame promises that a writable frame is read back (up to the
  normalisation \<open>norm\<close>, for fields that do not travel) from the front of any input, that it
  takes exactly \<open>MinLength\<close> bytes, and that its parser never panics.
\<close>

locale wire_frame =
  fixes Wr :: "VersionNumber \<Rightarrow> 'f \<Rightarrow> bytes result"
    and Parse :: "VersionNumber \<Rightarrow> 'f reader"
    and MinLen :: "'f \<Rightarrow> ByteCount result"
    and writable :: "'f \<Rightarrow> bool"
    and norm :: "'f \<Rightarrow> 'f"
  assumes round_trip: "writable f \<Longrightarrow> \<exists>bs. Wr v f = Inr bs \<and> Parse v (bs @ r) = Inr (norm f, r)"
    and wire_length: "writable f \<Longrightarrow> Wr v f = Inr bs \<Longrightarrow>
      \<exists>n. MinLen f = Inr n \<and> length bs = unat n"
    and parse_no_panic: "no_panic (Parse v r)"
begin

text \<open>Two frames with the same bytes carry the same information.\<close>

lemma write_inj:
  assumes "writable f" "writable g" "Wr v f = Inr bs" "Wr v g = Inr bs"
  shows "norm f = norm g"
proof -
  obtain cs where "Wr v f = Inr cs" "Parse v (cs @ []) = Inr (norm f, [])"
    using round_trip [OF assms(1), of v "[]"] by blast
  moreover obtain ds where "Wr v g = Inr ds" "Parse v (ds @ []) = Inr (norm g, [])"
    using round_trip [OF assms(2), of v "[]"] by blast
  ultimately show ?thesis using assms(3,4) by simp
qed

text \<open>No written frame is a proper prefix of another one.\<close>

lemma write_prefix_free:
  assumes "writable f" "writable g" "Wr v f = Inr bs" "Wr v g = Inr (bs @ cs)"
  shows "cs = []"
proof -
  have "Parse v ((bs @ cs) @ []) = Inr (norm f, cs)" using round_trip [OF assms(1), of v cs] assms(3) by auto
  moreover have "Parse v ((bs @ cs) @ []) = Inr (norm g, [])"
    using round_trip [OF assms(2), of v "[]"] assms(4) by auto
  ultimately show ?thesis by simp
qed

end

end
