(* ===== verification/Ack_Ranges.thy ===== *)
theory Ack_Ranges
imports Byte_Order
begin

text \<open>
  The ACK ranges that ACK frames and CLOSE_PATH frames share (\<^verbatim>\<open>ack_range.go\<close>, and the range
  handling of \<^verbatim>\<open>ack_frame.go\<close>, which \<^verbatim>\<open>close_path_frame.go\<close> repeats word for word): the
  validity check, the number of blocks a frame can hold, the block encoding with its splitting
  of long gaps, the decoding loop of the parsers, and the membership test. The functions take
  \<^verbatim>\<open>LargestAcked\<close>, \<^verbatim>\<open>LowestAcked\<close> and \<^verbatim>\<open>AckRanges\<close> of the frame; the writers differ
  only in how they write a length, which is the argument \<open>writeLen\<close>.
\<close>

section \<open>Definitions\<close>

record AckRange =
  First :: PacketNumber
  Last :: PacketNumber

definition ErrInvalidAckRanges :: error where
  "ErrInvalidAckRanges = GoErr ''AckFrame: ACK frame contains invalid ACK ranges''"

definition ErrInvalidFirstAckRange :: error where
  "ErrInvalidFirstAckRange = GoErr ''AckFrame: ACK frame has invalid first ACK range''"

definition errInconsistentAckLargestAcked :: error where
  "errInconsistentAckLargestAcked =
     GoErr ''internal inconsistency: LargestAcked does not match ACK ranges''"

definition errInconsistentAckLowestAcked :: error where
  "errInconsistentAckLowestAcked =
     GoErr ''internal inconsistency: LowestAcked does not match ACK ranges''"

text \<open>\<^verbatim>\<open>validateAckRanges\<close>, with its second loop over neighbouring ranges.\<close>

fun ranges_descend :: "AckRange list \<Rightarrow> bool" where
  "ranges_descend (lastAckRange # ackRange # rs) =
     (if First lastAckRange \<le> First ackRange then False
      else if First lastAckRange \<le> Last ackRange + 1 then False
      else ranges_descend (ackRange # rs))"
| "ranges_descend _ = True"

definition validateAckRanges :: "PacketNumber \<Rightarrow> AckRange list \<Rightarrow> bool" where
  "validateAckRanges largestAcked ackRanges =
     (if length ackRanges = 0 then True
      else if length ackRanges = 1 then False
      else if Last (ackRanges ! 0) \<noteq> largestAcked then False
      else if list_ex (\<lambda>ackRange. First ackRange > Last ackRange) ackRanges then False
      else ranges_descend ackRanges)"

text \<open>\<^verbatim>\<open>numWritableNackRanges\<close>: the blocks of each gap, until 255 are reached.\<close>

definition gapBlocks :: "uint64 \<Rightarrow> uint64" where
  "gapBlocks gap = (let num = gap div 0xFF + 1 in if gap mod 0xFF = 0 then num - 1 else num)"

fun numNackLoop :: "AckRange \<Rightarrow> AckRange list \<Rightarrow> uint64 \<Rightarrow> uint64" where
  "numNackLoop lastAckRange [] numRanges = numRanges"
| "numNackLoop lastAckRange (ackRange # rs) numRanges =
     (let gap = First lastAckRange - Last ackRange - 1;
          rangeLength = gapBlocks gap
      in if numRanges + rangeLength < 0xFF then numNackLoop ackRange rs (numRanges + rangeLength)
         else numRanges)"

fun numWritableNackRanges :: "AckRange list \<Rightarrow> uint64" where
  "numWritableNackRanges [] = 0"
| "numWritableNackRanges (a # rs) = numNackLoop a rs 0 + 1"

definition rangeLen :: "AckRange \<Rightarrow> PacketNumber" where
  "rangeLen ackRange = Last ackRange - First ackRange + 1"

definition getMissingSequenceNumberDeltaLen ::
    "PacketNumber \<Rightarrow> PacketNumber \<Rightarrow> AckRange list \<Rightarrow> PacketNumberLen" where
  "getMissingSequenceNumberDeltaLen largestAcked lowestAcked ackRanges =
     (let maxRangeLength =
            (if length ackRanges > 0
             then fold (\<lambda>ackRange m. if rangeLen ackRange > m then rangeLen ackRange else m) ackRanges 0
             else largestAcked - lowestAcked + 1)
      in if maxRangeLength \<le> 0xFF then PacketNumberLen1
         else if maxRangeLength \<le> 0xFFFF then PacketNumberLen2
         else if maxRangeLength \<le> 0xFFFFFFFF then PacketNumberLen4
         else PacketNumberLen6)"

definition acksPacket :: "PacketNumber \<Rightarrow> PacketNumber \<Rightarrow> AckRange list \<Rightarrow> PacketNumber \<Rightarrow> bool" where
  "acksPacket largestAcked lowestAcked ackRanges p =
     (if p < lowestAcked \<or> p > largestAcked then False
      else if length ackRanges > 0
      then list_ex (\<lambda>ackRange. p \<ge> First ackRange \<and> p \<le> Last ackRange) ackRanges
      else p \<ge> lowestAcked \<and> p \<le> largestAcked)"

text \<open>
  Decoding. \<open>ackBlockStep\<close> is the body of the parsers' loop on the ranges read so far, the flag
  \<^verbatim>\<open>inLongBlock\<close> and the flag \<^verbatim>\<open>lastRangeComplete\<close>; \<open>parseAckBlocks\<close> is the loop over the
  remaining blocks; \<open>parseAckRanges\<close> goes from the first block length to the validity check.
  Reading the last element of an empty slice would panic.
\<close>

type_synonym block_state = "AckRange list \<times> bool \<times> bool"

fun ackBlockStep :: "uint8 \<Rightarrow> PacketNumber \<Rightarrow> block_state \<Rightarrow> block_state" where
  "ackBlockStep gap len (rs, inLongBlock, lastRangeComplete) =
     (let (rs, complete) =
            (if inLongBlock
             then (butlast rs @ [\<lparr>First = First (last rs) - (ucast gap + len),
                                  Last = Last (last rs) - ucast gap\<rparr>], lastRangeComplete)
             else let l = First (last rs) - ucast gap - 1
                  in (rs @ [\<lparr>First = l - len + 1, Last = l\<rparr>], False))
      in (rs, len = 0, if len > 0 then True else complete))"

fun parseAckBlocks ::
    "VersionNumber \<Rightarrow> uint8 \<Rightarrow> nat \<Rightarrow> block_state \<Rightarrow> block_state reader" where
  "parseAckBlocks version deltaLen 0 st r = Inr (st, r)"
| "parseAckBlocks version deltaLen (Suc n) st r =
     bindE (ReadByte r) (\<lambda>(gap, r).
     bindE (ReadUintN (GetByteOrder version) deltaLen r) (\<lambda>(ackBlockLength, r).
     if fst st = [] then Inl (Panic ''index out of range'')
     else parseAckBlocks version deltaLen n (ackBlockStep gap ackBlockLength st) r))"

definition parseAckRanges ::
    "VersionNumber \<Rightarrow> uint8 \<Rightarrow> bool \<Rightarrow> uint8 \<Rightarrow> PacketNumber \<Rightarrow> uint64
       \<Rightarrow> (PacketNumber \<times> AckRange list) reader" where
  "parseAckRanges version deltaLen hasMissingRanges numAckBlocks largestAcked ackBlockLength r =
     (if largestAcked > 0 \<and> ackBlockLength < 1 then Inl ErrInvalidFirstAckRange
      else if ackBlockLength > largestAcked then Inl ErrInvalidAckRanges
      else bindE
        (if hasMissingRanges
         then let ackRange = \<lparr>First = largestAcked - ackBlockLength + 1, Last = largestAcked\<rparr>
              in bindE (parseAckBlocks version deltaLen (unat numAckBlocks) ([ackRange], False, False) r)
                   (\<lambda>((rs, _, lastRangeComplete), r).
                    let rs = (if \<not> lastRangeComplete then butlast rs else rs)
                    in if rs = [] then Inl (Panic ''index out of range'')
                       else Inr ((First (last rs), rs), r))
         else if largestAcked = 0 then Inr ((0, []), r)
         else Inr ((largestAcked + 1 - ackBlockLength, []), r))
        (\<lambda>((lowestAcked, rs), r).
         if \<not> validateAckRanges largestAcked rs then Inl ErrInvalidAckRanges
         else Inr ((lowestAcked, rs), r)))"

text \<open>
  Encoding. \<open>writePacketNumberLen\<close> is the switch over the length of a packet number field,
  \<open>writeGapLoop\<close> the inner loop that splits a long gap (with \<open>Suc n\<close> blocks left),
  \<open>writeAckRange\<close> one range and \<open>writeAckRangesLoop\<close> the outer loop with its early exit.
\<close>

definition writePacketNumberLen :: "(uint64 \<Rightarrow> uint64) \<Rightarrow> VersionNumber \<Rightarrow> PacketNumberLen \<Rightarrow> uint64 \<Rightarrow> bytes result" where
  "writePacketNumberLen mask48 version len x =
     (if len = PacketNumberLen1 then Inr [ucast x]
      else if len = PacketNumberLen2 then Inr (WriteUint16 (GetByteOrder version) (ucast x))
      else if len = PacketNumberLen4 then Inr (WriteUint32 (GetByteOrder version) (ucast x))
      else if len = PacketNumberLen6 then WriteUint48 (GetByteOrder version) (mask48 x)
      else Inr [])"

fun writeGapLoop :: "(uint64 \<Rightarrow> bytes result) \<Rightarrow> uint64 \<Rightarrow> uint64 \<Rightarrow> nat \<Rightarrow> bytes result" where
  "writeGapLoop writeLen gap len 0 = Inr []"
| "writeGapLoop writeLen gap len (Suc n) =
     (let (lengthWritten, gapWritten) =
            (if n = 0 then (len, ucast (1 + (gap - 1) mod 255)) else (0, 0xFF :: uint8))
      in bindE (writeLen lengthWritten) (\<lambda>l.
         bindE (writeGapLoop writeLen gap len n) (\<lambda>bs.
         Inr (gapWritten # l @ bs))))"

definition writeAckRange ::
    "(uint64 \<Rightarrow> bytes result) \<Rightarrow> AckRange \<Rightarrow> AckRange \<Rightarrow> (bytes \<times> uint64) result" where
  "writeAckRange writeLen prev ackRange =
     (let len = rangeLen ackRange;
          gap = First prev - Last ackRange - 1;
          num = gapBlocks gap
      in if num = 1
         then bindE (writeLen len) (\<lambda>l. Inr (ucast gap # l, 1))
         else bindE (writeGapLoop writeLen gap len (unat num)) (\<lambda>bs. Inr (bs, num)))"

fun writeAckRangesLoop ::
    "(uint64 \<Rightarrow> bytes result) \<Rightarrow> AckRange \<Rightarrow> AckRange list \<Rightarrow> uint64 \<Rightarrow> uint64
       \<Rightarrow> (bytes \<times> uint64) result" where
  "writeAckRangesLoop writeLen prev [] numRanges numRangesWritten = Inr ([], numRangesWritten)"
| "writeAckRangesLoop writeLen prev (ackRange # rs) numRanges numRangesWritten =
     bindE (writeAckRange writeLen prev ackRange) (\<lambda>(bs, n).
     let numRangesWritten = numRangesWritten + n
     in if numRangesWritten \<ge> numRanges then Inr (bs, numRangesWritten)
        else bindE (writeAckRangesLoop writeLen ackRange rs numRanges numRangesWritten)
               (\<lambda>(bs', n'). Inr (bs @ bs', n')))"

text \<open>
  The part of the writers that both frames have in common: the first block length with the
  consistency checks, the blocks, and the final comparison of the counts.
\<close>

definition writeAckBlocks ::
    "(uint64 \<Rightarrow> bytes result) \<Rightarrow> string \<Rightarrow> PacketNumber \<Rightarrow> PacketNumber \<Rightarrow> AckRange list
       \<Rightarrow> bytes result" where
  "writeAckBlocks writeLen bug largestAcked lowestAcked ackRanges =
     (case ackRanges of
        [] \<Rightarrow> writeLen (largestAcked - lowestAcked + 1)
      | a # rs \<Rightarrow>
          (if largestAcked \<noteq> Last a then Inl errInconsistentAckLargestAcked
           else if lowestAcked \<noteq> First (last ackRanges) then Inl errInconsistentAckLowestAcked
           else let numRanges = numWritableNackRanges ackRanges
                in bindE (writeLen (largestAcked - First a + 1)) (\<lambda>l.
                   bindE (writeAckRangesLoop writeLen a rs numRanges 1) (\<lambda>(bs, numRangesWritten).
                   if numRanges \<noteq> numRangesWritten then Inl (GoErr bug) else Inr (l @ bs)))))"

section \<open>Well-formed ranges\<close>

text \<open>
  Ranges in descending order, none empty, with at least one packet number missing between
  neighbours. The frame-level predicate \<open>ack_wf\<close> adds the two ends.
\<close>

fun desc_ranges :: "AckRange list \<Rightarrow> bool" where
  "desc_ranges [] = True"
| "desc_ranges [a] = (First a \<le> Last a)"
| "desc_ranges (a # b # rs) =
     (First a \<le> Last a \<and> unat (Last b) + 1 < unat (First a) \<and> desc_ranges (b # rs))"

definition ack_wf :: "PacketNumber \<Rightarrow> PacketNumber \<Rightarrow> AckRange list \<Rightarrow> bool" where
  "ack_wf largestAcked lowestAcked ackRanges \<longleftrightarrow>
     (if ackRanges = [] then lowestAcked \<le> largestAcked
      else 2 \<le> length ackRanges \<and> desc_ranges ackRanges \<and>
           Last (hd ackRanges) = largestAcked \<and> First (last ackRanges) = lowestAcked)"

text \<open>The set of packet numbers that a frame acknowledges.\<close>

definition range_set :: "AckRange list \<Rightarrow> PacketNumber set" where
  "range_set rs = (\<Union>a \<in> set rs. {First a .. Last a})"

definition acked_set :: "PacketNumber \<Rightarrow> PacketNumber \<Rightarrow> AckRange list \<Rightarrow> PacketNumber set" where
  "acked_set largestAcked lowestAcked ackRanges =
     (if ackRanges = [] then {lowestAcked .. largestAcked} else range_set ackRanges)"

lemma desc_ranges_Cons:
  "desc_ranges (a # rs) \<longleftrightarrow>
     First a \<le> Last a \<and> (rs \<noteq> [] \<longrightarrow> unat (Last (hd rs)) + 1 < unat (First a)) \<and> desc_ranges rs"
  by (cases rs) auto

lemma desc_ranges_ConsD: "desc_ranges (a # rs) \<Longrightarrow> desc_ranges rs"
  by (simp add: desc_ranges_Cons)

lemma desc_ranges_below:
  "desc_ranges (a # rs) \<Longrightarrow> b \<in> set rs \<Longrightarrow> unat (Last b) + 1 < unat (First a)"
proof (induction rs arbitrary: a)
  case (Cons c rs)
  then have c: "First c \<le> Last c" "unat (Last c) + 1 < unat (First a)" "desc_ranges (c # rs)"
    by (simp_all add: desc_ranges_Cons)
  show ?case
  proof (cases "b = c")
    case False
    then have "unat (Last b) + 1 < unat (First c)" using Cons c by simp
    with c show ?thesis by (simp add: unat_simps)
  qed (use c in simp)
qed simp

lemma desc_ranges_nonempty: "desc_ranges rs \<Longrightarrow> a \<in> set rs \<Longrightarrow> First a \<le> Last a"
  by (induction rs) (auto simp: desc_ranges_Cons)

lemma desc_ranges_take: "desc_ranges rs \<Longrightarrow> desc_ranges (take n rs)"
proof (induction rs arbitrary: n)
  case (Cons a rs)
  then show ?case by (cases n; cases rs) (auto simp: desc_ranges_Cons hd_take)
qed simp

lemma desc_ranges_hd: "desc_ranges rs \<Longrightarrow> a \<in> set rs \<Longrightarrow> Last a \<le> Last (hd rs)"
proof (cases rs)
  case (Cons b bs)
  assume "desc_ranges rs" "a \<in> set rs"
  then show ?thesis using desc_ranges_below [of b bs a] Cons
    by (cases "a = b") (auto simp: desc_ranges_Cons unat_simps)
qed simp

lemma desc_ranges_last: "desc_ranges rs \<Longrightarrow> a \<in> set rs \<Longrightarrow> First (last rs) \<le> First a"
proof (induction rs)
  case (Cons b bs)
  show ?case
  proof (cases "bs = []")
    case False
    then have "last bs \<in> set bs" by simp
    then have "unat (Last (last bs)) + 1 < unat (First b)" "First (last bs) \<le> Last (last bs)"
      using desc_ranges_below Cons.prems(1) desc_ranges_nonempty desc_ranges_ConsD by blast+
    then have "First (last bs) \<le> First b" by (simp add: unat_simps)
    then show ?thesis using Cons False desc_ranges_ConsD [OF Cons.prems(1)] by auto
  qed (use Cons in simp)
qed simp

text \<open>The membership test decides membership in the acknowledged set.\<close>

lemma acksPacket_iff:
  assumes "ack_wf largest lowest rs"
  shows "acksPacket largest lowest rs p \<longleftrightarrow> p \<in> acked_set largest lowest rs"
proof (cases "rs = []")
  case False
  then have wf: "desc_ranges rs" "Last (hd rs) = largest" "First (last rs) = lowest"
    using assms by (auto simp: ack_wf_def)
  show ?thesis
  proof
    assume "p \<in> acked_set largest lowest rs"
    then obtain a where a: "a \<in> set rs" "First a \<le> p" "p \<le> Last a"
      using False by (auto simp: acked_set_def range_set_def)
    then have "lowest \<le> p" "p \<le> largest"
      using desc_ranges_hd [OF wf(1) a(1)] desc_ranges_last [OF wf(1) a(1)] wf by auto
    with a False show "acksPacket largest lowest rs p"
      by (auto simp: acksPacket_def list_ex_iff)
  qed (use False in \<open>auto simp: acksPacket_def acked_set_def range_set_def list_ex_iff split: if_splits\<close>)
qed (auto simp: acksPacket_def acked_set_def)

lemma range_set_mono: "set rs \<subseteq> set rs' \<Longrightarrow> range_set rs \<subseteq> range_set rs'"
  by (auto simp: range_set_def)

text \<open>The check of the parsers accepts well-formed ranges.\<close>

lemma ranges_descend_desc: "desc_ranges rs \<Longrightarrow> ranges_descend rs"
proof (induction rs)
  case (Cons a rs)
  show ?case
  proof (cases rs)
    case (Cons b bs)
    have "First b \<le> Last b" "unat (Last b) + 1 < unat (First a)"
      using Cons.prems Cons by (auto simp: desc_ranges_Cons)
    moreover from this have "unat (Last b + 1) = unat (Last b) + 1"
      by (intro unat_succ_below [where y = "First a"]) simp
    ultimately show ?thesis
      using Cons.IH desc_ranges_ConsD [OF Cons.prems] Cons by (simp add: unat_simps)
  qed simp
qed simp

lemma validateAckRanges_desc:
  "desc_ranges rs \<Longrightarrow> 2 \<le> length rs \<Longrightarrow> Last (hd rs) = largest \<Longrightarrow> validateAckRanges largest rs"
  by (cases rs) (auto simp: validateAckRanges_def list_ex_iff ranges_descend_desc not_less
      dest: desc_ranges_nonempty)

section \<open>The blocks of a range\<close>

definition rgap :: "AckRange \<Rightarrow> AckRange \<Rightarrow> nat" where
  "rgap prev a = unat (First prev) - unat (Last a) - 1"

definition rnum :: "AckRange \<Rightarrow> AckRange \<Rightarrow> nat" where
  "rnum prev a = (rgap prev a - 1) div 255 + 1"

text \<open>A long gap is cut into blocks of 255 missing packets that acknowledge nothing.\<close>

definition rblocks :: "AckRange \<Rightarrow> AckRange \<Rightarrow> (uint8 \<times> uint64) list" where
  "rblocks prev a = replicate (rnum prev a - 1) (0xFF, 0)
     @ [(of_nat (1 + (rgap prev a - 1) mod 255), rangeLen a)]"

fun blocks_of :: "AckRange \<Rightarrow> AckRange list \<Rightarrow> (uint8 \<times> uint64) list" where
  "blocks_of prev [] = []"
| "blocks_of prev (a # rs) = rblocks prev a @ blocks_of a rs"

lemma blocks_of_lengths:
  "(g, x) \<in> set (blocks_of prev ws) \<Longrightarrow> x = 0 \<or> x \<in> rangeLen ` set ws"
  by (induction ws arbitrary: prev) (auto simp: rblocks_def)

lemma length_rblocks [simp]: "length (rblocks prev a) = rnum prev a"
  by (simp add: rblocks_def rnum_def)

lemma rgap_word:
  assumes "unat (Last a) + 1 < unat (First prev)"
  shows "unat (First prev - Last a - 1) = rgap prev a" "1 \<le> rgap prev a"
proof -
  have le: "Last a \<le> First prev" using assms by (simp add: unat_simps)
  have "unat (First prev - Last a) = unat (First prev) - unat (Last a)"
    using le by (rule unat_sub)
  moreover have "(1 :: uint64) \<le> First prev - Last a" using calculation assms by (simp add: unat_simps)
  ultimately show "unat (First prev - Last a - 1) = rgap prev a"
    by (simp add: unat_sub rgap_def)
  show "1 \<le> rgap prev a" using assms by (simp add: rgap_def)
qed

lemma unat_gapBlocks:
  assumes "1 \<le> unat gap"
  shows "unat (gapBlocks gap) = (unat gap - 1) div 255 + 1"
proof -
  define g where "g = unat gap"
  have d: "unat (gap div 0xFF) = g div 255" by (simp add: g_def unat_div)
  have "g < 2 ^ 60 * 255" unfolding g_def by (rule less_trans [OF unat_lt64]) simp
  then have "g div 255 < 2 ^ 60" by (rule less_mult_imp_div_less)
  then have b: "g div 255 + 1 < 2 ^ 64" by simp
  have q: "unat (gap div 0xFF + 1) = g div 255 + 1"
    using b by (simp add: unat_add_no_wrap unat_div g_def)
  have m: "gap mod 0xFF = 0 \<longleftrightarrow> g mod 255 = 0"
    by (simp add: word_unat_eq_iff unat_mod g_def)
  obtain k where k: "g = Suc k" using assms unfolding g_def by (cases "unat gap") auto
  have "(g - 1) div 255 + 1 = (if g mod 255 = 0 then g div 255 else g div 255 + 1)"
    unfolding k by (simp add: div_Suc mod_Suc)
  then show ?thesis
    unfolding gapBlocks_def Let_def m g_def [symmetric] using q d by auto
qed

lemma writeGapLoop_eq:
  assumes "writeLen 0 = Inr zero" "writeLen len = Inr l"
  shows "writeGapLoop writeLen gap len (Suc n) =
    Inr (concat (replicate n (0xFF # zero)) @ ucast (1 + (gap - 1) mod 255) # l)"
  using assms by (induction n) simp_all

text \<open>The bytes of a list of blocks.\<close>

definition enc_blocks :: "VersionNumber \<Rightarrow> nat \<Rightarrow> (uint8 \<times> uint64) list \<Rightarrow> bytes" where
  "enc_blocks v n ps = concat (map (\<lambda>(g, l). g # version_bytes v n (unat l)) ps)"

lemma enc_blocks_simps [simp]:
  "enc_blocks v n [] = []"
  "enc_blocks v n ((g, l) # ps) = g # version_bytes v n (unat l) @ enc_blocks v n ps"
  "enc_blocks v n (ps @ qs) = enc_blocks v n ps @ enc_blocks v n qs"
  by (simp_all add: enc_blocks_def)

lemma enc_blocks_replicate:
  "enc_blocks v n (replicate k (g, l)) = concat (replicate k (g # version_bytes v n (unat l)))"
  by (simp add: enc_blocks_def)

lemma length_enc_blocks: "length (enc_blocks v n ps) = (1 + n) * length ps"
  by (induction ps) (auto simp: vo.length_enc)

section \<open>Decoding blocks\<close>

lemma fold_long_block:
  assumes "0 < len"
  shows "fold (\<lambda>(g, l). ackBlockStep g l) (replicate k (0xFF, 0) @ [(g, len)]) (rs @ [x], True, c) =
    (rs @ [\<lparr>First = First x - (255 * of_nat k + (ucast g + len)),
            Last = Last x - (255 * of_nat k + ucast g)\<rparr>], False, True)"
proof (induction k arbitrary: x c)
  case 0
  have "(len = 0) = False" using assms by auto
  with assms show ?case by simp
next
  case (Suc k)
  have "fold (\<lambda>(g, l). ackBlockStep g l) (replicate (Suc k) (0xFF, 0) @ [(g, len)]) (rs @ [x], True, c) =
    fold (\<lambda>(g, l). ackBlockStep g l) (replicate k (0xFF, 0) @ [(g, len)])
      (rs @ [\<lparr>First = First x - 0xFF, Last = Last x - 0xFF\<rparr>], True, c)"
    by simp
  also have "\<dots> = (rs @ [\<lparr>First = First x - 0xFF - (255 * of_nat k + (ucast g + len)),
            Last = Last x - 0xFF - (255 * of_nat k + ucast g)\<rparr>], False, True)"
    by (simp only: Suc AckRange.select_convs)
  also have "\<dots> = (rs @ [\<lparr>First = First x - (255 * of_nat (Suc k) + (ucast g + len)),
            Last = Last x - (255 * of_nat (Suc k) + ucast g)\<rparr>], False, True)"
    by (simp add: algebra_simps)
  finally show ?case .
qed

lemma fold_range_blocks:
  fixes prev :: AckRange and k :: nat and g :: uint8
  assumes "0 < len" and l: "First prev - (255 * of_nat k + ucast g) - 1 = l"
  shows "fold (\<lambda>(g, l). ackBlockStep g l) (replicate k (0xFF, 0) @ [(g, len)]) (rs @ [prev], False, c) =
    (rs @ [prev, \<lparr>First = l - len + 1, Last = l\<rparr>], False, True)"
proof (cases k)
  case 0
  have "(len = 0) = False" using assms by auto
  with assms 0 show ?thesis by (simp add: Let_def)
next
  case (Suc n)
  define x where "x = \<lparr>First = First prev - 0xFF, Last = First prev - 0xFF - 1\<rparr>"
  have "fold (\<lambda>(g, l). ackBlockStep g l) (replicate k (0xFF, 0) @ [(g, len)]) (rs @ [prev], False, c) =
    fold (\<lambda>(g, l). ackBlockStep g l) (replicate n (0xFF, 0) @ [(g, len)])
      ((rs @ [prev]) @ [x], True, False)"
    by (simp add: Suc Let_def x_def)
  also have "\<dots> = ((rs @ [prev]) @ [\<lparr>First = First x - (255 * of_nat n + (ucast g + len)),
      Last = Last x - (255 * of_nat n + ucast g)\<rparr>], False, True)"
    by (rule fold_long_block [OF assms(1)])
  also have "Last x - (255 * of_nat n + ucast g) = l"
    unfolding l [symmetric] by (simp add: x_def Suc)
  also have "First x - (255 * of_nat n + (ucast g + len)) = l - len + 1"
    unfolding l [symmetric] by (simp add: x_def Suc)
  finally show ?thesis by simp
qed

lemma fold_rblocks:
  assumes "First a \<le> Last a" "unat (Last a) + 1 < unat (First prev)" "0 < rangeLen a"
  shows "fold (\<lambda>(g, l). ackBlockStep g l) (rblocks prev a) (rs @ [prev], False, c) =
    (rs @ [prev, a], False, True)"
proof -
  define k where "k = rnum prev a - 1"
  define g where "g = (of_nat (1 + (rgap prev a - 1) mod 255) :: uint8)"
  have "1 + (rgap prev a - 1) mod 255 < 256" by simp
  then have "unat g = 1 + (rgap prev a - 1) mod 255" unfolding g_def by (rule unat_of_nat8)
  then have eq: "255 * k + unat g = rgap prev a"
    using rgap_word(2) [OF assms(2)] mult_div_mod_eq [of 255 "rgap prev a - 1"]
    by (simp add: k_def rnum_def)
  have "(255 * of_nat k + ucast g :: uint64) = of_nat (rgap prev a)"
    using arg_cong [OF eq, of "of_nat :: nat \<Rightarrow> uint64"] by simp
  also have "\<dots> = First prev - Last a - 1"
    unfolding rgap_word(1) [OF assms(2), symmetric] by simp
  finally have l: "First prev - (255 * of_nat k + ucast g) - 1 = Last a" by simp
  have f: "Last a - rangeLen a + 1 = First a" by (simp add: rangeLen_def)
  show ?thesis
    using fold_range_blocks [OF assms(3) l, of rs c]
    unfolding f rblocks_def k_def [symmetric] g_def [symmetric] by simp
qed

lemma rangeLen_nz:
  assumes "First a \<le> Last a" "unat (Last a) + 1 < 2 ^ 64"
  shows "unat (rangeLen a) = unat (Last a) - unat (First a) + 1" "0 < rangeLen a"
proof -
  have "unat (Last a - First a) = unat (Last a) - unat (First a)" using assms(1) by (rule unat_sub)
  then show u: "unat (rangeLen a) = unat (Last a) - unat (First a) + 1"
    unfolding rangeLen_def using assms by (subst unat_add_no_wrap) auto
  then show "0 < rangeLen a" by (simp add: unat_simps)
qed

lemma fold_blocks_of:
  "desc_ranges (prev # ws) \<Longrightarrow>
   fold (\<lambda>(g, l). ackBlockStep g l) (blocks_of prev ws) (rs @ [prev], False, c) =
     (rs @ prev # ws, False, ws \<noteq> [] \<or> c)"
proof (induction ws arbitrary: prev rs c)
  case (Cons a ws)
  then have a: "First a \<le> Last a" "unat (Last a) + 1 < unat (First prev)" "desc_ranges (a # ws)"
    by (simp_all add: desc_ranges_Cons)
  have "unat (Last a) + 1 < 2 ^ 64" using a(2) by (rule less_trans) simp
  with a have "fold (\<lambda>(g, l). ackBlockStep g l) (rblocks prev a) (rs @ [prev], False, c) =
      ((rs @ [prev]) @ [a], False, True)"
    by (simp add: fold_rblocks rangeLen_nz)
  then show ?case using Cons.IH [OF a(3), of "rs @ [prev]" True] by simp
qed simp

lemma ackBlockStep_nonempty: "fst (ackBlockStep g l st) \<noteq> []"
  by (cases st) (auto simp: Let_def split: if_splits)

lemma parseAckBlocks_enc:
  assumes "n \<le> 8"
  shows "\<forall>(g, l) \<in> set ps. unat l < 256 ^ n \<Longrightarrow> fst st \<noteq> [] \<Longrightarrow>
    parseAckBlocks v (of_nat n) (length ps) st (enc_blocks v n ps @ r) =
      Inr (fold (\<lambda>(g, l). ackBlockStep g l) ps st, r)"
proof (induction ps arbitrary: st)
  case (Cons p ps)
  obtain g l where p: "p = (g, l)" by (cases p)
  have "ReadUintN (GetByteOrder v) (of_nat n) (version_bytes v n (unat l) @ enc_blocks v n ps @ r) =
    Inr (l, enc_blocks v n ps @ r)"
    using Cons.prems(1) vo.readN_enc [OF assms] by (simp add: p)
  then show ?case using Cons.IH [of "ackBlockStep g l st"] Cons.prems
    by (simp add: p ackBlockStep_nonempty)
qed simp

lemma parseAckBlocks_inv:
  assumes "n < 8" "parseAckBlocks v (of_nat n) k st r = Inr (st', r')"
  shows "\<exists>ps. length ps = k \<and> (\<forall>(g, l) \<in> set ps. unat l < 256 ^ n) \<and>
    st' = fold (\<lambda>(g, l). ackBlockStep g l) ps st"
  using assms(2)
proof (induction k arbitrary: st r)
  case (Suc k)
  obtain g r1 l r2 where r: "ReadUintN (GetByteOrder v) (of_nat n) r1 = Inr (l, r2)"
      "parseAckBlocks v (of_nat n) k (ackBlockStep g l st) r2 = Inr (st', r')"
    using Suc.prems by (auto simp: bindE_eq_Inr_iff split: if_splits)
  from Suc.IH [OF r(2)] obtain ps where ps: "length ps = k" "\<forall>(g, l) \<in> set ps. unat l < 256 ^ n"
      "st' = fold (\<lambda>(g, l). ackBlockStep g l) ps (ackBlockStep g l st)" by auto
  then show ?case using vo.readN_bound [OF r(1) assms(1)] by (intro exI [of _ "(g, l) # ps"]) simp
qed simp

lemma parseAckBlocks_no_panic:
  assumes "n \<le> 8"
  shows "fst st \<noteq> [] \<Longrightarrow> parseAckBlocks v (of_nat n) k st r \<noteq> Inl (Panic m)"
proof (induction k arbitrary: st r)
  case (Suc k)
  show ?case
    using Suc.IH ackBlockStep_nonempty Suc.prems assms
    by (cases r) (auto simp: bindE_eq_Inl_iff vo.readN_cases split: if_splits)
qed simp

section \<open>The ranges that fit into a frame\<close>

fun written_loop :: "AckRange \<Rightarrow> AckRange list \<Rightarrow> nat \<Rightarrow> AckRange list" where
  "written_loop prev [] n = []"
| "written_loop prev (a # rs) n =
     (if n + rnum prev a < 255 then a # written_loop a rs (n + rnum prev a) else [])"

fun writtenRanges :: "AckRange list \<Rightarrow> AckRange list" where
  "writtenRanges [] = []"
| "writtenRanges (a # rs) = a # written_loop a rs 0"

lemma written_loop_take: "\<exists>k. written_loop prev rs n = take k rs"
proof (induction rs arbitrary: prev n)
  case (Cons a rs)
  then obtain k where "written_loop a rs (n + rnum prev a) = take k rs" by blast
  then show ?case by (cases "n + rnum prev a < 255") (auto intro: exI [of _ "Suc k"] exI [of _ 0])
qed simp

lemma writtenRanges_take: "\<exists>k. writtenRanges rs = take k rs"
proof (cases rs)
  case (Cons a as)
  obtain k where "written_loop a as 0 = take k as" using written_loop_take by blast
  then have "writtenRanges rs = take (Suc k) rs" using Cons by simp
  then show ?thesis by blast
qed simp

lemma written_loop_all:
  "length (blocks_of prev rs) + n < 255 \<Longrightarrow> written_loop prev rs n = rs"
  by (induction rs arbitrary: prev n) auto

lemma writtenRanges_all:
  "length (blocks_of (hd rs) (tl rs)) < 255 \<Longrightarrow> writtenRanges rs = rs"
  by (cases rs) (auto simp: written_loop_all)

lemma unat_gapBlocks_range:
  assumes "unat (Last a) + 1 < unat (First prev)"
  shows "gapBlocks (First prev - Last a - 1) = of_nat (rnum prev a)"
  using unat_gapBlocks [of "First prev - Last a - 1"] rgap_word [OF assms]
  by (simp add: rnum_def) (metis of_nat_Suc of_nat_unat ucast_id)

lemma rnum_bound: "rnum prev a < 2 ^ 60"
proof -
  have "rgap prev a - 1 \<le> unat (First prev)" by (simp add: rgap_def)
  also have "\<dots> < 2 ^ 59 * 255" by (rule less_trans [OF unat_lt64]) simp
  finally have "(rgap prev a - 1) div 255 < 2 ^ 59" by (rule less_mult_imp_div_less)
  then show ?thesis by (simp add: rnum_def)
qed

lemma numNackLoop_eq:
  "desc_ranges (prev # rs) \<Longrightarrow> n < 255 \<Longrightarrow>
   numNackLoop prev rs (of_nat n) = of_nat (n + length (blocks_of prev (written_loop prev rs n))) \<and>
   n + length (blocks_of prev (written_loop prev rs n)) < 255"
proof (induction rs arbitrary: prev n)
  case (Cons a rs)
  then have a: "unat (Last a) + 1 < unat (First prev)" "desc_ranges (a # rs)"
    by (simp_all add: desc_ranges_Cons)
  have "n + rnum prev a < 2 ^ 64" using rnum_bound [of prev a] Cons.prems(2) by simp
  then have "unat (of_nat (n + rnum prev a) :: uint64) = n + rnum prev a" by (intro unat_of_nat64) simp
  then have c: "(of_nat n + of_nat (rnum prev a) :: uint64) < 0xFF \<longleftrightarrow> n + rnum prev a < 255"
    by (simp add: unat_simps)
  show ?case
    using Cons.IH [OF a(2), of "n + rnum prev a"] Cons.prems(2) c
    by (simp add: unat_gapBlocks_range [OF a(1)] Let_def add.assoc)
qed simp

lemma numWritableNackRanges_bounds:
  assumes "desc_ranges rs" "rs \<noteq> []"
  shows "1 \<le> unat (numWritableNackRanges rs)" "unat (numWritableNackRanges rs) \<le> 255"
proof -
  obtain a as where rs: "rs = a # as" using assms(2) by (cases rs) auto
  define k where "k = length (blocks_of a (written_loop a as 0))"
  have "numNackLoop a as 0 = of_nat k" "k < 255"
    using numNackLoop_eq [of a as 0] assms(1) by (simp_all add: rs k_def)
  then have "unat (numWritableNackRanges rs) = 1 + k"
    unfolding rs numWritableNackRanges.simps by (subst unat_add_no_wrap) (simp_all add: unat_of_nat64)
  then show "1 \<le> unat (numWritableNackRanges rs)" "unat (numWritableNackRanges rs) \<le> 255"
    using \<open>k < 255\<close> by simp_all
qed

section \<open>The length field\<close>

lemma fold_rangeLen_max:
  defines "mx \<equiv> \<lambda>a m. if rangeLen a > m then rangeLen a else m"
  shows "m \<le> fold mx rs m" and "a \<in> set rs \<Longrightarrow> rangeLen a \<le> fold mx rs m"
    and "fold mx rs m \<in> insert m (rangeLen ` set rs)"
proof -
  have "m \<le> fold mx rs m \<and> (\<forall>a \<in> set rs. rangeLen a \<le> fold mx rs m) \<and>
      fold mx rs m \<in> insert m (rangeLen ` set rs)"
  proof (induction rs arbitrary: m)
    case (Cons b rs)
    have "m \<le> mx b m" "rangeLen b \<le> mx b m" "mx b m = m \<or> mx b m = rangeLen b" by (auto simp: mx_def)
    then show ?case using Cons.IH [of "mx b m"] by (auto intro: order_trans)
  qed simp
  then show "m \<le> fold mx rs m" "a \<in> set rs \<Longrightarrow> rangeLen a \<le> fold mx rs m"
    "fold mx rs m \<in> insert m (rangeLen ` set rs)" by auto
qed

text \<open>The field is wide enough for every length below \<open>2 ^ 48\<close>.\<close>

lemma deltaLen_cases:
  fixes m :: uint64
  assumes "unat m < 2 ^ 48"
  defines "l \<equiv> (if m \<le> 0xFF then PacketNumberLen1 else if m \<le> 0xFFFF then PacketNumberLen2
               else if m \<le> 0xFFFFFFFF then PacketNumberLen4 else PacketNumberLen6)"
  shows "unat m < 256 ^ unat l"
  using assms by (auto simp: PacketNumberLen_defs unat_simps)

lemma deltaLen_valid: "valid_PacketNumberLen (getMissingSequenceNumberDeltaLen largest lowest rs)"
  by (simp add: getMissingSequenceNumberDeltaLen_def Let_def valid_PacketNumberLen_def)

lemma deltaLen_fits:
  assumes "\<forall>a \<in> set rs. unat (rangeLen a) < 2 ^ 48" "a \<in> set rs"
  shows "unat (rangeLen a) < 256 ^ unat (getMissingSequenceNumberDeltaLen largest lowest rs)"
proof -
  define m where "m = fold (\<lambda>a m. if rangeLen a > m then rangeLen a else m) rs 0"
  have "unat m < 2 ^ 48" using fold_rangeLen_max(3) [of rs 0] assms(1) by (auto simp: m_def)
  from deltaLen_cases [OF this] have "unat m < 256 ^ unat (getMissingSequenceNumberDeltaLen largest lowest rs)"
    using assms(2) unfolding getMissingSequenceNumberDeltaLen_def Let_def m_def by (cases rs) auto
  moreover have "unat (rangeLen a) \<le> unat m"
    using fold_rangeLen_max(2) [OF assms(2), of 0] by (simp add: m_def word_le_nat_alt)
  ultimately show ?thesis by simp
qed

lemma deltaLen_fits_Nil:
  "unat (largest - lowest + 1) < 2 ^ 48 \<Longrightarrow>
   unat (largest - lowest + 1) < 256 ^ unat (getMissingSequenceNumberDeltaLen largest lowest [])"
  using deltaLen_cases by (simp add: getMissingSequenceNumberDeltaLen_def Let_def)

lemma valid_PacketNumberLen_cases:
  "valid_PacketNumberLen l \<Longrightarrow> unat l < 8 \<and> l = of_nat (unat l)"
  by (auto simp: valid_PacketNumberLen_def PacketNumberLen_defs)

lemma ack_wf_lengths:
  assumes "ack_wf largest lowest rs" "unat largest < 2 ^ 48" "a \<in> set rs" "2 \<le> length rs"
  shows "unat (rangeLen a) < 2 ^ 48" "1 \<le> unat (First (hd rs))"
proof -
  have d: "desc_ranges rs" "Last (hd rs) = largest" using assms by (auto simp: ack_wf_def split: if_splits)
  have "unat (Last a) \<le> unat largest" using desc_ranges_hd [OF d(1) assms(3)] d(2) by (simp add: unat_simps)
  then have la: "unat (Last a) < 2 ^ 48" using assms(2) by linarith
  obtain x y ys where rs: "rs = x # y # ys" using assms(4) by (cases rs; cases "tl rs") auto
  then have "unat (Last y) + 1 < unat (First x)" using d(1) by simp
  then show first: "1 \<le> unat (First (hd rs))" by (simp add: rs)
  have "unat (rangeLen a) = unat (Last a) - unat (First a) + 1"
    using desc_ranges_nonempty [OF d(1) assms(3)] la by (intro rangeLen_nz) simp_all
  moreover have "1 \<le> unat (First a) \<or> unat (Last a) + 1 < 2 ^ 48"
  proof (cases "a = x")
    case False
    then have "unat (Last a) + 1 < unat (First x)"
      using desc_ranges_below [of x "y # ys" a] d(1) assms(3) rs by simp
    moreover have "unat (First x) \<le> unat (Last x)" using d(1) rs by (simp add: unat_simps)
    moreover have "unat (Last x) < 2 ^ 48" using d(2) assms(2) rs by simp
    ultimately show ?thesis by linarith
  qed (use first rs in simp)
  moreover have "unat (First a) \<le> unat (Last a)"
    using desc_ranges_nonempty [OF d(1) assms(3)] by (simp add: unat_simps)
  ultimately show "unat (rangeLen a) < 2 ^ 48" using la by linarith
qed

section \<open>Writing and reading back\<close>

text \<open>
  What the writers need of the switch that writes a length: it appends the digits of every
  number that fits into the field.
\<close>

locale block_writer =
  fixes v :: VersionNumber
    and writeLen :: "PacketNumberLen \<Rightarrow> uint64 \<Rightarrow> bytes result"
  assumes writeLen_fits:
    "valid_PacketNumberLen l \<Longrightarrow> unat x < 256 ^ unat l \<Longrightarrow>
     writeLen l x = Inr (version_bytes v (unat l) (unat x))"
begin

lemma writeAckRange_blocks:
  assumes "unat (Last a) + 1 < unat (First prev)" "valid_PacketNumberLen l"
    and "unat (rangeLen a) < 256 ^ unat l"
  shows "writeAckRange (writeLen l) prev a =
    Inr (enc_blocks v (unat l) (rblocks prev a), of_nat (rnum prev a))"
proof -
  define gap where "gap = First prev - Last a - 1"
  have g: "unat gap = rgap prev a" "1 \<le> rgap prev a"
    using rgap_word [OF assms(1)] by (simp_all add: gap_def)
  have zero: "writeLen l 0 = Inr (version_bytes v (unat l) 0)"
    using writeLen_fits [OF assms(2), of 0] by simp
  have len: "writeLen l (rangeLen a) = Inr (version_bytes v (unat l) (unat (rangeLen a)))"
    using writeLen_fits [OF assms(2)] assms(3) by blast
  have "(1 :: uint64) \<le> gap" using g by (simp add: unat_simps)
  then have "unat (gap - 1) = rgap prev a - 1" using g by (simp add: unat_sub)
  then have "unat (1 + (gap - 1) mod 255) = 1 + (rgap prev a - 1) mod 255"
    by (subst unat_add_no_wrap) (simp_all add: unat_mod)
  then have lastg: "(ucast (1 + (gap - 1) mod 255) :: uint8) = of_nat (1 + (rgap prev a - 1) mod 255)"
    by (metis of_nat_unat)
  show ?thesis
  proof (cases "rnum prev a = 1")
    case True
    then have "rgap prev a - 1 < 255" by (simp add: rnum_def div_eq_0_iff)
    then have "rblocks prev a = [(of_nat (rgap prev a), rangeLen a)]"
      using True g(2) by (simp add: rblocks_def)
    moreover have "(ucast gap :: uint8) = of_nat (rgap prev a)" by (metis g(1) of_nat_unat)
    ultimately show ?thesis
      using True len unat_gapBlocks_range [OF assms(1)] by (simp add: writeAckRange_def Let_def gap_def)
  next
    case False
    have "unat (of_nat (rnum prev a) :: uint64) = rnum prev a"
      using rnum_bound [of prev a] by (intro unat_of_nat64) simp
    then have n: "unat (of_nat (rnum prev a) :: uint64) = Suc (rnum prev a - 1)"
        and "(of_nat (rnum prev a) :: uint64) \<noteq> 1"
      using False by (auto simp: rnum_def)
    moreover have gb: "gapBlocks gap = of_nat (rnum prev a)"
      using unat_gapBlocks_range [OF assms(1)] by (simp add: gap_def)
    moreover have "writeGapLoop (writeLen l) gap (rangeLen a) (unat (gapBlocks gap)) =
        Inr (enc_blocks v (unat l) (rblocks prev a))"
      unfolding gb n writeGapLoop_eq [OF zero len] lastg rblocks_def by (simp add: enc_blocks_replicate)
    ultimately show ?thesis unfolding writeAckRange_def Let_def gap_def [symmetric] by simp
  qed
qed

lemma writeAckRangesLoop_blocks:
  assumes "valid_PacketNumberLen l"
  shows "desc_ranges (prev # rs) \<Longrightarrow> \<forall>a \<in> set rs. unat (rangeLen a) < 256 ^ unat l \<Longrightarrow>
    n < 255 \<Longrightarrow> written_loop prev rs n \<noteq> [] \<Longrightarrow>
    numRanges = of_nat (1 + n + length (blocks_of prev (written_loop prev rs n))) \<Longrightarrow>
    writeAckRangesLoop (writeLen l) prev rs numRanges (of_nat (1 + n)) =
      Inr (enc_blocks v (unat l) (blocks_of prev (written_loop prev rs n)), numRanges)"
proof (induction rs arbitrary: prev n)
  case (Cons a rs)
  let ?w = "written_loop a rs (n + rnum prev a)"
  let ?k = "length (blocks_of a ?w)"
  have a: "unat (Last a) + 1 < unat (First prev)" "desc_ranges (a # rs)"
    using Cons.prems(1) by (simp_all add: desc_ranges_Cons)
  have fit: "n + rnum prev a < 255" using Cons.prems(4) by (simp split: if_splits)
  have bound: "n + rnum prev a + ?k < 255" using numNackLoop_eq [OF a(2) fit] by blast
  have w: "writeAckRange (writeLen l) prev a =
      Inr (enc_blocks v (unat l) (rblocks prev a), of_nat (rnum prev a))"
    using writeAckRange_blocks [OF a(1) assms] Cons.prems(2) by simp
  have nr: "numRanges = of_nat (1 + (n + rnum prev a) + ?k)" using Cons.prems(5) fit by (simp add: ac_simps)
  have cnt: "of_nat (1 + n) + of_nat (rnum prev a) = (of_nat (1 + (n + rnum prev a)) :: uint64)" by simp
  have step: "writeAckRangesLoop (writeLen l) prev (a # rs) numRanges (of_nat (1 + n)) =
      (if of_nat (1 + (n + rnum prev a)) \<ge> numRanges
       then Inr (enc_blocks v (unat l) (rblocks prev a), of_nat (1 + (n + rnum prev a)))
       else bindE (writeAckRangesLoop (writeLen l) a rs numRanges (of_nat (1 + (n + rnum prev a))))
         (\<lambda>(bs', n'). Inr (enc_blocks v (unat l) (rblocks prev a) @ bs', n')))"
    by (simp only: writeAckRangesLoop.simps w bindE.simps prod.case Let_def cnt)
  have stop: "numRanges \<le> of_nat (1 + (n + rnum prev a)) \<longleftrightarrow> ?k = 0"
    unfolding nr word_le_nat_alt using bound by (subst (1 2) unat_of_nat64) auto
  show ?case
  proof (cases "?w = []")
    case True
    then show ?thesis unfolding step using fit stop nr by simp
  next
    case False
    then have "?k \<noteq> 0" by (cases ?w) (auto simp: rnum_def)
    moreover have "writeAckRangesLoop (writeLen l) a rs numRanges (of_nat (1 + (n + rnum prev a))) =
        Inr (enc_blocks v (unat l) (blocks_of a ?w), numRanges)"
      using Cons.prems(2) by (intro Cons.IH [OF a(2) _ fit False nr]) simp
    ultimately show ?thesis unfolding step using fit stop by simp
  qed
qed simp

lemma blocks_round_trip_Nil:
  assumes "lowest \<le> largest" "1 \<le> lowest" "unat largest < 2 ^ 48"
  defines "l \<equiv> getMissingSequenceNumberDeltaLen largest lowest []"
  obtains bs where "writeAckBlocks (writeLen l) bug largest lowest [] = Inr bs" "length bs = unat l"
    "bindE (ReadUintN (GetByteOrder v) l (bs @ r))
       (\<lambda>(abl, r). parseAckRanges v l False 0 largest abl r) = Inr ((lowest, []), r)"
proof -
  have "1 \<le> unat lowest" "unat lowest \<le> unat largest" using assms by (simp_all add: unat_simps)
  moreover have "unat (largest - lowest + 1) = unat largest - unat lowest + 1"
    using assms calculation by (subst unat_add_no_wrap) (auto simp: unat_sub)
  ultimately have len: "unat (largest - lowest + 1) < 2 ^ 48" "unat (largest - lowest + 1) \<le> unat largest"
      "1 \<le> unat (largest - lowest + 1)"
    using assms(3) by linarith+
  note fits = deltaLen_fits_Nil [OF len(1), folded l_def]
  note lv = deltaLen_valid [of largest lowest "[]", folded l_def]
  have w: "writeLen l (largest - lowest + 1) = Inr (version_bytes v (unat l) (unat (largest - lowest + 1)))"
    by (rule writeLen_fits [OF lv fits])
  have rd: "ReadUintN (GetByteOrder v) l (version_bytes v (unat l) (unat (largest - lowest + 1)) @ r) =
      Inr (largest - lowest + 1, r)"
    using vo.readN_enc [of "unat l" v "unat (largest - lowest + 1)" r] fits
      valid_PacketNumberLen_cases [OF lv] by simp
  have "largest > 0" using assms by (auto simp: unat_simps)
  then have p: "parseAckRanges v l False 0 largest (largest - lowest + 1) r = Inr ((lowest, []), r)"
    using len by (auto simp: parseAckRanges_def unat_simps validateAckRanges_def)
  show thesis
    by (rule that [of "version_bytes v (unat l) (unat (largest - lowest + 1))"])
      (simp_all add: writeAckBlocks_def w rd p vo.length_enc)
qed

lemma blocks_round_trip_ranges:
  assumes wf: "ack_wf largest lowest (a # rs)" and "unat largest < 2 ^ 48"
    and some: "written_loop a rs 0 \<noteq> []"
  defines "l \<equiv> getMissingSequenceNumberDeltaLen largest lowest (a # rs)"
  obtains bs where "writeAckBlocks (writeLen l) bug largest lowest (a # rs) = Inr bs"
    "length bs + 1 = (1 + unat l) * unat (numWritableNackRanges (a # rs))"
    "bindE (ReadUintN (GetByteOrder v) l (bs @ r))
       (\<lambda>(abl, r). parseAckRanges v l True (ucast (numWritableNackRanges (a # rs) - 1)) largest abl r) =
     Inr ((First (last (writtenRanges (a # rs))), writtenRanges (a # rs)), r)"
    "ucast (numWritableNackRanges (a # rs) - 1) \<noteq> (0 :: uint8)" "numWritableNackRanges (a # rs) \<le> 0xFF"
proof -
  define ws where "ws = written_loop a rs 0"
  define ps where "ps = blocks_of a ws"
  have d: "desc_ranges (a # rs)" "Last a = largest" "First (last (a # rs)) = lowest" "2 \<le> length (a # rs)"
    using wf by (auto simp: ack_wf_def)
  note lv = deltaLen_valid [of largest lowest "a # rs", folded l_def]
  have lengths: "\<forall>b \<in> set (a # rs). unat (rangeLen b) < 2 ^ 48"
    using ack_wf_lengths(1) [OF wf assms(2) _ d(4)] by blast
  have fits: "\<forall>b \<in> set (a # rs). unat (rangeLen b) < 256 ^ unat l"
    using deltaLen_fits [OF lengths, of _ largest lowest] unfolding l_def by blast
  obtain k where ws: "ws = take k rs" using written_loop_take [of a rs 0] unfolding ws_def by blast
  have dws: "desc_ranges (a # ws)" using desc_ranges_take [OF d(1), of "Suc k"] ws by simp
  have num: "numNackLoop a rs 0 = of_nat (length ps)" "length ps < 255"
    using numNackLoop_eq [OF d(1), of 0] by (simp_all add: ps_def ws_def)
  have "ps \<noteq> []" using some by (cases ws) (auto simp: ps_def ws_def rblocks_def)
  then have pos: "1 \<le> length ps" by (cases ps) auto
  have loop: "writeAckRangesLoop (writeLen l) a rs (of_nat (1 + length ps)) 1 =
      Inr (enc_blocks v (unat l) ps, of_nat (1 + length ps))"
    using writeAckRangesLoop_blocks [OF lv d(1) _ _ some, of "of_nat (1 + length ps)"] fits
    by (simp add: ps_def ws_def)
  have nw: "numWritableNackRanges (a # rs) = of_nat (1 + length ps)" by (simp add: num)
  have len1: "largest - First a + 1 = rangeLen a" using d(2) by (simp add: rangeLen_def)
  have w: "writeLen l (rangeLen a) = Inr (version_bytes v (unat l) (unat (rangeLen a)))"
    using writeLen_fits [OF lv] fits by simp
  let ?bs = "version_bytes v (unat l) (unat (rangeLen a)) @ enc_blocks v (unat l) ps"
  have wrt: "writeAckBlocks (writeLen l) bug largest lowest (a # rs) = Inr ?bs"
    using d loop w unfolding writeAckBlocks_def list.case Let_def nw len1 by simp
  have l8: "unat l < 8" "l = of_nat (unat l)" using valid_PacketNumberLen_cases [OF lv] by auto
  have rd: "ReadUintN (GetByteOrder v) l (?bs @ r) = Inr (rangeLen a, enc_blocks v (unat l) ps @ r)"
    using vo.readN_enc [of "unat l" v "unat (rangeLen a)" "enc_blocks v (unat l) ps @ r"] fits l8 by simp
  define nb where "nb = (ucast (numWritableNackRanges (a # rs) - 1) :: uint8)"
  have cnt: "unat nb = length ps"
    unfolding nb_def nw using num(2) by (simp add: unat_ucast_shrink unat_of_nat64)
  have "set ws \<subseteq> set rs" unfolding ws by (rule set_take_subset)
  then have small: "\<forall>(g, x) \<in> set ps. unat x < 256 ^ unat l"
    using blocks_of_lengths [of _ _ a ws] fits unfolding ps_def by fastforce
  have parse: "parseAckBlocks v l (length ps) ([a], False, False) (enc_blocks v (unat l) ps @ r) =
      Inr ((a # ws, False, True), r)"
    using parseAckBlocks_enc [OF _ small, of "([a], False, False)" v r] fold_blocks_of [OF dws, of "[]" False]
      l8 some by (simp add: ps_def ws_def)
  have "unat (rangeLen a) = unat largest - unat (First a) + 1" "First a \<le> Last a"
    using rangeLen_nz(1) [of a] d assms(2) by (simp_all add: desc_ranges_Cons)
  moreover have "1 \<le> unat (First a)" using ack_wf_lengths(2) [OF wf assms(2) _ d(4), of a] by simp
  ultimately have ra: "0 < rangeLen a" "rangeLen a \<le> largest" "0 < largest"
    using d(2) by (auto simp: unat_simps)
  have "largest - rangeLen a + 1 = First a" by (simp flip: len1)
  then have "\<lparr>First = largest - rangeLen a + 1, Last = largest\<rparr> = a"
    using d by simp
  then have "parseAckRanges v l True nb largest (rangeLen a)
      (enc_blocks v (unat l) ps @ r) = Inr ((First (last (a # ws)), a # ws), r)"
    using parse ra validateAckRanges_desc [OF dws, of largest] d some
    by (simp add: parseAckRanges_def cnt Let_def ws_def Suc_le_eq unat_simps)
  moreover have "length ?bs + 1 = (1 + unat l) * unat (numWritableNackRanges (a # rs))"
    unfolding nw using num(2) by (simp add: vo.length_enc length_enc_blocks unat_of_nat64 del: of_nat_Suc)
  moreover have "nb \<noteq> 0"
    using cnt pos by (auto simp: word_unat_eq_iff)
  moreover have "numWritableNackRanges (a # rs) \<le> 0xFF"
    unfolding nw word_le_nat_alt using num(2) by (subst unat_of_nat64) simp_all
  ultimately show thesis
    by (intro that [of ?bs]) (simp_all only: wrt rd bindE.simps prod.case writtenRanges.simps ws_def
        nb_def not_False_eq_True)
qed

lemma blocks_round_trip:
  fixes r :: bytes
  assumes wf: "ack_wf largest lowest rs" and "unat largest < 2 ^ 48"
    and "if rs = [] then 1 \<le> lowest else 2 \<le> length (writtenRanges rs)"
  defines "l \<equiv> getMissingSequenceNumberDeltaLen largest lowest rs"
    and "nb \<equiv> if rs = [] then 0 else ucast (numWritableNackRanges rs - 1)"
  obtains bs where "writeAckBlocks (writeLen l) bug largest lowest rs = Inr bs"
    "length bs = (if rs = [] then unat l else (1 + unat l) * unat (numWritableNackRanges rs) - 1)"
    "bindE (ReadUintN (GetByteOrder v) l (bs @ r))
       (\<lambda>(abl, r). parseAckRanges v l (rs \<noteq> []) nb largest abl r) =
     Inr ((if rs = [] then lowest else First (last (writtenRanges rs)), writtenRanges rs), r)"
    "rs \<noteq> [] \<Longrightarrow> nb \<noteq> 0" "numWritableNackRanges rs \<le> 0xFF"
proof (cases rs)
  case Nil
  have c: "lowest \<le> largest" "1 \<le> lowest" using wf assms(3) Nil by (simp_all add: ack_wf_def)
  obtain bs where "writeAckBlocks (writeLen l) bug largest lowest [] = Inr bs" "length bs = unat l"
    "bindE (ReadUintN (GetByteOrder v) l (bs @ r))
       (\<lambda>(abl, r). parseAckRanges v l False 0 largest abl r) = Inr ((lowest, []), r)"
    using Nil by (rule_tac blocks_round_trip_Nil [OF c assms(2), of bug r]) (auto simp: l_def)
  then show thesis using Nil by (intro that [of bs]) (simp_all add: nb_def)
next
  case (Cons a rs')
  have wf': "ack_wf largest lowest (a # rs')" and some: "written_loop a rs' 0 \<noteq> []"
    using wf assms(3) Cons by auto
  obtain bs where "writeAckBlocks (writeLen l) bug largest lowest (a # rs') = Inr bs"
    "length bs + 1 = (1 + unat l) * unat (numWritableNackRanges (a # rs'))"
    "bindE (ReadUintN (GetByteOrder v) l (bs @ r))
       (\<lambda>(abl, r). parseAckRanges v l True (ucast (numWritableNackRanges (a # rs') - 1)) largest abl r) =
     Inr ((First (last (writtenRanges (a # rs'))), writtenRanges (a # rs')), r)"
    "ucast (numWritableNackRanges (a # rs') - 1) \<noteq> (0 :: uint8)" "numWritableNackRanges (a # rs') \<le> 0xFF"
    unfolding l_def Cons by (rule blocks_round_trip_ranges [OF wf' assms(2) some, of bug r]) blast
  then show thesis using Cons
    by (intro that [of bs]) (simp_all add: nb_def del: numWritableNackRanges.simps writtenRanges.simps)
qed

end

section \<open>What the parsers accept\<close>

text \<open>
  Invariant of the decoding loop: every finished range has between 1 and \<open>2 ^ 48 - 1\<close> packets, and
  inside a long gap the last range is still empty.
\<close>

definition plausible :: "AckRange \<Rightarrow> bool" where
  "plausible a \<longleftrightarrow> 0 < rangeLen a \<and> unat (rangeLen a) < 2 ^ 48"

fun block_inv :: "block_state \<Rightarrow> bool" where
  "block_inv (rs, inLongBlock, lastRangeComplete) \<longleftrightarrow>
     rs \<noteq> [] \<and> (\<forall>a \<in> set (butlast rs). plausible a) \<and>
     (if inLongBlock then rangeLen (last rs) = 0 \<and> \<not> lastRangeComplete \<and> 2 \<le> length rs
      else plausible (last rs) \<and> (lastRangeComplete \<or> length rs = 1))"

lemma rangeLen_simps:
  "rangeLen \<lparr>First = l - len + 1, Last = l\<rparr> = len"
  "rangeLen \<lparr>First = First a - (g + len), Last = Last a - g\<rparr> = rangeLen a + len"
  by (simp_all add: rangeLen_def)

lemma ackBlockStep_inv:
  assumes "block_inv st" "unat len < 2 ^ 48"
  shows "block_inv (ackBlockStep g len st) \<and> 2 \<le> length (fst (ackBlockStep g len st))"
proof -
  obtain rs y il c where st: "st = (rs @ [y], il, c)"
    using assms(1) by (cases st) (metis block_inv.simps rev_exhaust)
  have pos: "(0 < len) = (len \<noteq> 0)" by (simp add: word_gt_0)
  show ?thesis
  proof (cases il)
    case True
    then have "First y = Last y + 1"
      using assms(1) by (simp add: st rangeLen_def flip: add_diff_eq diff_eq_eq) (simp add: algebra_simps)
    then show ?thesis using True assms pos unfolding st
      by (cases "len = 0") (simp_all add: plausible_def rangeLen_def)
  next
    case False
    then show ?thesis using assms pos unfolding st
      by (cases "len = 0") (auto simp: Let_def plausible_def rangeLen_def butlast_append algebra_simps)
  qed
qed

lemma fold_ackBlockStep_inv:
  "block_inv st \<Longrightarrow> \<forall>(g, l) \<in> set ps. unat l < 2 ^ 48 \<Longrightarrow>
   block_inv (fold (\<lambda>(g, l). ackBlockStep g l) ps st) \<and>
   (ps \<noteq> [] \<longrightarrow> 2 \<le> length (fst (fold (\<lambda>(g, l). ackBlockStep g l) ps st)))"
proof (induction ps arbitrary: st)
  case (Cons p ps)
  obtain g l where p: "p = (g, l)" by (cases p)
  have "block_inv (ackBlockStep g l st)" "2 \<le> length (fst (ackBlockStep g l st))"
    using ackBlockStep_inv [OF Cons.prems(1)] Cons.prems(2) by (auto simp: p)
  with Cons.IH [of "ackBlockStep g l st"] Cons.prems(2) show ?case
    by (cases "ps = []") (auto simp: p)
qed simp

lemma ranges_descend_desc_ranges:
  "ranges_descend rs \<Longrightarrow> \<forall>a \<in> set rs. First a \<le> Last a \<and> plausible a \<Longrightarrow>
   rs \<noteq> [] \<Longrightarrow> unat (First (hd rs)) < 2 ^ 48 \<Longrightarrow> desc_ranges rs"
proof (induction rs)
  case (Cons a rs)
  show ?case
  proof (cases rs)
    case (Cons b bs)
    have ab: "First b < First a" "Last b + 1 < First a" "ranges_descend (b # bs)"
      using Cons.prems(1) Cons by (auto split: if_splits)
    have b: "plausible b" "unat (First b) < 2 ^ 48"
      using Cons.prems(2,4) ab(1) Cons by (auto simp: unat_simps)
    have "Last b + 1 = First b + rangeLen b" by (simp add: rangeLen_def)
    moreover have sum: "unat (First b + rangeLen b) = unat (First b) + unat (rangeLen b)"
      using b by (intro unat_add_no_wrap) (simp add: plausible_def)
    ultimately have l1: "unat (Last b + 1) = unat (First b) + unat (rangeLen b)" by simp
    then have "Last b + 1 \<noteq> 0" using b(1) by (auto simp: plausible_def unat_simps)
    then have "unat (Last b + 1) = unat (Last b) + 1" using unatSuc [of "Last b"] by (simp add: add.commute)
    then have "unat (Last b) + 1 < unat (First a)" using ab(2) by (simp add: unat_simps)
    moreover have "desc_ranges (b # bs)"
      using Cons.IH ab(3) Cons.prems(2) b Cons by simp
    ultimately show ?thesis using Cons.prems(2) Cons by simp
  qed (use Cons.prems in simp)
qed simp

lemma parseAckRanges_wf:
  assumes "parseAckRanges v (of_nat n) miss nb largest abl r = Inr ((lowest, rs), r')"
    and "n \<le> 6" "unat largest < 2 ^ 48" "miss \<Longrightarrow> nb \<noteq> 0"
  shows "ack_wf largest lowest rs" "rs \<noteq> [] \<longleftrightarrow> miss"
proof -
  have abl: "\<not> (largest > 0 \<and> abl < 1)" "abl \<le> largest"
    using assms(1) by (auto simp: parseAckRanges_def not_less split: if_splits)
  have "ack_wf largest lowest rs \<and> (rs \<noteq> [] \<longleftrightarrow> miss)"
  proof (cases miss)
    case False
    show ?thesis
    proof (cases "largest = 0")
      case True
      then show ?thesis using assms(1) False
        by (auto simp: parseAckRanges_def ack_wf_def validateAckRanges_def split: if_splits)
    next
      case nz: False
      then have "1 \<le> unat abl" "unat abl \<le> unat largest"
        using abl by (auto simp: unat_simps word_unat_eq_iff)
      then have "unat (largest - (abl - 1)) = unat largest - (unat abl - 1)"
        by (simp add: unat_diff_no_wrap)
      then have "largest + 1 - abl \<le> largest" by (simp add: unat_simps algebra_simps)
      then show ?thesis using assms(1) False nz
        by (auto simp: parseAckRanges_def ack_wf_def split: if_splits)
    qed
  next
    case True
    define a where "a = \<lparr>First = largest - abl + 1, Last = largest\<rparr>"
    obtain x where "parseAckBlocks v (of_nat n) (unat nb) ([a], False, False) r = Inr x"
      using assms(1) True
      by (cases "parseAckBlocks v (of_nat n) (unat nb) ([a], False, False) r")
        (auto simp: parseAckRanges_def a_def split: if_splits)
    then obtain rs0 il c r1 where
        p: "parseAckBlocks v (of_nat n) (unat nb) ([a], False, False) r = Inr ((rs0, il, c), r1)"
      by (metis prod_cases4 prod.collapse)
    then have rs: "rs = (if \<not> c then butlast rs0 else rs0)" "rs \<noteq> []" "lowest = First (last rs)"
        and val: "validateAckRanges largest rs"
      using assms(1) True by (auto simp: parseAckRanges_def Let_def simp flip: a_def split: if_splits)
    obtain ps where ps: "length ps = unat nb" "\<forall>(g, l) \<in> set ps. unat l < 256 ^ n"
        "(rs0, il, c) = fold (\<lambda>(g, l). ackBlockStep g l) ps ([a], False, False)"
      using parseAckBlocks_inv [OF _ p] assms(2) by auto
    have "(256 :: nat) ^ n \<le> 256 ^ 6" using assms(2) by (intro power_increasing) simp_all
    then have ps48: "\<forall>(g, l) \<in> set ps. unat l < 2 ^ 48" using ps(2) by fastforce
    have len: "2 \<le> length rs"
      using val rs(2) by (cases rs; cases "tl rs") (auto simp: validateAckRanges_def)
    have wf: "Last (hd rs) = largest" "\<forall>a \<in> set rs. First a \<le> Last a" "ranges_descend rs"
      using val len by (auto simp: validateAckRanges_def list_ex_iff hd_conv_nth not_less split: if_splits)
    obtain x y ys where "rs = x # y # ys" using len by (cases rs; cases "tl rs") auto
    then have "First y < First x" "First x \<le> largest" using wf by (auto split: if_splits)
    then have "largest > 0" by (auto simp: unat_simps)
    then have "abl > 0" "unat abl < 2 ^ 48" using abl assms(3) by (auto simp: unat_simps)
    then have "block_inv ([a], False, False)" by (simp add: a_def plausible_def rangeLen_simps)
    with fold_ackBlockStep_inv [OF _ ps48] have "block_inv (rs0, il, c)" unfolding ps(3) by blast
    then have "\<forall>a \<in> set rs. plausible a"
      using rs(1) by (cases rs0 rule: rev_cases) (auto split: if_splits)
    moreover have "unat (First (hd rs)) \<le> unat largest"
      using wf hd_in_set [OF rs(2)] by (auto simp: unat_simps)
    ultimately have "desc_ranges rs"
      using wf rs(2) assms(3) by (intro ranges_descend_desc_ranges) auto
    then show ?thesis using True rs len wf by (simp add: ack_wf_def)
  qed
  then show "ack_wf largest lowest rs" "rs \<noteq> [] \<longleftrightarrow> miss" by auto
qed

lemma fold_ackBlockStep_length:
  "fst st \<noteq> [] \<Longrightarrow> length (fst st) \<le> length (fst (fold (\<lambda>(g, l). ackBlockStep g l) ps st))"
proof (induction ps arbitrary: st)
  case (Cons p ps)
  obtain rs il c where st: "st = (rs, il, c)" by (cases st)
  have "length (fst st) \<le> length (fst (ackBlockStep (fst p) (snd p) st))"
    using Cons.prems by (auto simp: st Let_def)
  also have "\<dots> \<le> length (fst (fold (\<lambda>(g, l). ackBlockStep g l) ps (ackBlockStep (fst p) (snd p) st)))"
    by (rule Cons.IH) (rule ackBlockStep_nonempty)
  finally show ?case by (cases p) simp
qed simp

lemma parseAckRanges_no_panic:
  assumes "n < 8" "miss \<Longrightarrow> nb \<noteq> 0"
  shows "no_panic (parseAckRanges v (of_nat n) miss nb largest abl r)"
  unfolding no_panic_iff
proof (rule allI, rule notI)
  fix m
  assume p: "parseAckRanges v (of_nat n) miss nb largest abl r = Inl (Panic m)"
  define a where "a = \<lparr>First = largest - abl + 1, Last = largest\<rparr>"
  have "parseAckBlocks v (of_nat n) (unat nb) ([a], False, False) r \<noteq> Inl (Panic m)"
    using assms(1) by (intro parseAckBlocks_no_panic) simp_all
  then obtain rs il c r1 where
      q: "miss" "parseAckBlocks v (of_nat n) (unat nb) ([a], False, False) r = Inr ((rs, il, c), r1)"
      "(if \<not> c then butlast rs else rs) = []"
    using p by (auto simp: parseAckRanges_def bindE_eq_Inl_iff Let_def ErrInvalidAckRanges_def
        ErrInvalidFirstAckRange_def simp flip: a_def split: if_splits)
  then obtain ps where ps: "length ps = unat nb" "(rs, il, c) = fold (\<lambda>(g, l). ackBlockStep g l) ps ([a], False, False)"
    using parseAckBlocks_inv [OF assms(1) q(2)] by auto
  have "nb \<noteq> 0" using assms(2) q(1) by blast
  then have "length ps \<noteq> 0" using ps(1) by (simp add: unat_eq_0)
  then obtain g l ps' where "ps = (g, l) # ps'" by (cases ps) auto
  then have "(rs, il, c) = fold (\<lambda>(g, l). ackBlockStep g l) ps' (ackBlockStep g l ([a], False, False))"
    using ps(2) by simp
  then have "2 \<le> length rs"
    using fold_ackBlockStep_length [of "ackBlockStep g l ([a], False, False)" ps']
    by (auto simp: Let_def dest: arg_cong [of _ _ fst])
  then show False using q(3) by (cases rs rule: rev_cases) (auto split: if_splits)
qed

end
