(* ===== verification/Ack_Frame.thy ===== *)
theory Ack_Frame
imports Ack_Ranges Wire_Frame
begin

text \<open>
  The ACK frame of \<^verbatim>\<open>internal/wire/ack_frame.go\<close>. The writer takes the current time as an
  argument, because it computes the ACK delay with \<^verbatim>\<open>time.Since\<close>, and returns the frame with
  the delay it stores there together with the bytes it appends.
\<close>

record AckFrame =
  af_PathID :: PathID
  af_LargestAcked :: PacketNumber
  af_LowestAcked :: PacketNumber
  af_AckRanges :: "AckRange list"
  af_PacketReceivedTime :: gotime
  af_DelayTime :: duration

definition af_HasMissingRanges :: "AckFrame \<Rightarrow> bool" where
  "af_HasMissingRanges f = (length (af_AckRanges f) > 0)"

definition af_AcksPacket :: "AckFrame \<Rightarrow> PacketNumber \<Rightarrow> bool" where
  "af_AcksPacket f p = acksPacket (af_LargestAcked f) (af_LowestAcked f) (af_AckRanges f) p"

definition af_deltaLen :: "AckFrame \<Rightarrow> PacketNumberLen" where
  "af_deltaLen f =
     getMissingSequenceNumberDeltaLen (af_LargestAcked f) (af_LowestAcked f) (af_AckRanges f)"

definition mask48 :: "uint64 \<Rightarrow> uint64" where
  "mask48 x = x AND (push_bit 48 1 - 1)"

text \<open>The type byte, from the two field lengths and the two flags.\<close>

definition ackTypeByte :: "uint8 \<Rightarrow> PacketNumberLen \<Rightarrow> PacketNumberLen \<Rightarrow> uint8" where
  "ackTypeByte typeByte largestAckedLen deltaLen =
     (let typeByte = (if largestAckedLen \<noteq> PacketNumberLen1
                      then typeByte XOR push_bit 2 (largestAckedLen div 2) else typeByte)
      in if deltaLen \<noteq> PacketNumberLen1 then typeByte XOR (deltaLen div 2) else typeByte)"

definition af_typeByte :: "AckFrame \<Rightarrow> uint8" where
  "af_typeByte f =
     (let typeByte = ackTypeByte 0x40 (GetPacketNumberLength (af_LargestAcked f)) (af_deltaLen f);
          typeByte = (if af_HasMissingRanges f then typeByte OR 0x20 else typeByte)
      in if af_PathID f \<noteq> InitialPathID then typeByte OR 0x10 else typeByte)"

definition af_Write :: "VersionNumber \<Rightarrow> gotime \<Rightarrow> AckFrame \<Rightarrow> (AckFrame \<times> bytes) result" where
  "af_Write version now f =
     (let path = (if af_PathID f \<noteq> InitialPathID then [af_PathID f] else []);
          delay = time_Sub now (af_PacketReceivedTime f);
          numRanges = (if af_HasMissingRanges f then numWritableNackRanges (af_AckRanges f) else 0)
      in bindE (writePacketNumberLen mask48 version
                  (GetPacketNumberLength (af_LargestAcked f)) (af_LargestAcked f)) (\<lambda>largest.
         if numRanges > 0xFF then Inl (Panic ''AckFrame: Too many ACK ranges'')
         else bindE (writeAckBlocks (writePacketNumberLen mask48 version (af_deltaLen f))
                  ''BUG: Inconsistent number of ACK ranges written''
                  (af_LargestAcked f) (af_LowestAcked f) (af_AckRanges f)) (\<lambda>blocks.
         Inr (f\<lparr>af_DelayTime := delay\<rparr>,
              [af_typeByte f] @ path @ largest
              @ WriteUfloat16 (GetByteOrder version) (uint64_of_duration (delay sdiv Microsecond))
              @ (if af_HasMissingRanges f then [ucast (numRanges - 1)] else [])
              @ blocks @ [0]))))"

text \<open>The parser skips timestamps; the writer never sends any.\<close>

fun skipTimestampLoop :: "VersionNumber \<Rightarrow> nat \<Rightarrow> unit reader" where
  "skipTimestampLoop version 0 r = Inr ((), r)"
| "skipTimestampLoop version (Suc n) r =
     bindE (ReadByte r) (\<lambda>(_, r).
     bindE (ReadUint16 (GetByteOrder version) r) (\<lambda>(_, r).
     skipTimestampLoop version n r))"

definition skipTimestamps :: "VersionNumber \<Rightarrow> uint8 \<Rightarrow> unit reader" where
  "skipTimestamps version numTimestamp r =
     (if numTimestamp > 0
      then bindE (ReadByte r) (\<lambda>(_, r).
           bindE (ReadUint32 (GetByteOrder version) r) (\<lambda>(_, r).
           skipTimestampLoop version (unat numTimestamp - 1) r))
      else Inr ((), r))"

definition fieldLen :: "uint8 \<Rightarrow> uint8" where
  "fieldLen code = (let len = 2 * code in if len = 0 then 1 else len)"

definition parseAckBody ::
    "VersionNumber \<Rightarrow> bool \<Rightarrow> bool \<Rightarrow> uint8 \<Rightarrow> uint8 \<Rightarrow> AckFrame reader" where
  "parseAckBody version hasMissingRanges hasPathID largestAckedLen deltaLen r =
     bindE (if hasPathID then ReadByte r else Inr (0, r)) (\<lambda>(pathID, r).
     bindE (ReadUintN (GetByteOrder version) largestAckedLen r) (\<lambda>(largestAcked, r).
     bindE (ReadUfloat16 (GetByteOrder version) r) (\<lambda>(delay, r).
     bindE (if hasMissingRanges then ReadByte r else Inr (0, r)) (\<lambda>(numAckBlocks, r).
     if hasMissingRanges \<and> numAckBlocks = 0 then Inl ErrInvalidAckRanges
     else bindE (ReadUintN (GetByteOrder version) deltaLen r) (\<lambda>(ackBlockLength, r).
     bindE (parseAckRanges version deltaLen hasMissingRanges numAckBlocks largestAcked ackBlockLength r)
       (\<lambda>((lowestAcked, ackRanges), r).
     bindE (ReadByte r) (\<lambda>(numTimestamp, r).
     bindE (skipTimestamps version numTimestamp r) (\<lambda>(_, r).
     Inr (\<lparr>af_PathID = pathID, af_LargestAcked = largestAcked, af_LowestAcked = lowestAcked,
           af_AckRanges = ackRanges, af_PacketReceivedTime = 0,
           af_DelayTime = uint delay * Microsecond\<rparr>, r)))))))))"

definition ParseAckFrame :: "VersionNumber \<Rightarrow> AckFrame reader" where
  "ParseAckFrame version r =
     bindE (ReadByte r) (\<lambda>(typeByte, r).
     parseAckBody version (typeByte AND 0x20 = 0x20) (typeByte AND 0x10 = 0x10)
       (fieldLen (drop_bit 2 (typeByte AND 0x0C))) (fieldLen (typeByte AND 0x03)) r)"

definition af_MinLength :: "AckFrame \<Rightarrow> ByteCount" where
  "af_MinLength f =
     (let len = 1 + 2 + 1 + ucast (GetPacketNumberLength (af_LargestAcked f));
          deltaLen = ucast (af_deltaLen f);
          len = (if af_HasMissingRanges f
                 then len + (1 + deltaLen) * numWritableNackRanges (af_AckRanges f)
                 else len + deltaLen)
      in if af_PathID f \<noteq> InitialPathID then len + 1 else len)"

section \<open>The fields of the type byte\<close>

lemma mask48_id: "unat x < 2 ^ 48 \<Longrightarrow> mask48 x = x"
proof -
  assume "unat x < 2 ^ 48"
  then have "take_bit 48 x = x"
    by (simp add: word_unat_eq_iff unsigned_take_bit_eq take_bit_nat_eq_self)
  moreover have "mask48 x = take_bit 48 x"
    by (simp add: mask48_def take_bit_eq_mask mask_eq_exp_minus_1 push_bit_eq_mult)
  ultimately show ?thesis by simp
qed

lemma writePacketNumberLen_fits:
  assumes "unat x < 2 ^ 48 \<Longrightarrow> msk x = x" "valid_PacketNumberLen l" "unat x < 256 ^ unat l"
  shows "writePacketNumberLen msk v l x = Inr (version_bytes v (unat l) (unat x))"
  using assms
  by (auto simp: valid_PacketNumberLen_def writePacketNumberLen_def PacketNumberLen_defs
      vo.write16 vo.write32 vo.write48 unat_ucast_shrink)

interpretation ackw: block_writer v "writePacketNumberLen mask48 v" for v
  by unfold_locales (rule writePacketNumberLen_fits, simp_all add: mask48_id)

lemma valid_len_set: "valid_PacketNumberLen l \<longleftrightarrow> l \<in> {1, 2, 4, 6}"
  by (auto simp: valid_PacketNumberLen_def PacketNumberLen_defs)

lemma ackTypeByte_fields:
  assumes "valid_PacketNumberLen l" "valid_PacketNumberLen d" "x = 0 \<or> x = 0x10 \<or> x = 0x20 \<or> x = 0x30"
  defines "t \<equiv> ackTypeByte 0x40 l d OR x"
  shows "fieldLen (drop_bit 2 (t AND 0x0C)) = l" "fieldLen (t AND 0x03) = d"
    "t AND 0x20 = x AND 0x20" "t AND 0x10 = x AND 0x10"
  using assms(1-3) unfolding valid_len_set t_def
  by (elim insertE disjE emptyE; simp add: ackTypeByte_def fieldLen_def PacketNumberLen_defs)+

lemma af_typeByte_eq:
  "af_typeByte f = ackTypeByte 0x40 (GetPacketNumberLength (af_LargestAcked f)) (af_deltaLen f)
     OR ((if af_AckRanges f \<noteq> [] then 0x20 else 0) OR (if af_PathID f \<noteq> 0 then 0x10 else 0))"
  by (simp add: af_typeByte_def af_HasMissingRanges_def Let_def InitialPathID_def or.assoc)

lemma ParseAckFrame_typeByte:
  "ParseAckFrame v (af_typeByte f # r) =
     parseAckBody v (af_AckRanges f \<noteq> []) (af_PathID f \<noteq> 0)
       (GetPacketNumberLength (af_LargestAcked f)) (af_deltaLen f) r"
proof -
  define x :: uint8 where
    "x = (if af_AckRanges f \<noteq> [] then 0x20 else 0) OR (if af_PathID f \<noteq> 0 then 0x10 else 0)"
  have x: "x = 0 \<or> x = 0x10 \<or> x = 0x20 \<or> x = 0x30"
    and flags: "(x AND 0x20 = 0x20) = (af_AckRanges f \<noteq> [])" "(x AND 0x10 = 0x10) = (af_PathID f \<noteq> 0)"
    by (auto simp: x_def)
  note fields = ackTypeByte_fields [OF GetPacketNumberLength_valid deltaLen_valid x,
      of "af_LargestAcked f" "af_LargestAcked f" "af_LowestAcked f" "af_AckRanges f",
      folded af_deltaLen_def, unfolded x_def, folded af_typeByte_eq, folded x_def]
  show ?thesis
    unfolding ParseAckFrame_def ReadByte.simps bindE.simps prod.case fields flags ..
qed

text \<open>The bytes of a well-formed frame, and what the parser makes of its blocks.\<close>

definition af_bytes :: "VersionNumber \<Rightarrow> gotime \<Rightarrow> AckFrame \<Rightarrow> bytes \<Rightarrow> bytes" where
  "af_bytes v now f bs =
     [af_typeByte f] @ (if af_PathID f \<noteq> 0 then [af_PathID f] else [])
      @ version_bytes v (unat (GetPacketNumberLength (af_LargestAcked f))) (unat (af_LargestAcked f))
      @ WriteUfloat16 (GetByteOrder v)
          (uint64_of_duration (time_Sub now (af_PacketReceivedTime f) sdiv Microsecond))
      @ (if af_AckRanges f \<noteq> [] then [ucast (numWritableNackRanges (af_AckRanges f) - 1)] else [])
      @ bs @ [0]"

definition af_writable :: "AckFrame \<Rightarrow> bool" where
  "af_writable f \<longleftrightarrow>
     ack_wf (af_LargestAcked f) (af_LowestAcked f) (af_AckRanges f) \<and>
     unat (af_LargestAcked f) < 2 ^ 48 \<and>
     (if af_AckRanges f = [] then 1 \<le> af_LowestAcked f
      else 2 \<le> length (writtenRanges (af_AckRanges f)))"

lemma write_LargestAcked:
  assumes "unat L < 2 ^ 48"
  defines "l \<equiv> GetPacketNumberLength L"
  shows "writePacketNumberLen mask48 v l L = Inr (version_bytes v (unat l) (unat L))"
    and "ReadUintN (GetByteOrder v) l (version_bytes v (unat l) (unat L) @ r) = Inr (L, r)"
proof -
  have lv: "valid_PacketNumberLen l" by (simp add: l_def)
  have fits: "unat L < 256 ^ unat l"
    using GetPacketNumberLength_fits [OF assms(1)] by (simp add: power_mult l_def)
  show "writePacketNumberLen mask48 v l L = Inr (version_bytes v (unat l) (unat L))"
    by (rule ackw.writeLen_fits [OF lv fits])
  show "ReadUintN (GetByteOrder v) l (version_bytes v (unat l) (unat L) @ r) = Inr (L, r)"
    using vo.readN_enc [of "unat l" v "unat L" r] fits valid_PacketNumberLen_cases [OF lv] by simp
qed

lemma af_Write_bytes:
  assumes "af_writable f"
  defines "rs \<equiv> af_AckRanges f"
    and "nb \<equiv> (if af_AckRanges f = [] then 0 else ucast (numWritableNackRanges (af_AckRanges f) - 1) :: uint8)"
  obtains bs abl r1 where
    "af_Write v now f =
       Inr (f\<lparr>af_DelayTime := time_Sub now (af_PacketReceivedTime f)\<rparr>, af_bytes v now f bs)"
    "length bs = (if rs = [] then unat (af_deltaLen f)
                  else (1 + unat (af_deltaLen f)) * unat (numWritableNackRanges rs) - 1)"
    "ReadUintN (GetByteOrder v) (af_deltaLen f) (bs @ 0 # r) = Inr (abl, r1)"
    "parseAckRanges v (af_deltaLen f) (rs \<noteq> []) nb (af_LargestAcked f) abl r1 =
       Inr ((if rs = [] then af_LowestAcked f else First (last (writtenRanges rs)), writtenRanges rs), 0 # r)"
    "rs \<noteq> [] \<Longrightarrow> nb \<noteq> 0"
proof -
  have c: "ack_wf (af_LargestAcked f) (af_LowestAcked f) rs" "unat (af_LargestAcked f) < 2 ^ 48"
    "if rs = [] then 1 \<le> af_LowestAcked f else 2 \<le> length (writtenRanges rs)"
    using assms(1) by (auto simp: af_writable_def rs_def)
  obtain bs where bs: "writeAckBlocks (writePacketNumberLen mask48 v (af_deltaLen f))
      ''BUG: Inconsistent number of ACK ranges written'' (af_LargestAcked f) (af_LowestAcked f) rs = Inr bs"
    "length bs = (if rs = [] then unat (af_deltaLen f)
                  else (1 + unat (af_deltaLen f)) * unat (numWritableNackRanges rs) - 1)"
    "bindE (ReadUintN (GetByteOrder v) (af_deltaLen f) (bs @ 0 # r))
       (\<lambda>(abl, r). parseAckRanges v (af_deltaLen f) (rs \<noteq> []) nb (af_LargestAcked f) abl r) =
     Inr ((if rs = [] then af_LowestAcked f else First (last (writtenRanges rs)), writtenRanges rs), 0 # r)"
    "rs \<noteq> [] \<Longrightarrow> nb \<noteq> 0" "numWritableNackRanges rs \<le> 0xFF"
    using ackw.blocks_round_trip [OF c, where thesis = thesis and v = v and r = "0 # r"
        and bug = "''BUG: Inconsistent number of ACK ranges written''"]
    unfolding af_deltaLen_def nb_def rs_def by blast
  have "af_Write v now f =
      Inr (f\<lparr>af_DelayTime := time_Sub now (af_PacketReceivedTime f)\<rparr>, af_bytes v now f bs)"
    using bs(1,5) by (simp add: af_Write_def write_LargestAcked [OF c(2)] Let_def af_HasMissingRanges_def
        InitialPathID_def af_bytes_def rs_def not_less)
  moreover obtain abl r1 where "ReadUintN (GetByteOrder v) (af_deltaLen f) (bs @ 0 # r) = Inr (abl, r1)"
    "parseAckRanges v (af_deltaLen f) (rs \<noteq> []) nb (af_LargestAcked f) abl r1 =
       Inr ((if rs = [] then af_LowestAcked f else First (last (writtenRanges rs)), writtenRanges rs), 0 # r)"
    using bs(3) by (auto simp: bindE_eq_Inr_iff)
  ultimately show thesis using bs(2,4) by (intro that)
qed

text \<open>What arrives of a frame.\<close>

definition af_received :: "gotime \<Rightarrow> AckFrame \<Rightarrow> AckFrame" where
  "af_received now f =
     \<lparr>af_PathID = af_PathID f, af_LargestAcked = af_LargestAcked f,
      af_LowestAcked = (if af_AckRanges f = [] then af_LowestAcked f
                        else First (last (writtenRanges (af_AckRanges f)))),
      af_AckRanges = writtenRanges (af_AckRanges f), af_PacketReceivedTime = 0,
      af_DelayTime = uint (decodeUfloat16 (encodeUfloat16 (uint64_of_duration
        (time_Sub now (af_PacketReceivedTime f) sdiv Microsecond)))) * Microsecond\<rparr>"

lemma af_round_trip:
  assumes "af_writable f"
  shows "\<exists>bs. af_Write v now f =
      Inr (f\<lparr>af_DelayTime := time_Sub now (af_PacketReceivedTime f)\<rparr>, bs) \<and>
    ParseAckFrame v (bs @ r) = Inr (af_received now f, r)"
proof -
  obtain bs abl r1 where w:
    "af_Write v now f =
       Inr (f\<lparr>af_DelayTime := time_Sub now (af_PacketReceivedTime f)\<rparr>, af_bytes v now f bs)"
    and p: "ReadUintN (GetByteOrder v) (af_deltaLen f) (bs @ 0 # r) = Inr (abl, r1)"
    "parseAckRanges v (af_deltaLen f) (af_AckRanges f \<noteq> [])
       (if af_AckRanges f = [] then 0 else ucast (numWritableNackRanges (af_AckRanges f) - 1))
       (af_LargestAcked f) abl r1 =
       Inr ((if af_AckRanges f = [] then af_LowestAcked f
             else First (last (writtenRanges (af_AckRanges f))), writtenRanges (af_AckRanges f)), 0 # r)"
    "af_AckRanges f \<noteq> [] \<Longrightarrow> (if af_AckRanges f = [] then 0
       else ucast (numWritableNackRanges (af_AckRanges f) - 1)) \<noteq> (0 :: uint8)"
    by (rule af_Write_bytes [OF assms, where v = v and now = now and r = r]) blast
  have L: "unat (af_LargestAcked f) < 2 ^ 48" using assms by (simp add: af_writable_def)
  have path: "(if af_PathID f \<noteq> 0 then ReadByte ((if af_PathID f \<noteq> 0 then [af_PathID f] else []) @ r')
      else Inr (0, (if af_PathID f \<noteq> 0 then [af_PathID f] else []) @ r')) = Inr (af_PathID f, r')" for r'
    by simp
  show ?thesis
    unfolding w af_bytes_def af_received_def
    by (intro exI conjI, rule refl)
      (use p in \<open>simp add: ParseAckFrame_typeByte parseAckBody_def path write_LargestAcked [OF L]
        skipTimestamps_def split: if_splits\<close>)
qed

lemma length_af_Write:
  assumes "af_writable f"
  shows "\<exists>f' bs. af_Write v now f = Inr (f', bs) \<and> length bs = unat (af_MinLength f)"
proof -
  let ?rs = "af_AckRanges f" and ?d = "af_deltaLen f" and ?l = "GetPacketNumberLength (af_LargestAcked f)"
  let ?nw = "numWritableNackRanges ?rs"
  obtain bs where w: "af_Write v now f =
       Inr (f\<lparr>af_DelayTime := time_Sub now (af_PacketReceivedTime f)\<rparr>, af_bytes v now f bs)"
    and len: "length bs = (if ?rs = [] then unat ?d else (1 + unat ?d) * unat ?nw - 1)"
    by (rule af_Write_bytes [OF assms, where v = v and now = now]) blast
  let ?total = "4 + unat ?l + (if ?rs = [] then unat ?d else (1 + unat ?d) * unat ?nw)
      + (if af_PathID f \<noteq> 0 then 1 else 0)"
  have wf: "?rs \<noteq> [] \<Longrightarrow> desc_ranges ?rs"
    using assms by (auto simp: af_writable_def ack_wf_def split: if_splits)
  have nw: "?rs \<noteq> [] \<Longrightarrow> 1 \<le> unat ?nw" "?rs \<noteq> [] \<Longrightarrow> unat ?nw \<le> 255"
    using numWritableNackRanges_bounds wf by blast+
  have d8: "unat ?d < 8" "unat ?l < 8"
    using valid_PacketNumberLen_cases deltaLen_valid GetPacketNumberLength_valid
    unfolding af_deltaLen_def by blast+
  have total: "length (af_bytes v now f bs) = ?total"
    using len nw by (auto simp: af_bytes_def vo.length_enc)
  have min: "af_MinLength f = of_nat ?total"
    by (simp add: af_MinLength_def Let_def af_HasMissingRanges_def InitialPathID_def ring_distribs)
  have "?total < 18446744073709551616"
  proof (cases "?rs = []")
    case False
    have "(1 + unat ?d) * unat ?nw \<le> 8 * 255" using nw(2) False d8 by (intro mult_mono) auto
    then show ?thesis using False d8 by auto
  qed (use d8 in auto)
  then have "length (af_bytes v now f bs) = unat (af_MinLength f)"
    unfolding total min by (rule unat_of_nat64 [symmetric])
  then show ?thesis using w by blast
qed

lemma fieldLen_cases:
  obtains n where "n \<in> {1, 2, 4, 6 :: nat}" "fieldLen (x AND 3) = of_nat n"
proof -
  have "x AND 3 = take_bit 2 x" by (simp add: take_bit_eq_mask mask_eq_exp_minus_1)
  then have "unat (x AND 3) = unat x mod 4" by (simp add: take_bit_eq_mod unat_mod)
  then have "unat (x AND 3) \<in> {0, 1, 2, 3}" by auto
  then have "x AND 3 = 0 \<or> x AND 3 = 1 \<or> x AND 3 = 2 \<or> x AND 3 = 3"
    by (auto simp: word_unat_eq_iff)
  then show thesis using that [of 1] that [of 2] that [of 4] that [of 6]
    by (auto simp: fieldLen_def)
qed

lemma no_panic_skipTimestampLoop: "no_panic (skipTimestampLoop v n r)"
  by (induction n arbitrary: r) (auto intro!: no_panic_intros)

lemma no_panic_skipTimestamps [simp]: "no_panic (skipTimestamps v n r)"
  by (auto simp: skipTimestamps_def intro!: no_panic_intros no_panic_skipTimestampLoop)

lemma drop_bit_2_and: "drop_bit 2 (x AND 0xC) = drop_bit 2 x AND (3 :: uint8)"
  by simp

lemma no_panic_parseAckBody:
  assumes "n \<le> 6" "k \<le> 6"
  shows "no_panic (parseAckBody v miss path (of_nat n) (of_nat k) r)"
  unfolding parseAckBody_def using assms
  by (auto intro!: no_panic_intros parseAckRanges_no_panic simp: ErrInvalidAckRanges_def)

lemma parseAckBody_wf:
  assumes "parseAckBody v miss path (of_nat n) (of_nat k) r = Inr (f, r')" "n \<le> 6" "k \<le> 6"
  shows "ack_wf (af_LargestAcked f) (af_LowestAcked f) (af_AckRanges f)"
    "unat (af_LargestAcked f) < 2 ^ 48"
proof -
  obtain r0 r1 r2 r3 nb abl where
      L: "ReadUintN (GetByteOrder v) (of_nat n) r0 = Inr (af_LargestAcked f, r1)"
      and p: "parseAckRanges v (of_nat k) miss nb (af_LargestAcked f) abl r2 =
        Inr ((af_LowestAcked f, af_AckRanges f), r3)"
      and nb: "miss \<Longrightarrow> nb \<noteq> 0"
    using assms(1) unfolding parseAckBody_def
    by (auto simp: bindE_eq_Inr_iff split: if_splits)
  have "unat (af_LargestAcked f) < 256 ^ n" using vo.readN_bound [OF L] assms(2) by simp
  also have "(256 :: nat) ^ n \<le> 256 ^ 6" using assms(2) by (intro power_increasing) simp_all
  finally show L48: "unat (af_LargestAcked f) < 2 ^ 48" by simp
  show "ack_wf (af_LargestAcked f) (af_LowestAcked f) (af_AckRanges f)"
    by (rule parseAckRanges_wf(1) [OF p assms(3) L48 nb])
qed

lemma ParseAckFrame_wf:
  "case ParseAckFrame v r of
     Inl e \<Rightarrow> \<not> is_panic e
   | Inr (f, _) \<Rightarrow> ack_wf (af_LargestAcked f) (af_LowestAcked f) (af_AckRanges f)
       \<and> unat (af_LargestAcked f) < 2 ^ 48"
proof (cases r)
  case Nil
  then show ?thesis by (simp add: ParseAckFrame_def is_panic_def)
next
  case (Cons t r')
  obtain n where n: "n \<in> {1, 2, 4, 6 :: nat}" "fieldLen (drop_bit 2 t AND 3) = of_nat n"
    by (rule fieldLen_cases)
  obtain k where k: "k \<in> {1, 2, 4, 6 :: nat}" "fieldLen (t AND 3) = of_nat k"
    by (rule fieldLen_cases)
  have p: "ParseAckFrame v r =
      parseAckBody v (t AND 0x20 = 0x20) (t AND 0x10 = 0x10) (of_nat n) (of_nat k) r'"
    unfolding Cons ParseAckFrame_def drop_bit_2_and by (simp add: n k)
  have "n \<le> 6" "k \<le> 6" using n k by auto
  then show ?thesis
    using no_panic_parseAckBody [of n k v "t AND 0x20 = 0x20" "t AND 0x10 = 0x10" r'] parseAckBody_wf
    by (auto simp: p no_panic_def split: sum.splits)
qed

interpretation ack: wire_frame "\<lambda>v f. bindE (af_Write v now f) (\<lambda>(_, bs). Inr bs)" ParseAckFrame
    "\<lambda>f. Inr (af_MinLength f)" af_writable "af_received now" for now
proof unfold_locales
  fix v f and r bs :: bytes
  show "no_panic (ParseAckFrame v r)"
    using ParseAckFrame_wf [of v r] by (auto simp: no_panic_def split: sum.splits)
  assume w: "af_writable f"
  show "\<exists>bs. bindE (af_Write v now f) (\<lambda>(_, bs). Inr bs) = Inr bs \<and>
      ParseAckFrame v (bs @ r) = Inr (af_received now f, r)"
    using af_round_trip [OF w, of v now r] by auto
  assume "bindE (af_Write v now f) (\<lambda>(_, bs). Inr bs) = Inr bs"
  then show "\<exists>n. Inr (af_MinLength f) = Inr n \<and> length bs = unat n"
    using length_af_Write [OF w, of v now] by auto
qed

text \<open>
  (C1) An ACK frame survives the wire. For a well-formed frame the write succeeds, and parsing
  restores the path, the largest packet number, and the acknowledged ranges: all of them if
  they fit, otherwise the longest prefix that the 255 blocks of a frame can hold, with the
  lowest packet number moved up. The delay comes back as the 16-bit float of its microseconds.
  The side conditions are that packet numbers fit into 48 bits, that a frame without
  gaps does not acknowledge packet 0, and that the first gap is not too long for 254 blocks. The frame takes exactly
  \<open>MinLength\<close> bytes.
\<close>

theorem ParseAckFrame_Write:
  assumes "af_writable f"
  shows "\<exists>bs. af_Write v now f =
      Inr (f\<lparr>af_DelayTime := time_Sub now (af_PacketReceivedTime f)\<rparr>, bs) \<and>
    length bs = unat (af_MinLength f) \<and>
    ParseAckFrame v (bs @ r) =
      Inr (\<lparr>af_PathID = af_PathID f, af_LargestAcked = af_LargestAcked f,
            af_LowestAcked = (if af_AckRanges f = [] then af_LowestAcked f
                              else First (last (writtenRanges (af_AckRanges f)))),
            af_AckRanges = writtenRanges (af_AckRanges f), af_PacketReceivedTime = 0,
            af_DelayTime = uint (decodeUfloat16 (encodeUfloat16 (uint64_of_duration
              (time_Sub now (af_PacketReceivedTime f) sdiv Microsecond)))) * Microsecond\<rparr>, r)"
  using af_round_trip [OF assms, of v now r] length_af_Write [OF assms, of v now]
  by (auto simp: af_received_def)

theorem ParseAckFrame_Write_witness:
  "\<exists>bs. af_Write 512 5000 \<lparr>af_PathID = 3, af_LargestAcked = 1000, af_LowestAcked = 2,
        af_AckRanges = [\<lparr>First = 990, Last = 1000\<rparr>, \<lparr>First = 2, Last = 300\<rparr>],
        af_PacketReceivedTime = 1000, af_DelayTime = 0\<rparr> =
      Inr (\<lparr>af_PathID = 3, af_LargestAcked = 1000, af_LowestAcked = 2,
        af_AckRanges = [\<lparr>First = 990, Last = 1000\<rparr>, \<lparr>First = 2, Last = 300\<rparr>],
        af_PacketReceivedTime = 1000, af_DelayTime = 4000\<rparr>, bs) \<and>
    length bs = unat (af_MinLength \<lparr>af_PathID = 3, af_LargestAcked = 1000, af_LowestAcked = 2,
        af_AckRanges = [\<lparr>First = 990, Last = 1000\<rparr>, \<lparr>First = 2, Last = 300\<rparr>],
        af_PacketReceivedTime = 1000, af_DelayTime = 0\<rparr>) \<and>
    ParseAckFrame 512 (bs @ [7]) =
      Inr (\<lparr>af_PathID = 3, af_LargestAcked = 1000, af_LowestAcked = 2,
        af_AckRanges = [\<lparr>First = 990, Last = 1000\<rparr>, \<lparr>First = 2, Last = 300\<rparr>],
        af_PacketReceivedTime = 0, af_DelayTime = 4000\<rparr>, [7])"
proof -
  define f where "f = \<lparr>af_PathID = 3, af_LargestAcked = 1000, af_LowestAcked = 2,
        af_AckRanges = [\<lparr>First = 990, Last = 1000\<rparr>, \<lparr>First = 2, Last = 300\<rparr>],
        af_PacketReceivedTime = 1000, af_DelayTime = 0\<rparr>"
  have "af_writable f"
    by (simp add: f_def af_writable_def ack_wf_def rnum_def rgap_def)
  moreover have "time_Sub 5000 1000 = 4000" by (simp add: time_Sub_def InfDuration_def)
  moreover have "decodeUfloat16 (encodeUfloat16 (uint64_of_duration (4000 sdiv Microsecond))) = 4"
    by (simp add: uint64_of_duration_def encodeUfloat16_def decodeUfloat16_def uFloat16_defs)
  ultimately show ?thesis
    using ParseAckFrame_Write [of f 512 5000 "[7]"] by (simp add: f_def rnum_def rgap_def)
qed

text \<open>
  (C22) Whatever bytes arrive, the ACK parser does not panic, and an accepted frame is
  well-formed: its ranges are non-empty, in descending order and separated by gaps, its ends
  are the largest and the lowest packet number, and its packet numbers fit into 48 bits.
\<close>

theorem ParseAckFrame_safe:
  "case ParseAckFrame v r of
     Inl e \<Rightarrow> \<not> is_panic e
   | Inr (f, _) \<Rightarrow> ack_wf (af_LargestAcked f) (af_LowestAcked f) (af_AckRanges f)
       \<and> unat (af_LargestAcked f) < 2 ^ 48"
  by (rule ParseAckFrame_wf)

end
