(* ===== verification/Control_Frames.thy ===== *)
theory Control_Frames
imports Wire_Frame Ack_Frame
begin

text \<open>
  The control frames of \<^verbatim>\<open>internal/wire\<close>: RST_STREAM, GOAWAY, CONNECTION_CLOSE, WINDOW_UPDATE,
  BLOCKED, PING, STOP_WAITING, PATHS and ADD_ADDRESS. Each kind of frame is shown to keep the
  promises of the locale \<open>wire_frame\<close>. Go strings are byte sequences.
\<close>

definition InvalidGoawayData :: ErrorCode where "InvalidGoawayData = 8"
definition InvalidConnectionCloseData :: ErrorCode where "InvalidConnectionCloseData = 7"
definition InvalidStopWaitingData :: ErrorCode where "InvalidStopWaitingData = 60"

section \<open>RST_STREAM\<close>

record RstStreamFrame =
  rst_StreamID :: StreamID
  rst_ErrorCode :: uint32
  rst_ByteOffset :: ByteCount

definition rst_Write :: "VersionNumber \<Rightarrow> RstStreamFrame \<Rightarrow> bytes result" where
  "rst_Write version f =
     Inr ([0x01] @ WriteUint32 (GetByteOrder version) (rst_StreamID f)
          @ WriteUint64 (GetByteOrder version) (rst_ByteOffset f)
          @ WriteUint32 (GetByteOrder version) (rst_ErrorCode f))"

definition rst_MinLength :: "RstStreamFrame \<Rightarrow> ByteCount result" where
  "rst_MinLength f = Inr (1 + 4 + 8 + 4)"

definition ParseRstStreamFrame :: "VersionNumber \<Rightarrow> RstStreamFrame reader" where
  "ParseRstStreamFrame version r =
     bindE (ReadByte r) (\<lambda>(_, r).
     bindE (ReadUint32 (GetByteOrder version) r) (\<lambda>(sid, r).
     bindE (ReadUint64 (GetByteOrder version) r) (\<lambda>(byteOffset, r).
     bindE (ReadUint32 (GetByteOrder version) r) (\<lambda>(errorCode, r).
     Inr (\<lparr>rst_StreamID = sid, rst_ErrorCode = errorCode, rst_ByteOffset = byteOffset\<rparr>, r)))))"

section \<open>GOAWAY\<close>

record GoawayFrame =
  goaway_ErrorCode :: ErrorCode
  goaway_LastGoodStream :: StreamID
  goaway_ReasonPhrase :: bytes

definition ParseGoawayFrame :: "VersionNumber \<Rightarrow> GoawayFrame reader" where
  "ParseGoawayFrame version r =
     bindE (ReadByte r) (\<lambda>(_, r).
     bindE (ReadUint32 (GetByteOrder version) r) (\<lambda>(errorCode, r).
     bindE (ReadUint32 (GetByteOrder version) r) (\<lambda>(lastGoodStream, r).
     bindE (ReadUint16 (GetByteOrder version) r) (\<lambda>(reasonPhraseLen, r).
     if reasonPhraseLen > ucast MaxPacketSize
     then Inl (QuicErr InvalidGoawayData ''reason phrase too long'')
     else bindE (ReadFull (unat reasonPhraseLen) r) (\<lambda>(reasonPhrase, r).
     Inr (\<lparr>goaway_ErrorCode = errorCode, goaway_LastGoodStream = lastGoodStream,
           goaway_ReasonPhrase = reasonPhrase\<rparr>, r))))))"

definition goaway_Write :: "VersionNumber \<Rightarrow> GoawayFrame \<Rightarrow> bytes result" where
  "goaway_Write version f =
     Inr ([0x03] @ WriteUint32 (GetByteOrder version) (goaway_ErrorCode f)
          @ WriteUint32 (GetByteOrder version) (goaway_LastGoodStream f)
          @ WriteUint16 (GetByteOrder version) (of_nat (length (goaway_ReasonPhrase f)))
          @ goaway_ReasonPhrase f)"

definition goaway_MinLength :: "GoawayFrame \<Rightarrow> ByteCount result" where
  "goaway_MinLength f = Inr (of_nat (1 + 4 + 4 + 2 + length (goaway_ReasonPhrase f)))"

section \<open>CONNECTION_CLOSE\<close>

record ConnectionCloseFrame =
  close_ErrorCode :: ErrorCode
  close_ReasonPhrase :: bytes

definition ParseConnectionCloseFrame :: "VersionNumber \<Rightarrow> ConnectionCloseFrame reader" where
  "ParseConnectionCloseFrame version r =
     bindE (ReadByte r) (\<lambda>(_, r).
     bindE (ReadUint32 (GetByteOrder version) r) (\<lambda>(errorCode, r).
     bindE (ReadUint16 (GetByteOrder version) r) (\<lambda>(reasonPhraseLen, r).
     if reasonPhraseLen > ucast MaxPacketSize
     then Inl (QuicErr InvalidConnectionCloseData ''reason phrase too long'')
     else bindE (ReadFull (unat reasonPhraseLen) r) (\<lambda>(reasonPhrase, r).
     Inr (\<lparr>close_ErrorCode = errorCode, close_ReasonPhrase = reasonPhrase\<rparr>, r)))))"

definition close_MinLength :: "ConnectionCloseFrame \<Rightarrow> ByteCount result" where
  "close_MinLength f = Inr (1 + 4 + 2 + of_nat (length (close_ReasonPhrase f)))"

definition close_Write :: "VersionNumber \<Rightarrow> ConnectionCloseFrame \<Rightarrow> bytes result" where
  "close_Write version f =
     (if length (close_ReasonPhrase f) > 65535
      then Inl (GoErr ''ConnectionFrame: ReasonPhrase too long'')
      else Inr ([0x02] @ WriteUint32 (GetByteOrder version) (close_ErrorCode f)
                @ WriteUint16 (GetByteOrder version) (of_nat (length (close_ReasonPhrase f)))
                @ close_ReasonPhrase f))"

section \<open>WINDOW_UPDATE, BLOCKED and PING\<close>

record WindowUpdateFrame =
  wu_StreamID :: StreamID
  wu_ByteOffset :: ByteCount

definition wu_Write :: "VersionNumber \<Rightarrow> WindowUpdateFrame \<Rightarrow> bytes result" where
  "wu_Write version f =
     Inr ([0x4] @ WriteUint32 (GetByteOrder version) (wu_StreamID f)
          @ WriteUint64 (GetByteOrder version) (wu_ByteOffset f))"

definition wu_MinLength :: "WindowUpdateFrame \<Rightarrow> ByteCount result" where
  "wu_MinLength f = Inr (1 + 4 + 8)"

definition ParseWindowUpdateFrame :: "VersionNumber \<Rightarrow> WindowUpdateFrame reader" where
  "ParseWindowUpdateFrame version r =
     bindE (ReadByte r) (\<lambda>(_, r).
     bindE (ReadUint32 (GetByteOrder version) r) (\<lambda>(sid, r).
     bindE (ReadUint64 (GetByteOrder version) r) (\<lambda>(byteOffset, r).
     Inr (\<lparr>wu_StreamID = sid, wu_ByteOffset = byteOffset\<rparr>, r))))"

record BlockedFrame =
  blocked_StreamID :: StreamID

definition blocked_Write :: "VersionNumber \<Rightarrow> BlockedFrame \<Rightarrow> bytes result" where
  "blocked_Write version f = Inr ([0x05] @ WriteUint32 (GetByteOrder version) (blocked_StreamID f))"

definition blocked_MinLength :: "BlockedFrame \<Rightarrow> ByteCount result" where
  "blocked_MinLength f = Inr (1 + 4)"

definition ParseBlockedFrame :: "VersionNumber \<Rightarrow> BlockedFrame reader" where
  "ParseBlockedFrame version r =
     bindE (ReadByte r) (\<lambda>(_, r).
     bindE (ReadUint32 (GetByteOrder version) r) (\<lambda>(sid, r).
     Inr (\<lparr>blocked_StreamID = sid\<rparr>, r)))"

datatype PingFrame = PingFrame

definition ParsePingFrame :: "VersionNumber \<Rightarrow> PingFrame reader" where
  "ParsePingFrame version r = bindE (ReadByte r) (\<lambda>(_, r). Inr (PingFrame, r))"

definition ping_Write :: "VersionNumber \<Rightarrow> PingFrame \<Rightarrow> bytes result" where
  "ping_Write version f = Inr [0x07]"

definition ping_MinLength :: "PingFrame \<Rightarrow> ByteCount result" where
  "ping_MinLength f = Inr 1"

section \<open>STOP_WAITING\<close>

record StopWaitingFrame =
  sw_LeastUnacked :: PacketNumber
  sw_PacketNumberLen :: PacketNumberLen
  sw_PacketNumber :: PacketNumber

definition errLeastUnackedHigherThanPacketNumber :: error where
  "errLeastUnackedHigherThanPacketNumber =
     GoErr ''StopWaitingFrame: LeastUnacked can't be greater than the packet number''"

definition errPacketNumberNotSet :: error where
  "errPacketNumberNotSet = GoErr ''StopWaitingFrame: PacketNumber not set''"

definition errPacketNumberLenNotSet :: error where
  "errPacketNumberLenNotSet = GoErr ''StopWaitingFrame: PacketNumberLen not set''"

definition sw_Write :: "VersionNumber \<Rightarrow> StopWaitingFrame \<Rightarrow> bytes result" where
  "sw_Write version f =
     (if sw_PacketNumber f = 0 then Inl errPacketNumberNotSet
      else if sw_LeastUnacked f > sw_PacketNumber f then Inl errLeastUnackedHigherThanPacketNumber
      else let leastUnackedDelta = sw_PacketNumber f - sw_LeastUnacked f
           in if \<not> valid_PacketNumberLen (sw_PacketNumberLen f) then Inl errPacketNumberLenNotSet
              else bindE (writePacketNumberLen mask48 version (sw_PacketNumberLen f) leastUnackedDelta)
                     (\<lambda>delta. Inr ([0x06] @ delta)))"

definition sw_MinLength :: "StopWaitingFrame \<Rightarrow> ByteCount result" where
  "sw_MinLength f =
     (if sw_PacketNumberLen f = PacketNumberLenInvalid then Inl errPacketNumberLenNotSet
      else Inr (1 + ucast (sw_PacketNumberLen f)))"

definition ParseStopWaitingFrame ::
    "PacketNumber \<Rightarrow> PacketNumberLen \<Rightarrow> VersionNumber \<Rightarrow> StopWaitingFrame reader" where
  "ParseStopWaitingFrame packetNumber packetNumberLen version r =
     bindE (ReadByte r) (\<lambda>(_, r).
     bindE (ReadUintN (GetByteOrder version) packetNumberLen r) (\<lambda>(leastUnackedDelta, r).
     if leastUnackedDelta \<ge> packetNumber
     then Inl (QuicErr InvalidStopWaitingData ''invalid LeastUnackedDelta'')
     else Inr (\<lparr>sw_LeastUnacked = packetNumber - leastUnackedDelta,
                sw_PacketNumberLen = PacketNumberLenInvalid, sw_PacketNumber = 0\<rparr>, r)))"

section \<open>PATHS\<close>

record PathsFrame =
  pf_MaxNumPaths :: uint8
  pf_NumPaths :: uint8
  pf_PathIDs :: "PathID list"
  pf_RemoteRTTs :: "duration list"

definition ErrTooManyPaths :: error where
  "ErrTooManyPaths = GoErr ''PathsFrame: more paths than the maximum enabled''"

definition ErrPathsNumber :: error where
  "ErrPathsNumber = GoErr ''PathsFrame: number of paths advertised and # of paths do not match''"

definition ErrMissingRTT :: error where
  "ErrMissingRTT = GoErr ''PathsFrame: number of paths IDs and number of remote RTTs do not match''"

fun writePaths :: "VersionNumber \<Rightarrow> PathID list \<Rightarrow> duration list \<Rightarrow> bytes" where
  "writePaths version (p # ps) (t # ts) =
     p # WriteUfloat16 (GetByteOrder version) (uint64_of_duration (t sdiv Microsecond))
     @ writePaths version ps ts"
| "writePaths version _ _ = []"

definition pf_Write :: "VersionNumber \<Rightarrow> PathsFrame \<Rightarrow> bytes result" where
  "pf_Write version f =
     (if unat (pf_NumPaths f) \<noteq> length (pf_PathIDs f) then Inl ErrPathsNumber
      else if length (pf_PathIDs f) \<noteq> length (pf_RemoteRTTs f) then Inl ErrMissingRTT
      else Inr ([0x12, pf_MaxNumPaths f, pf_NumPaths f]
                @ writePaths version (pf_PathIDs f) (pf_RemoteRTTs f)))"

fun parsePaths :: "VersionNumber \<Rightarrow> nat \<Rightarrow> (PathID list \<times> duration list) reader" where
  "parsePaths version 0 r = Inr (([], []), r)"
| "parsePaths version (Suc n) r =
     bindE (ReadByte r) (\<lambda>(pathID, r).
     bindE (ReadUfloat16 (GetByteOrder version) r) (\<lambda>(remoteRTT, r).
     bindE (parsePaths version n r) (\<lambda>((pathIDs, remoteRTTs), r).
     Inr ((pathID # pathIDs, uint remoteRTT * Microsecond # remoteRTTs), r))))"

definition ParsePathsFrame :: "VersionNumber \<Rightarrow> PathsFrame reader" where
  "ParsePathsFrame version r =
     bindE (ReadByte r) (\<lambda>(_, r).
     bindE (ReadByte r) (\<lambda>(maxNum, r).
     bindE (ReadByte r) (\<lambda>(num, r).
     if num > maxNum then Inl ErrTooManyPaths
     else bindE (parsePaths version (unat num) r) (\<lambda>((pathIDs, remoteRTTs), r).
     Inr (\<lparr>pf_MaxNumPaths = maxNum, pf_NumPaths = num, pf_PathIDs = pathIDs,
           pf_RemoteRTTs = remoteRTTs\<rparr>, r)))))"

text \<open>The length is computed in 8 bits, because \<^verbatim>\<open>NumPaths\<close> is a \<^verbatim>\<open>uint8\<close>, and then widened.\<close>

definition pf_MinLength :: "PathsFrame \<Rightarrow> ByteCount result" where
  "pf_MinLength f = (let len = 1 + 1 + 1 + (3 * pf_NumPaths f) in Inr (ucast len))"

section \<open>ADD_ADDRESS\<close>

text \<open>
  \<^verbatim>\<open>net.IP\<close> is a slice of bytes. \<open>To4\<close>, \<open>To16\<close> and \<open>IPv4\<close> are the functions of the Go
  package \<^verbatim>\<open>net\<close>: an IPv4 address has 4 bytes, or 16 bytes with the prefix of
  IPv4-mapped IPv6 addresses.
\<close>

record UDPAddr =
  addr_IP :: bytes
  addr_Port :: int
  addr_Zone :: bytes

definition v4InV6Prefix :: bytes where
  "v4InV6Prefix = replicate 10 0 @ [0xff, 0xff]"

definition IPv4 :: "uint8 \<Rightarrow> uint8 \<Rightarrow> uint8 \<Rightarrow> uint8 \<Rightarrow> bytes" where
  "IPv4 a b c d = v4InV6Prefix @ [a, b, c, d]"

definition To4 :: "bytes \<Rightarrow> bytes option" where
  "To4 ip = (if length ip = 4 then Some ip
             else if length ip = 16 \<and> take 12 ip = v4InV6Prefix then Some (drop 12 ip)
             else None)"

definition To16 :: "bytes \<Rightarrow> bytes option" where
  "To16 ip = (if length ip = 4 then Some (IPv4 (ip ! 0) (ip ! 1) (ip ! 2) (ip ! 3))
              else if length ip = 16 then Some ip
              else None)"

record AddAddressFrame =
  aa_IPVersion :: uint8
  aa_Addr :: UDPAddr

definition ErrUnknownIPVersion :: error where
  "ErrUnknownIPVersion = GoErr ''AddAddressFrame: unknown IP version''"

definition errInconsistentAddrIPVersion :: error where
  "errInconsistentAddrIPVersion =
     GoErr ''internal inconsistency: Addr does not match IP version''"

definition aa_Write :: "VersionNumber \<Rightarrow> AddAddressFrame \<Rightarrow> bytes result" where
  "aa_Write version f =
     bindE (if aa_IPVersion f = 4
            then (case To4 (addr_IP (aa_Addr f)) of
                    None \<Rightarrow> Inl errInconsistentAddrIPVersion | Some ip \<Rightarrow> Inr (take 4 ip))
            else if aa_IPVersion f = 6
            then (case To16 (addr_IP (aa_Addr f)) of
                    None \<Rightarrow> Inl errInconsistentAddrIPVersion | Some ip \<Rightarrow> Inr (take 16 ip))
            else Inl ErrUnknownIPVersion) (\<lambda>ip.
     Inr ([0x10, aa_IPVersion f] @ ip
          @ WriteUint16 (GetByteOrder version) (word_of_int (addr_Port (aa_Addr f)))))"

fun readBytes :: "nat \<Rightarrow> bytes reader" where
  "readBytes 0 r = Inr ([], r)"
| "readBytes (Suc n) r =
     bindE (ReadByte r) (\<lambda>(b, r). bindE (readBytes n r) (\<lambda>(bs, r). Inr (b # bs, r)))"

definition ParseAddAddressFrame :: "VersionNumber \<Rightarrow> AddAddressFrame reader" where
  "ParseAddAddressFrame version r =
     bindE (ReadByte r) (\<lambda>(_, r).
     bindE (ReadByte r) (\<lambda>(ipv, r).
     bindE (if ipv = 4
            then bindE (ReadByte r) (\<lambda>(a, r). bindE (ReadByte r) (\<lambda>(b, r).
                 bindE (ReadByte r) (\<lambda>(c, r). bindE (ReadByte r) (\<lambda>(d, r).
                 Inr (IPv4 a b c d, r)))))
            else if ipv = 6 then readBytes 16 r
            else Inl ErrUnknownIPVersion) (\<lambda>(ip, r).
     bindE (ReadUint16 (GetByteOrder version) r) (\<lambda>(port, r).
     Inr (\<lparr>aa_IPVersion = ipv,
           aa_Addr = \<lparr>addr_IP = ip, addr_Port = uint port, addr_Zone = []\<rparr>\<rparr>, r)))))"

definition aa_MinLength :: "AddAddressFrame \<Rightarrow> ByteCount result" where
  "aa_MinLength f =
     (if aa_IPVersion f = 4 then Inr (1 + 1 + 4 + 2)
      else if aa_IPVersion f = 6 then Inr (1 + 1 + 16 + 2)
      else Inl ErrUnknownIPVersion)"

section \<open>The frames keep the promises of the interface\<close>

lemma of_nat_len16:
  assumes "length (bs :: bytes) \<le> 1350"
  shows "unat (of_nat (length bs) :: uint16) = length bs" "\<not> (1350 :: uint16) < of_nat (length bs)"
  using assms by (simp_all add: unat_of_nat16 unat_simps)

interpretation rst: wire_frame rst_Write ParseRstStreamFrame rst_MinLength "\<lambda>_. True" id
  by unfold_locales
    (auto simp: rst_Write_def ParseRstStreamFrame_def rst_MinLength_def intro!: no_panic_intros)

interpretation wu: wire_frame wu_Write ParseWindowUpdateFrame wu_MinLength "\<lambda>_. True" id
  by unfold_locales
    (auto simp: wu_Write_def ParseWindowUpdateFrame_def wu_MinLength_def intro!: no_panic_intros)

interpretation blocked: wire_frame blocked_Write ParseBlockedFrame blocked_MinLength "\<lambda>_. True" id
  by unfold_locales
    (auto simp: blocked_Write_def ParseBlockedFrame_def blocked_MinLength_def intro!: no_panic_intros)

interpretation ping: wire_frame ping_Write ParsePingFrame ping_MinLength "\<lambda>_. True" id
proof unfold_locales
  fix f v r
  show "\<exists>bs. ping_Write v f = Inr bs \<and> ParsePingFrame v (bs @ r) = Inr (id f, r)"
    by (cases f) (simp add: ping_Write_def ParsePingFrame_def)
qed (auto simp: ping_Write_def ParsePingFrame_def ping_MinLength_def intro!: no_panic_intros)

interpretation goaway: wire_frame goaway_Write ParseGoawayFrame goaway_MinLength
    "\<lambda>f. length (goaway_ReasonPhrase f) \<le> 1350" id
  by unfold_locales
    (auto simp: goaway_Write_def ParseGoawayFrame_def goaway_MinLength_def MaxPacketSize_def
      of_nat_len16 unat_of_nat64 unat_word_ariths intro!: no_panic_intros)

interpretation close: wire_frame close_Write ParseConnectionCloseFrame close_MinLength
    "\<lambda>f. length (close_ReasonPhrase f) \<le> 1350" id
  by unfold_locales
    (auto simp: close_Write_def ParseConnectionCloseFrame_def close_MinLength_def MaxPacketSize_def
      of_nat_len16 unat_of_nat64 unat_word_ariths intro!: no_panic_intros)

text \<open>
  A STOP_WAITING frame is parsed with the packet number and the packet number length of the
  packet it came in. The difference to the packet number has to fit into the field.
\<close>

definition sw_writable :: "PacketNumber \<Rightarrow> PacketNumberLen \<Rightarrow> StopWaitingFrame \<Rightarrow> bool" where
  "sw_writable pn len f \<longleftrightarrow>
     valid_PacketNumberLen len \<and> sw_PacketNumber f = pn \<and> sw_PacketNumberLen f = len \<and>
     0 < sw_LeastUnacked f \<and> sw_LeastUnacked f \<le> pn \<and> unat (pn - sw_LeastUnacked f) < 256 ^ unat len"

definition sw_received :: "StopWaitingFrame \<Rightarrow> StopWaitingFrame" where
  "sw_received f = f\<lparr>sw_PacketNumberLen := PacketNumberLenInvalid, sw_PacketNumber := 0\<rparr>"

lemma sw_round_trip:
  assumes "sw_writable pn len f"
  shows "sw_Write v f = Inr ([0x06] @ version_bytes v (unat len) (unat (pn - sw_LeastUnacked f)))"
    and "ParseStopWaitingFrame pn len v ([0x06] @ version_bytes v (unat len) (unat (pn - sw_LeastUnacked f)) @ r)
      = Inr (sw_received f, r)"
proof -
  note w = assms [unfolded sw_writable_def]
  have "pn \<noteq> 0" using w by (auto simp: unat_simps)
  moreover have "writePacketNumberLen mask48 v len (pn - sw_LeastUnacked f) =
      Inr (version_bytes v (unat len) (unat (pn - sw_LeastUnacked f)))"
    using w by (intro ackw.writeLen_fits) simp_all
  ultimately show "sw_Write v f =
      Inr ([0x06] @ version_bytes v (unat len) (unat (pn - sw_LeastUnacked f)))"
    using w by (auto simp: sw_Write_def Let_def)
  have "unat (pn - sw_LeastUnacked f) = unat pn - unat (sw_LeastUnacked f)"
    using w by (intro unat_diff_no_wrap) (simp add: unat_simps)
  then have "\<not> pn - sw_LeastUnacked f \<ge> pn" using w by (auto simp: unat_simps)
  moreover have "ReadUintN (GetByteOrder v) len (version_bytes v (unat len) (unat (pn - sw_LeastUnacked f)) @ r) =
      Inr (pn - sw_LeastUnacked f, r)"
    using vo.readN_enc [of "unat len" v "unat (pn - sw_LeastUnacked f)" r] w valid_PacketNumberLen_cases [of len]
    by simp
  ultimately show "ParseStopWaitingFrame pn len v
      ([0x06] @ version_bytes v (unat len) (unat (pn - sw_LeastUnacked f)) @ r) = Inr (sw_received f, r)"
    by (simp add: ParseStopWaitingFrame_def sw_received_def)
qed

lemma sw_length:
  assumes "sw_writable pn len f"
  shows "sw_MinLength f = Inr (1 + ucast len)" "unat (1 + ucast len :: uint64) = 1 + unat len"
proof -
  have l: "valid_PacketNumberLen len" "sw_PacketNumberLen f = len" using assms by (auto simp: sw_writable_def)
  then show "sw_MinLength f = Inr (1 + ucast len)" "unat (1 + ucast len :: uint64) = 1 + unat len"
    by (auto simp: sw_MinLength_def valid_PacketNumberLen_def PacketNumberLen_defs)
qed

interpretation sw: wire_frame sw_Write "ParseStopWaitingFrame pn len" sw_MinLength "sw_writable pn len"
    sw_received for pn len
proof unfold_locales
  fix f v and r bs :: bytes
  show "no_panic (ParseStopWaitingFrame pn len v r)"
    by (auto simp: ParseStopWaitingFrame_def intro!: no_panic_intros)
  assume w: "sw_writable pn len f"
  show "\<exists>bs. sw_Write v f = Inr bs \<and> ParseStopWaitingFrame pn len v (bs @ r) = Inr (sw_received f, r)"
    using sw_round_trip [OF w] by simp
  assume "sw_Write v f = Inr bs"
  then show "\<exists>n. sw_MinLength f = Inr n \<and> length bs = unat n"
    using sw_round_trip(1) [OF w, of v] sw_length [OF w] by (auto simp: vo.length_enc)
qed

definition pf_writable :: "PathsFrame \<Rightarrow> bool" where
  "pf_writable f \<longleftrightarrow>
     length (pf_PathIDs f) = unat (pf_NumPaths f) \<and> length (pf_RemoteRTTs f) = unat (pf_NumPaths f) \<and>
     pf_NumPaths f \<le> pf_MaxNumPaths f \<and> unat (pf_NumPaths f) < 85"

definition wireRTT :: "duration \<Rightarrow> duration" where
  "wireRTT t = uint (decodeUfloat16 (encodeUfloat16 (uint64_of_duration (t sdiv Microsecond)))) * Microsecond"

lemma parsePaths_writePaths:
  "length ps = length ts \<Longrightarrow> parsePaths v (length ps) (writePaths v ps ts @ r) = Inr ((ps, map wireRTT ts), r)"
  by (induction ps ts rule: list_induct2) (simp_all add: wireRTT_def)

lemma length_writePaths: "length ps = length ts \<Longrightarrow> length (writePaths v ps ts) = 3 * length ps"
  by (induction ps ts rule: list_induct2) simp_all

lemma no_panic_parsePaths: "no_panic (parsePaths v n r)"
  by (induction n arbitrary: r) (auto intro!: no_panic_intros)

interpretation pf: wire_frame pf_Write ParsePathsFrame pf_MinLength pf_writable
    "\<lambda>f. f\<lparr>pf_RemoteRTTs := map wireRTT (pf_RemoteRTTs f)\<rparr>"
proof unfold_locales
  fix f v and r bs :: bytes
  show "no_panic (ParsePathsFrame v r)"
    by (auto simp: ParsePathsFrame_def ErrTooManyPaths_def intro!: no_panic_intros no_panic_parsePaths)
  assume w: "pf_writable f"
  then have "parsePaths v (unat (pf_NumPaths f)) (writePaths v (pf_PathIDs f) (pf_RemoteRTTs f) @ r) =
      Inr ((pf_PathIDs f, map wireRTT (pf_RemoteRTTs f)), r)"
    using parsePaths_writePaths [of "pf_PathIDs f" "pf_RemoteRTTs f" v r] by (simp add: pf_writable_def)
  with w show "\<exists>bs. pf_Write v f = Inr bs \<and> ParsePathsFrame v (bs @ r) =
      Inr (f\<lparr>pf_RemoteRTTs := map wireRTT (pf_RemoteRTTs f)\<rparr>, r)"
    by (auto simp: pf_Write_def ParsePathsFrame_def pf_writable_def not_less)
  assume "pf_Write v f = Inr bs"
  then have "length bs = 3 + 3 * unat (pf_NumPaths f)"
    using w by (auto simp: pf_Write_def length_writePaths pf_writable_def split: if_splits)
  moreover have "unat (1 + 1 + 1 + (3 * pf_NumPaths f)) = 3 + 3 * unat (pf_NumPaths f)"
    using w by (simp add: pf_writable_def unat_word_ariths)
  ultimately show "\<exists>n. pf_MinLength f = Inr n \<and> length bs = unat n"
    by (simp add: pf_MinLength_def Let_def)
qed

definition aa_writable :: "AddAddressFrame \<Rightarrow> bool" where
  "aa_writable f \<longleftrightarrow>
     aa_IPVersion f = 4 \<and> To4 (addr_IP (aa_Addr f)) \<noteq> None \<or>
     aa_IPVersion f = 6 \<and> To16 (addr_IP (aa_Addr f)) \<noteq> None"

definition aa_received :: "AddAddressFrame \<Rightarrow> AddAddressFrame" where
  "aa_received f = f\<lparr>aa_Addr := \<lparr>addr_IP = the (To16 (addr_IP (aa_Addr f))),
     addr_Port = addr_Port (aa_Addr f) mod 65536, addr_Zone = []\<rparr>\<rparr>"

lemma readBytes_append: "length bs = n \<Longrightarrow> readBytes n (bs @ r) = Inr (bs, r)"
  by (induction n arbitrary: bs) (auto simp: length_Suc_conv)

lemma no_panic_readBytes: "no_panic (readBytes n r)"
  by (induction n arbitrary: r) (auto intro!: no_panic_intros)

lemma To4_cases:
  assumes "To4 ip = Some q"
  obtains a b c d where "q = [a, b, c, d]" "To16 ip = Some (IPv4 a b c d)"
proof (cases "length ip = 4")
  case True
  then have "ip = [ip ! 0, ip ! 1, ip ! 2, ip ! 3]"
    by (auto simp: length_Suc_numeral_cases length_Suc_conv)
  then show thesis using True assms by (intro that) (auto simp: To4_def To16_def)
next
  case False
  then have ip: "length ip = 16" "take 12 ip = v4InV6Prefix" "q = drop 12 ip"
    using assms by (auto simp: To4_def split: if_splits)
  then have "length q = 4" by simp
  then obtain a b c d where q: "q = [a, b, c, d]"
    by (auto simp: length_Suc_numeral_cases length_Suc_conv)
  have "ip = take 12 ip @ drop 12 ip" by simp
  then have "ip = IPv4 a b c d" using ip(2,3) q by (simp add: IPv4_def)
  then show thesis using ip(1) False q by (intro that) (auto simp: To16_def)
qed

interpretation aa: wire_frame aa_Write ParseAddAddressFrame aa_MinLength aa_writable aa_received
proof unfold_locales
  fix f v and r bs :: bytes
  show "no_panic (ParseAddAddressFrame v r)"
    by (auto simp: ParseAddAddressFrame_def ErrUnknownIPVersion_def
        intro!: no_panic_intros no_panic_readBytes)
  assume w: "aa_writable f"
  have port: "uint (word_of_int p :: uint16) = p mod 65536" for p by (simp add: uint_word_of_int)
  have *: "\<exists>bs. aa_Write v f = Inr bs \<and> ParseAddAddressFrame v (bs @ r) = Inr (aa_received f, r) \<and>
      (\<exists>n. aa_MinLength f = Inr n \<and> length bs = unat n)"
  proof (cases "aa_IPVersion f = 4")
    case True
    then obtain q where q: "To4 (addr_IP (aa_Addr f)) = Some q" using w by (auto simp: aa_writable_def)
    then obtain a b c d where "q = [a, b, c, d]" "To16 (addr_IP (aa_Addr f)) = Some (IPv4 a b c d)"
      by (rule To4_cases)
    with True q show ?thesis
      by (simp add: aa_Write_def ParseAddAddressFrame_def aa_received_def aa_MinLength_def port)
  next
    case False
    then obtain q where "aa_IPVersion f = 6" "To16 (addr_IP (aa_Addr f)) = Some q"
      using w by (auto simp: aa_writable_def)
    moreover from this have "length q = 16"
      by (auto simp: To16_def IPv4_def v4InV6Prefix_def split: if_splits)
    ultimately show ?thesis using readBytes_append [of q 16]
      by (simp add: aa_Write_def ParseAddAddressFrame_def aa_received_def aa_MinLength_def port)
  qed
  then show "\<exists>bs. aa_Write v f = Inr bs \<and> ParseAddAddressFrame v (bs @ r) = Inr (aa_received f, r)" by blast
  assume "aa_Write v f = Inr bs"
  with * show "\<exists>n. aa_MinLength f = Inr n \<and> length bs = unat n" by auto
qed

text \<open>
  (C35) The length of a PATHS frame is computed in 8 bits: with 85 or more paths, which the
  writer and the parser accept, the announced \<open>MinLength\<close> is 256 bytes or more too small.
\<close>

theorem pf_MinLength_wraps:
  assumes "length (pf_PathIDs f) = unat (pf_NumPaths f)" "length (pf_RemoteRTTs f) = unat (pf_NumPaths f)"
    and "85 \<le> unat (pf_NumPaths f)"
  shows "\<exists>bs n. pf_Write v f = Inr bs \<and> pf_MinLength f = Inr n \<and> unat n + 256 \<le> length bs"
proof -
  have "pf_Write v f = Inr ([0x12, pf_MaxNumPaths f, pf_NumPaths f]
      @ writePaths v (pf_PathIDs f) (pf_RemoteRTTs f))"
    using assms by (simp add: pf_Write_def)
  moreover have "unat (ucast (1 + 1 + 1 + (3 * pf_NumPaths f)) :: uint64) = (3 + 3 * unat (pf_NumPaths f)) mod 256"
    by (simp add: unat_word_ariths) (metis mod_add_right_eq)
  moreover have "(3 + 3 * unat (pf_NumPaths f)) mod 256 + 256 \<le> 3 + 3 * unat (pf_NumPaths f)"
  proof -
    have "1 \<le> (3 + 3 * unat (pf_NumPaths f)) div 256" using assms(3) by simp
    then show ?thesis using div_mult_mod_eq [of "3 + 3 * unat (pf_NumPaths f)" 256] by linarith
  qed
  ultimately show ?thesis using assms by (simp add: pf_MinLength_def Let_def length_writePaths)
qed

theorem pf_MinLength_wraps_witness:
  "\<exists>bs n. pf_Write 512 \<lparr>pf_MaxNumPaths = 255, pf_NumPaths = 85, pf_PathIDs = replicate 85 1,
       pf_RemoteRTTs = replicate 85 0\<rparr> = Inr bs \<and>
     pf_MinLength \<lparr>pf_MaxNumPaths = 255, pf_NumPaths = 85, pf_PathIDs = replicate 85 1,
       pf_RemoteRTTs = replicate 85 0\<rparr> = Inr n \<and> unat n + 256 \<le> length bs"
  by (rule pf_MinLength_wraps) simp_all

end
