(* ===== verification/Public_Header.thy ===== *)
theory Public_Header
imports Control_Frames
begin

text \<open>
  The public header of \<^verbatim>\<open>internal/wire/public_header.go\<close> and the version negotiation packet of
  \<^verbatim>\<open>internal/wire/version_negotiation.go\<close>.
\<close>

section \<open>Definitions\<close>

definition InvalidPacketHeader :: ErrorCode where "InvalidPacketHeader = 3"
definition InvalidVersionNegotiationPacket :: ErrorCode where "InvalidVersionNegotiationPacket = 10"

record PublicHeader =
  ph_Raw :: bytes
  ph_ConnectionID :: ConnectionID
  ph_PathID :: PathID
  ph_VersionFlag :: bool
  ph_ResetFlag :: bool
  ph_TruncateConnectionID :: bool
  ph_MultipathFlag :: bool
  ph_PacketNumberLen :: PacketNumberLen
  ph_PacketNumber :: PacketNumber
  ph_VersionNumber :: VersionNumber
  ph_SupportedVersions :: "VersionNumber list"
  ph_DiversificationNonce :: bytes

definition ErrPacketWithUnknownVersion :: error where
  "ErrPacketWithUnknownVersion = GoErr ''PublicHeader: Received a packet without version number, that we don't know the version for''"

definition errResetAndVersionFlagSet :: error where
  "errResetAndVersionFlagSet = GoErr ''PublicHeader: Reset Flag and Version Flag should not be set at the same time''"

definition errReceivedTruncatedConnectionID :: error where
  "errReceivedTruncatedConnectionID =
     QuicErr InvalidPacketHeader ''receiving packets with truncated ConnectionID is not supported''"

definition errInvalidConnectionID :: error where
  "errInvalidConnectionID = QuicErr InvalidPacketHeader ''connection ID cannot be 0''"

definition errGetLengthNotForVersionNegotiation :: error where
  "errGetLengthNotForVersionNegotiation =
     GoErr ''PublicHeader: GetLength cannot be called for VersionNegotiation packets''"

definition hasPacketNumber :: "PublicHeader \<Rightarrow> Perspective \<Rightarrow> bool" where
  "hasPacketNumber h packetSentBy =
     (if ph_ResetFlag h then False
      else if ph_VersionFlag h \<and> packetSentBy = PerspectiveServer then False
      else True)"

definition packetNumberLenBits :: "PacketNumberLen \<Rightarrow> uint8" where
  "packetNumberLenBits l =
     (if l = PacketNumberLen1 then 0x00
      else if l = PacketNumberLen2 then 0x10
      else if l = PacketNumberLen4 then 0x20
      else if l = PacketNumberLen6 then 0x30
      else 0x00)"

definition publicFlagByte :: "PublicHeader \<Rightarrow> Perspective \<Rightarrow> uint8" where
  "publicFlagByte h pers =
     (let b = 0x00 :: uint8;
          b = (if ph_VersionFlag h then b OR 0x01 else b);
          b = (if ph_ResetFlag h then b OR 0x02 else b);
          b = (if \<not> ph_TruncateConnectionID h then b OR 0x08 else b);
          b = (if length (ph_DiversificationNonce h) > 0 then b OR 0x04 else b);
          b = (if hasPacketNumber h pers then b OR packetNumberLenBits (ph_PacketNumberLen h) else b)
      in if ph_MultipathFlag h then b OR 0x40 else b)"

definition ph_Write :: "VersionNumber \<Rightarrow> Perspective \<Rightarrow> PublicHeader \<Rightarrow> bytes result" where
  "ph_Write version pers h =
     (if ph_VersionFlag h \<and> ph_ResetFlag h then Inl errResetAndVersionFlagSet
      else if length (ph_DiversificationNonce h) > 0 \<and> length (ph_DiversificationNonce h) \<noteq> 32
      then Inl (GoErr ''invalid diversification nonce length'')
      else let head =
             [publicFlagByte h pers]
             @ (if \<not> ph_TruncateConnectionID h
                then WriteUint64 LittleEndian (ph_ConnectionID h) else [])
             @ (if ph_VersionFlag h \<and> pers = PerspectiveClient
                then WriteUint32 LittleEndian (VersionNumberToTag (ph_VersionNumber h)) else [])
             @ (if length (ph_DiversificationNonce h) > 0 then ph_DiversificationNonce h else [])
             @ (if ph_MultipathFlag h then [ph_PathID h] else [])
      in if \<not> hasPacketNumber h pers then Inr head
         else if \<not> valid_PacketNumberLen (ph_PacketNumberLen h)
         then Inl (GoErr ''PublicHeader: PacketNumberLen not set'')
         else bindE (writePacketNumberLen mask48 version (ph_PacketNumberLen h) (ph_PacketNumber h))
                (\<lambda>pn. Inr (head @ pn)))"

text \<open>
  \<^verbatim>\<open>PeekConnectionID\<close> leaves the reader where it was, so only its result is modelled.
\<close>

definition PeekConnectionID :: "Perspective \<Rightarrow> bytes \<Rightarrow> ConnectionID result" where
  "PeekConnectionID packetSentBy b =
     bindE (ReadByte b) (\<lambda>(flagByte, b).
     let truncateConnectionID = (flagByte AND 0x08 = 0)
     in if truncateConnectionID \<and> packetSentBy = PerspectiveClient
        then Inl errReceivedTruncatedConnectionID
        else if \<not> truncateConnectionID
        then bindE (ReadUint64 LittleEndian b) (\<lambda>(connID, _). Inr connID)
        else Inr 0)"

function readVersionTags :: "bytes \<Rightarrow> VersionNumber list" where
  "readVersionTags b =
     (case ReadUint32 LittleEndian b of
        Inl _ \<Rightarrow> []
      | Inr (versionTag, b) \<Rightarrow> VersionTagToNumber versionTag # readVersionTags b)"
  by pat_completeness auto
termination
  by (relation "measure length") (auto simp: le.read32_cases simp del: LittleEndian_sel split: if_splits)

declare readVersionTags.simps [simp del] LittleEndian_sel [simp del]

text \<open>
  The parser in three parts: the optional version (with the version negotiation packet, which
  ends the header), the path ID and packet number, and the whole.
\<close>

definition parsePathAndNumber ::
    "Perspective \<Rightarrow> VersionNumber \<Rightarrow> PublicHeader \<Rightarrow> PublicHeader reader" where
  "parsePathAndNumber packetSentBy version header b =
     bindE (if ph_MultipathFlag header then ReadByte b else Inr (0, b)) (\<lambda>(pathID, b).
     let header = header\<lparr>ph_PathID := pathID\<rparr>
     in if hasPacketNumber header packetSentBy
        then bindE (ReadUintN (GetByteOrder version) (ph_PacketNumberLen header) b) (\<lambda>(packetNumber, b).
             Inr (header\<lparr>ph_PacketNumber := packetNumber\<rparr>, b))
        else Inr (header, b))"

definition parseVersion ::
    "Perspective \<Rightarrow> VersionNumber \<Rightarrow> PublicHeader \<Rightarrow> PublicHeader reader" where
  "parseVersion packetSentBy version header b =
     (if \<not> ph_ResetFlag header \<and> ph_VersionFlag header
      then if packetSentBy = PerspectiveServer
           then if length b mod 4 \<noteq> 0 then Inl (CodeErr InvalidVersionNegotiationPacket)
                else Inr (header\<lparr>ph_SupportedVersions := readVersionTags b\<rparr>, [])
           else bindE (ReadUint32 LittleEndian b) (\<lambda>(versionTag, b).
                parsePathAndNumber packetSentBy (VersionTagToNumber versionTag)
                  (header\<lparr>ph_VersionNumber := VersionTagToNumber versionTag\<rparr>) b)
      else parsePathAndNumber packetSentBy version header b)"

definition parsedPacketNumberLen :: "uint8 \<Rightarrow> PacketNumberLen" where
  "parsedPacketNumberLen flagByte =
     (let x = flagByte AND 0x30
      in if x = 0x30 then PacketNumberLen6
         else if x = 0x20 then PacketNumberLen4
         else if x = 0x10 then PacketNumberLen2
         else PacketNumberLen1)"

text \<open>The fields that the public flags settle.\<close>

definition parsePublicFlags :: "Perspective \<Rightarrow> uint8 \<Rightarrow> PublicHeader" where
  "parsePublicFlags packetSentBy flagByte =
     (let header = \<lparr>ph_Raw = [], ph_ConnectionID = 0, ph_PathID = 0,
           ph_VersionFlag = (flagByte AND 0x01 > 0), ph_ResetFlag = (flagByte AND 0x02 > 0),
           ph_TruncateConnectionID = (flagByte AND 0x08 = 0),
           ph_MultipathFlag = (flagByte AND 0x40 > 0), ph_PacketNumberLen = 0, ph_PacketNumber = 0,
           ph_VersionNumber = 0, ph_SupportedVersions = [], ph_DiversificationNonce = []\<rparr>
      in if hasPacketNumber header packetSentBy
         then header\<lparr>ph_PacketNumberLen := parsedPacketNumberLen flagByte\<rparr>
         else header)"

definition ParsePublicHeader :: "Perspective \<Rightarrow> VersionNumber \<Rightarrow> PublicHeader reader" where
  "ParsePublicHeader packetSentBy version b =
     bindE (ReadByte b) (\<lambda>(flagByte, b).
     let header = parsePublicFlags packetSentBy flagByte
     in if version = VersionUnknown \<and> \<not> (ph_VersionFlag header \<or> ph_ResetFlag header)
        then Inl ErrPacketWithUnknownVersion
        else if ph_TruncateConnectionID header \<and> packetSentBy = PerspectiveClient
        then Inl errReceivedTruncatedConnectionID
        else bindE (if \<not> ph_TruncateConnectionID header
                    then bindE (ReadUint64 LittleEndian b) (\<lambda>(connID, b).
                         if connID = 0 then Inl errInvalidConnectionID else Inr (connID, b))
                    else Inr (0, b)) (\<lambda>(connID, b).
             bindE (if packetSentBy = PerspectiveServer \<and> flagByte AND 0x04 > 0
                       \<and> \<not> ph_VersionFlag header \<and> \<not> ph_ResetFlag header
                    then ReadFull 32 b else Inr ([], b)) (\<lambda>(nonce, b).
             parseVersion packetSentBy version
               (header\<lparr>ph_ConnectionID := connID, ph_DiversificationNonce := nonce\<rparr>) b)))"

definition ph_GetLength :: "Perspective \<Rightarrow> PublicHeader \<Rightarrow> ByteCount result" where
  "ph_GetLength pers h =
     (if ph_VersionFlag h \<and> ph_ResetFlag h then Inl errResetAndVersionFlagSet
      else if ph_VersionFlag h \<and> pers = PerspectiveServer
      then Inl errGetLengthNotForVersionNegotiation
      else if hasPacketNumber h pers \<and> ph_PacketNumberLen h \<noteq> PacketNumberLen1
              \<and> ph_PacketNumberLen h \<noteq> PacketNumberLen2 \<and> ph_PacketNumberLen h \<noteq> PacketNumberLen4
              \<and> ph_PacketNumberLen h \<noteq> PacketNumberLen6
      then Inl errPacketNumberLenNotSet
      else Inr (1 + (if hasPacketNumber h pers then ucast (ph_PacketNumberLen h) else 0)
                + (if \<not> ph_TruncateConnectionID h then 8 else 0)
                + (if ph_VersionFlag h then 4 else 0)
                + of_nat (length (ph_DiversificationNonce h))
                + (if ph_MultipathFlag h then 1 else 0)))"

text \<open>Version negotiation packets. An error of the header write would only be logged.\<close>

definition versionNegotiationHeader :: "ConnectionID \<Rightarrow> PublicHeader" where
  "versionNegotiationHeader connectionID =
     \<lparr>ph_Raw = [], ph_ConnectionID = connectionID, ph_PathID = 0, ph_VersionFlag = True,
      ph_ResetFlag = False, ph_TruncateConnectionID = False, ph_MultipathFlag = False,
      ph_PacketNumberLen = 0, ph_PacketNumber = 1, ph_VersionNumber = 0,
      ph_SupportedVersions = [], ph_DiversificationNonce = []\<rparr>"

definition ComposeVersionNegotiation :: "ConnectionID \<Rightarrow> VersionNumber list \<Rightarrow> bytes" where
  "ComposeVersionNegotiation connectionID versions =
     (case ph_Write VersionWhatever PerspectiveServer (versionNegotiationHeader connectionID) of
        Inl _ \<Rightarrow> [] | Inr bs \<Rightarrow> bs)
     @ concat (map (\<lambda>v. WriteUint32 LittleEndian (VersionNumberToTag v)) versions)"

section \<open>The flag byte\<close>

lemma if_or: "(if c then x OR k else x) = x OR (if c then k else (0 :: 'a::len word))"
  by simp

lemma publicFlagByte_eq:
  "publicFlagByte h pers =
     (if ph_VersionFlag h then 0x01 else 0) OR (if ph_ResetFlag h then 0x02 else 0)
     OR (if \<not> ph_TruncateConnectionID h then 0x08 else 0)
     OR (if length (ph_DiversificationNonce h) > 0 then 0x04 else 0)
     OR (if hasPacketNumber h pers then packetNumberLenBits (ph_PacketNumberLen h) else 0)
     OR (if ph_MultipathFlag h then 0x40 else 0)"
  unfolding publicFlagByte_def Let_def if_or by (simp only: or.assoc or.left_neutral)

lemma packetNumberLenBits_masks:
  "packetNumberLenBits l AND 0x01 = 0" "packetNumberLenBits l AND 0x02 = 0"
  "packetNumberLenBits l AND 0x04 = 0" "packetNumberLenBits l AND 0x08 = 0"
  "packetNumberLenBits l AND 0x40 = 0" "packetNumberLenBits l AND 0x30 = packetNumberLenBits l"
  by (simp_all add: packetNumberLenBits_def)

lemma publicFlagByte_fields:
  "publicFlagByte h pers AND 0x01 = (if ph_VersionFlag h then 0x01 else 0)"
  "publicFlagByte h pers AND 0x02 = (if ph_ResetFlag h then 0x02 else 0)"
  "publicFlagByte h pers AND 0x04 = (if ph_DiversificationNonce h \<noteq> [] then 0x04 else 0)"
  "publicFlagByte h pers AND 0x08 = (if \<not> ph_TruncateConnectionID h then 0x08 else 0)"
  "publicFlagByte h pers AND 0x30 =
     (if hasPacketNumber h pers then packetNumberLenBits (ph_PacketNumberLen h) else 0)"
  "publicFlagByte h pers AND 0x40 = (if ph_MultipathFlag h then 0x40 else 0)"
  unfolding publicFlagByte_eq bit.conj_disj_distrib2
  by (simp_all add: packetNumberLenBits_masks)

lemma if_gt_0: "((if c then k else 0) > (0 :: 'a::len word)) = (c \<and> k > 0)"
  by simp

lemma parsedPacketNumberLen_bits:
  "valid_PacketNumberLen l \<Longrightarrow> hasPacketNumber h pers \<Longrightarrow> ph_PacketNumberLen h = l \<Longrightarrow>
   parsedPacketNumberLen (publicFlagByte h pers) = l"
  by (auto simp: parsedPacketNumberLen_def publicFlagByte_fields packetNumberLenBits_def
      valid_PacketNumberLen_def PacketNumberLen_defs)

section \<open>Truncated packet numbers\<close>

lemma version_bytes_mod: "version_bytes v n (x mod 256 ^ n) = version_bytes v n x"
  using vo.enc_dec [of v "version_bytes v n x"] by (simp add: vo.dec_enc vo.length_enc)

lemma unat_mask48: "unat (mask48 x) = unat x mod 2 ^ 48"
proof -
  have "mask48 x = take_bit 48 x"
    by (simp add: mask48_def take_bit_eq_mask mask_eq_exp_minus_1 push_bit_eq_mult)
  then have "unat (mask48 x) = take_bit 48 (unat x)" by (simp only: unsigned_take_bit_eq)
  then show ?thesis by (simp only: take_bit_eq_mod)
qed

lemma writePacketNumberLen_trunc:
  assumes "valid_PacketNumberLen l"
  shows "writePacketNumberLen mask48 v l x = Inr (version_bytes v (unat l) (unat x))"
proof -
  have "version_bytes v 2 (unat x mod 65536) = version_bytes v 2 (unat x)"
    "version_bytes v 4 (unat x mod 4294967296) = version_bytes v 4 (unat x)"
    "version_bytes v 6 (unat x mod 281474976710656) = version_bytes v 6 (unat x)"
    using version_bytes_mod [of v 2] version_bytes_mod [of v 4] version_bytes_mod [of v 6] by simp_all
  then show ?thesis
    using assms by (auto simp: valid_PacketNumberLen_def writePacketNumberLen_def PacketNumberLen_defs
      vo.write16 vo.write32 vo.write48 unat_ucast_shrink unat_mask48)
qed

lemma read_trunc:
  assumes "valid_PacketNumberLen l"
  shows "ReadUintN (GetByteOrder v) l (version_bytes v (unat l) (unat x) @ r) = Inr (truncatePacketNumber l x, r)"
proof -
  have l: "unat l < 8" "l = of_nat (unat l)" using valid_PacketNumberLen_cases [OF assms] by auto
  have "truncatePacketNumber l x = of_nat (unat x mod 256 ^ unat l)"
  proof -
    have "unat (truncatePacketNumber l x) = take_bit (8 * unat l) (unat x)"
      by (simp only: truncatePacketNumber_def unsigned_take_bit_eq)
    also have "\<dots> = unat x mod 256 ^ unat l" by (simp add: take_bit_eq_mod power_mult)
    finally have "unat (truncatePacketNumber l x) = unat x mod 256 ^ unat l" .
    then have "of_nat (unat (truncatePacketNumber l x)) = (of_nat (unat x mod 256 ^ unat l) :: uint64)"
      by (rule arg_cong)
    then show ?thesis by simp
  qed
  then show ?thesis using vo.readN_enc [of "unat l" v "unat x" r] l by simp
qed

section \<open>Writing and reading back\<close>

definition regular_header :: "VersionNumber \<Rightarrow> Perspective \<Rightarrow> PublicHeader \<Rightarrow> bool" where
  "regular_header version pers h \<longleftrightarrow>
     \<not> ph_ResetFlag h \<and> ph_Raw h = [] \<and> ph_SupportedVersions h = [] \<and>
     valid_PacketNumberLen (ph_PacketNumberLen h) \<and>
     (if ph_TruncateConnectionID h then pers = PerspectiveServer \<and> ph_ConnectionID h = 0
      else ph_ConnectionID h \<noteq> 0) \<and>
     (ph_MultipathFlag h \<or> ph_PathID h = 0) \<and>
     (case pers of
        PerspectiveClient \<Rightarrow> ph_DiversificationNonce h = []
          \<and> (if ph_VersionFlag h then ph_VersionNumber h = version \<and> 0 \<le> version \<and> version < 1000
             else ph_VersionNumber h = 0)
      | PerspectiveServer \<Rightarrow> \<not> ph_VersionFlag h \<and> ph_VersionNumber h = 0
          \<and> length (ph_DiversificationNonce h) \<in> {0, 32}) \<and>
     (ph_VersionFlag h \<or> version \<noteq> VersionUnknown)"

lemma hasPacketNumber_regular: "regular_header version pers h \<Longrightarrow> hasPacketNumber h pers"
  by (cases pers) (auto simp: regular_header_def hasPacketNumber_def)

lemma hasPacketNumber_update [simp]:
  "hasPacketNumber (h\<lparr>ph_PathID := p\<rparr>) pers = hasPacketNumber h pers"
  "hasPacketNumber (h\<lparr>ph_ConnectionID := c\<rparr>) pers = hasPacketNumber h pers"
  "hasPacketNumber (h\<lparr>ph_PacketNumberLen := l\<rparr>) pers = hasPacketNumber h pers"
  "hasPacketNumber (h\<lparr>ph_VersionNumber := n\<rparr>) pers = hasPacketNumber h pers"
  "hasPacketNumber (h\<lparr>ph_DiversificationNonce := d\<rparr>) pers = hasPacketNumber h pers"
  by (simp_all add: hasPacketNumber_def)

lemma parsePathAndNumber_write:
  assumes "valid_PacketNumberLen (ph_PacketNumberLen h)" "hasPacketNumber h pers"
    and "ph_MultipathFlag h \<or> path = 0"
  shows "parsePathAndNumber pers v h
      ((if ph_MultipathFlag h then [path] else [])
       @ version_bytes v (unat (ph_PacketNumberLen h)) (unat pn) @ r) =
    Inr (h\<lparr>ph_PathID := path, ph_PacketNumber := truncatePacketNumber (ph_PacketNumberLen h) pn\<rparr>, r)"
  using assms read_trunc [OF assms(1), of v pn r]
  by (auto simp: parsePathAndNumber_def Let_def)

lemma ParsePublicHeader_flags:
  assumes "regular_header version pers h"
  shows "ParsePublicHeader pers version
      ([publicFlagByte h pers]
       @ (if \<not> ph_TruncateConnectionID h then WriteUint64 LittleEndian (ph_ConnectionID h) else [])
       @ ph_DiversificationNonce h @ b) =
    parseVersion pers version (h\<lparr>ph_PathID := 0, ph_PacketNumber := 0, ph_VersionNumber := 0\<rparr>) b"
proof -
  note reg = assms [unfolded regular_header_def]
  note pn = hasPacketNumber_regular [OF assms]
  have len: "parsedPacketNumberLen (publicFlagByte h pers) = ph_PacketNumberLen h"
    using reg pn by (intro parsedPacketNumberLen_bits) simp_all
  have nonce: "length (ph_DiversificationNonce h) = 32" if "ph_DiversificationNonce h \<noteq> []"
    using reg that by (cases pers) auto
  have hdr: "h\<lparr>ph_PathID := 0, ph_PacketNumber := 0, ph_VersionNumber := 0\<rparr> =
    \<lparr>ph_Raw = [], ph_ConnectionID = ph_ConnectionID h, ph_PathID = 0, ph_VersionFlag = ph_VersionFlag h,
     ph_ResetFlag = ph_ResetFlag h, ph_TruncateConnectionID = ph_TruncateConnectionID h,
     ph_MultipathFlag = ph_MultipathFlag h, ph_PacketNumberLen = ph_PacketNumberLen h,
     ph_PacketNumber = 0, ph_VersionNumber = 0, ph_SupportedVersions = [],
     ph_DiversificationNonce = ph_DiversificationNonce h\<rparr>"
    using reg by (cases h) simp
  show ?thesis
    using reg pn nonce len unfolding hdr ParsePublicHeader_def parsePublicFlags_def Let_def
    by (cases pers; cases "ph_TruncateConnectionID h"; cases "ph_DiversificationNonce h = []";
        cases "ph_VersionFlag h")
      (simp_all add: publicFlagByte_fields hasPacketNumber_def)
qed

lemma regular_PacketNumberLen: "regular_header version pers h \<Longrightarrow> valid_PacketNumberLen (ph_PacketNumberLen h)"
  by (simp add: regular_header_def)

lemma parseVersion_write:
  assumes "regular_header version pers h"
  shows "parseVersion pers version (h\<lparr>ph_PathID := 0, ph_PacketNumber := 0, ph_VersionNumber := 0\<rparr>)
      ((if ph_VersionFlag h \<and> pers = PerspectiveClient
        then WriteUint32 LittleEndian (VersionNumberToTag (ph_VersionNumber h)) else [])
       @ (if ph_MultipathFlag h then [ph_PathID h] else [])
       @ version_bytes version (unat (ph_PacketNumberLen h)) (unat (ph_PacketNumber h)) @ r) =
    Inr (h\<lparr>ph_PacketNumber := truncatePacketNumber (ph_PacketNumberLen h) (ph_PacketNumber h)\<rparr>, r)"
proof -
  note reg = assms [unfolded regular_header_def]
  have pn: "hasPacketNumber (h\<lparr>ph_PathID := 0, ph_PacketNumber := 0, ph_VersionNumber := n\<rparr>) pers" for n
    using hasPacketNumber_regular [OF assms] by (auto simp: hasPacketNumber_def split: if_splits)
  have core: "parsePathAndNumber pers version (h\<lparr>ph_PathID := 0, ph_PacketNumber := 0, ph_VersionNumber := n\<rparr>)
      ((if ph_MultipathFlag h then [ph_PathID h] else [])
       @ version_bytes version (unat (ph_PacketNumberLen h)) (unat (ph_PacketNumber h)) @ r) =
    Inr (h\<lparr>ph_PacketNumber := truncatePacketNumber (ph_PacketNumberLen h) (ph_PacketNumber h)\<rparr>, r)"
    if "ph_VersionNumber h = n" for n
    using parsePathAndNumber_write [OF _ pn, of n "ph_PathID h" version "ph_PacketNumber h" r] reg that
    by (cases h) simp
  have "version = n" if "ph_VersionFlag h" "ph_VersionNumber h = n" for n
    using reg that by (cases pers) auto
  then show ?thesis
    using core reg by (cases pers; cases "ph_VersionFlag h")
      (simp_all add: parseVersion_def VersionTagToNumber_VersionNumberToTag)
qed

lemma ph_GetLength_write:
  assumes "regular_header version pers h"
  shows "\<exists>n. ph_GetLength pers h = Inr n \<and> unat n =
     1 + unat (ph_PacketNumberLen h) + (if \<not> ph_TruncateConnectionID h then 8 else 0)
     + (if ph_VersionFlag h then 4 else 0) + length (ph_DiversificationNonce h)
     + (if ph_MultipathFlag h then 1 else 0)"
proof -
  note reg = assms [unfolded regular_header_def]
  note pn = hasPacketNumber_regular [OF assms]
  define k where "k = 1 + unat (ph_PacketNumberLen h) + (if \<not> ph_TruncateConnectionID h then 8 else 0)
     + (if ph_VersionFlag h then 4 else 0) + length (ph_DiversificationNonce h)
     + (if ph_MultipathFlag h then 1 else 0)"
  have k: "k < 18446744073709551616"
  proof -
    have "length (ph_DiversificationNonce h) \<le> 32" using reg by (cases pers) auto
    moreover have "unat (ph_PacketNumberLen h) \<le> 6"
      using reg by (auto simp: valid_PacketNumberLen_def PacketNumberLen_defs)
    ultimately show ?thesis unfolding k_def by (simp split: if_split)
  qed
  have "ph_GetLength pers h = Inr (of_nat k)"
    using reg pn by (cases pers) (auto simp: ph_GetLength_def valid_PacketNumberLen_def k_def)
  then show ?thesis using unat_of_nat64 [OF k] unfolding k_def [symmetric] by blast
qed

text \<open>
  (C2) A regular public header, of a client or of a server, is parsed back field by field; the
  packet number comes back truncated to the packet number length. The header takes
  exactly \<open>GetLength\<close> bytes.
\<close>

theorem ParsePublicHeader_Write:
  assumes "regular_header version pers h"
  shows "\<exists>bs. ph_Write version pers h = Inr bs \<and>
    (\<exists>n. ph_GetLength pers h = Inr n \<and> length bs = unat n) \<and>
    ParsePublicHeader pers version (bs @ r) =
      Inr (h\<lparr>ph_PacketNumber := truncatePacketNumber (ph_PacketNumberLen h) (ph_PacketNumber h)\<rparr>, r)"
proof -
  note reg = assms [unfolded regular_header_def]
  let ?pn = "version_bytes version (unat (ph_PacketNumberLen h)) (unat (ph_PacketNumber h))"
  let ?head = "[publicFlagByte h pers]
     @ (if \<not> ph_TruncateConnectionID h then WriteUint64 LittleEndian (ph_ConnectionID h) else [])
     @ ph_DiversificationNonce h
     @ (if ph_VersionFlag h \<and> pers = PerspectiveClient
        then WriteUint32 LittleEndian (VersionNumberToTag (ph_VersionNumber h)) else [])
     @ (if ph_MultipathFlag h then [ph_PathID h] else [])"
  have "ph_Write version pers h = Inr (?head @ ?pn)"
    using reg hasPacketNumber_regular [OF assms]
    by (cases pers) (auto simp: ph_Write_def writePacketNumberLen_trunc Let_def)
  moreover have "\<exists>n. ph_GetLength pers h = Inr n \<and> length (?head @ ?pn) = unat n"
    using ph_GetLength_write [OF assms] reg by (cases pers) (auto simp: vo.length_enc)
  moreover have "ParsePublicHeader pers version ((?head @ ?pn) @ r) =
      Inr (h\<lparr>ph_PacketNumber := truncatePacketNumber (ph_PacketNumberLen h) (ph_PacketNumber h)\<rparr>, r)"
    using ParsePublicHeader_flags [OF assms] parseVersion_write [OF assms, of r] by simp
  ultimately show ?thesis by blast
qed

theorem ParsePublicHeader_Write_witness:
  "let h = \<lparr>ph_Raw = [], ph_ConnectionID = 0x1122334455667788, ph_PathID = 3, ph_VersionFlag = True,
      ph_ResetFlag = False, ph_TruncateConnectionID = False, ph_MultipathFlag = True,
      ph_PacketNumberLen = 2, ph_PacketNumber = 0x12345, ph_VersionNumber = VersionMP,
      ph_SupportedVersions = [], ph_DiversificationNonce = []\<rparr>
   in \<exists>bs. ph_Write VersionMP PerspectiveClient h = Inr bs \<and>
    (\<exists>n. ph_GetLength PerspectiveClient h = Inr n \<and> length bs = unat n) \<and>
    ParsePublicHeader PerspectiveClient VersionMP (bs @ [7, 7]) =
      Inr (h\<lparr>ph_PacketNumber := truncatePacketNumber (ph_PacketNumberLen h) (ph_PacketNumber h)\<rparr>, [7, 7])"
  unfolding Let_def
  by (rule ParsePublicHeader_Write)
    (simp add: regular_header_def valid_PacketNumberLen_def PacketNumberLen_defs Version_defs)

section \<open>Version negotiation\<close>

lemma readVersionTags_write:
  assumes "list_all (\<lambda>v. 0 \<le> v \<and> v < 1000) versions"
  shows "readVersionTags (concat (map (\<lambda>v. WriteUint32 LittleEndian (VersionNumberToTag v)) versions)) = versions"
  using assms
proof (induction versions)
  case Nil
  show ?case by (subst readVersionTags.simps) (simp add: le.read32_cases)
next
  case (Cons v versions)
  then show ?case
    by (subst readVersionTags.simps) (simp add: VersionTagToNumber_VersionNumberToTag)
qed

text \<open>
  (C27) A version negotiation packet announces exactly the versions it was composed from, in
  order, whatever version the client that parses it is using.
\<close>

theorem ParsePublicHeader_ComposeVersionNegotiation:
  assumes "list_all (\<lambda>v. 0 \<le> v \<and> v < 1000) versions" and "connectionID \<noteq> 0"
  shows "ParsePublicHeader PerspectiveServer version (ComposeVersionNegotiation connectionID versions) =
    Inr ((versionNegotiationHeader connectionID)
      \<lparr>ph_PacketNumber := 0, ph_SupportedVersions := versions\<rparr>, [])"
proof -
  let ?h = "versionNegotiationHeader connectionID"
  let ?tags = "concat (map (\<lambda>v. WriteUint32 LittleEndian (VersionNumberToTag v)) versions)"
  have "length ?tags = 4 * length versions"
    by (induction versions) simp_all
  moreover have "ComposeVersionNegotiation connectionID versions =
      publicFlagByte ?h PerspectiveServer # WriteUint64 LittleEndian connectionID @ ?tags"
    by (simp add: ComposeVersionNegotiation_def ph_Write_def Let_def versionNegotiationHeader_def
        hasPacketNumber_def)
  ultimately show ?thesis
    using assms readVersionTags_write [OF assms(1)]
    by (simp add: ParsePublicHeader_def parsePublicFlags_def Let_def publicFlagByte_fields parseVersion_def hasPacketNumber_def)
      (simp add: versionNegotiationHeader_def)
qed

theorem ParsePublicHeader_ComposeVersionNegotiation_witness:
  "ParsePublicHeader PerspectiveServer VersionUnknown (ComposeVersionNegotiation 5 SupportedVersions) =
    Inr ((versionNegotiationHeader 5)\<lparr>ph_PacketNumber := 0, ph_SupportedVersions := SupportedVersions\<rparr>, [])"
  by (rule ParsePublicHeader_ComposeVersionNegotiation) (simp_all add: SupportedVersions_def Version_defs)

section \<open>Peeking and malformed headers\<close>

lemma parsePathAndNumber_no_panic [no_panic_intros]:
  "no_panic (parsePathAndNumber packetSentBy version h b)"
  by (auto simp: parsePathAndNumber_def Let_def intro!: no_panic_intros)

lemma parseVersion_no_panic [no_panic_intros]: "no_panic (parseVersion packetSentBy version h b)"
  by (auto simp: parseVersion_def Let_def intro!: no_panic_intros)

text \<open>The part of a header that is settled before the version is read.\<close>

definition same_flags :: "PublicHeader \<Rightarrow> PublicHeader \<Rightarrow> bool" where
  "same_flags h h' \<longleftrightarrow>
     ph_ConnectionID h' = ph_ConnectionID h \<and> ph_VersionFlag h' = ph_VersionFlag h \<and>
     ph_ResetFlag h' = ph_ResetFlag h \<and> ph_TruncateConnectionID h' = ph_TruncateConnectionID h \<and>
     ph_PacketNumberLen h' = ph_PacketNumberLen h"

lemma parsePathAndNumber_fields:
  "parsePathAndNumber packetSentBy version h b = Inr (h', r) \<Longrightarrow> same_flags h h'"
  by (auto simp: same_flags_def parsePathAndNumber_def Let_def bindE_eq_Inr_iff split: if_splits)

lemma parseVersion_fields:
  "parseVersion packetSentBy version h b = Inr (h', r) \<Longrightarrow> same_flags h h'"
  by (auto simp: parseVersion_def bindE_eq_Inr_iff split: if_splits dest!: parsePathAndNumber_fields)
    (simp_all add: same_flags_def)

lemma same_flags_hasPacketNumber: "same_flags h h' \<Longrightarrow> hasPacketNumber h' pers = hasPacketNumber h pers"
  by (simp add: same_flags_def hasPacketNumber_def)

lemma parsePublicFlags_fields:
  "ph_TruncateConnectionID (parsePublicFlags packetSentBy f) \<longleftrightarrow> f AND 0x08 = 0"
  "ph_ConnectionID (parsePublicFlags packetSentBy f) = 0"
  "ph_PacketNumberLen (parsePublicFlags packetSentBy f) =
     (if hasPacketNumber (parsePublicFlags packetSentBy f) packetSentBy then parsedPacketNumberLen f else 0)"
  by (auto simp: parsePublicFlags_def Let_def hasPacketNumber_def)

lemma parsedPacketNumberLen_valid: "valid_PacketNumberLen (parsedPacketNumberLen f)"
  by (simp add: parsedPacketNumberLen_def valid_PacketNumberLen_def Let_def)

text \<open>
  (C25) The parser of public headers never panics. What it accepts carries the connection ID that
  \<open>PeekConnectionID\<close> sees, a connection ID unless the server omitted it, and a valid packet number
  length whenever it carries a packet number.
\<close>

theorem ParsePublicHeader_safe:
  "no_panic (ParsePublicHeader packetSentBy version b) \<and>
   (case ParsePublicHeader packetSentBy version b of
      Inl _ \<Rightarrow> True
    | Inr (h, _) \<Rightarrow>
        PeekConnectionID packetSentBy b = Inr (ph_ConnectionID h) \<and>
        (if ph_TruncateConnectionID h then packetSentBy = PerspectiveServer \<and> ph_ConnectionID h = 0
         else ph_ConnectionID h \<noteq> 0) \<and>
        (if hasPacketNumber h packetSentBy then valid_PacketNumberLen (ph_PacketNumberLen h)
         else ph_PacketNumberLen h = 0))"
proof -
  have "no_panic (ParsePublicHeader packetSentBy version b)"
    unfolding ParsePublicHeader_def Let_def
    by (intro no_panic_intros)
      (simp_all add: ErrPacketWithUnknownVersion_def errReceivedTruncatedConnectionID_def
        errInvalidConnectionID_def)
  moreover have "PeekConnectionID packetSentBy b = Inr (ph_ConnectionID h) \<and>
        (if ph_TruncateConnectionID h then packetSentBy = PerspectiveServer \<and> ph_ConnectionID h = 0
         else ph_ConnectionID h \<noteq> 0) \<and>
        (if hasPacketNumber h packetSentBy then valid_PacketNumberLen (ph_PacketNumberLen h)
         else ph_PacketNumberLen h = 0)" 
    if parse: "ParsePublicHeader packetSentBy version b = Inr (h, r)" for h r
  proof -
    obtain f b1 where b: "b = f # b1"
      using parse by (cases b) (auto simp: ParsePublicHeader_def)
    let ?h = "parsePublicFlags packetSentBy f"
    from parse obtain nonce b3 connID
      where p: "parseVersion packetSentBy version
          (?h\<lparr>ph_ConnectionID := connID, ph_DiversificationNonce := nonce\<rparr>) b3 = Inr (h, r)"
        and c: "if f AND 0x08 = 0 then packetSentBy = PerspectiveServer \<and> connID = 0
                else connID \<noteq> 0 \<and> (\<exists>b2. ReadUint64 LittleEndian b1 = Inr (connID, b2))"
      by (cases packetSentBy)
        (auto simp: b ParsePublicHeader_def Let_def bindE_eq_Inr_iff parsePublicFlags_fields split: if_splits)
    note same = parseVersion_fields [OF p]
    have "hasPacketNumber h packetSentBy = hasPacketNumber ?h packetSentBy"
      using same_flags_hasPacketNumber [OF same] by simp
    then show ?thesis
      using same c
      by (auto simp: b same_flags_def parsePublicFlags_fields parsedPacketNumberLen_valid PeekConnectionID_def)
  qed
  ultimately show ?thesis by (auto split: sum.splits)
qed

end
