(* ===== verification/Close_Path_Frame.thy ===== *)
theory Close_Path_Frame
imports Ack_Frame
begin

text \<open>
  The CLOSE_PATH frame of \<^verbatim>\<open>internal/wire/close_path_frame.go\<close>: the path that is closed and the
  packets received on it, in the block format of the ACK frame. In contrast to the ACK
  frame the lengths are not masked to 48 bits before they are written, so a packet number
  that does not fit makes the writer panic.
\<close>

record ClosePathFrame =
  cpf_PathID :: PathID
  cpf_LargestAcked :: PacketNumber
  cpf_LowestAcked :: PacketNumber
  cpf_AckRanges :: "AckRange list"

definition cpf_HasMissingRanges :: "ClosePathFrame \<Rightarrow> bool" where
  "cpf_HasMissingRanges f = (length (cpf_AckRanges f) > 0)"

definition cpf_AcksPacket :: "ClosePathFrame \<Rightarrow> PacketNumber \<Rightarrow> bool" where
  "cpf_AcksPacket f p = acksPacket (cpf_LargestAcked f) (cpf_LowestAcked f) (cpf_AckRanges f) p"

definition cpf_deltaLen :: "ClosePathFrame \<Rightarrow> PacketNumberLen" where
  "cpf_deltaLen f =
     getMissingSequenceNumberDeltaLen (cpf_LargestAcked f) (cpf_LowestAcked f) (cpf_AckRanges f)"

definition cpf_numWritableNackRanges :: "ClosePathFrame \<Rightarrow> uint64" where
  "cpf_numWritableNackRanges f = numWritableNackRanges (cpf_AckRanges f)"

definition cpf_validateAckRanges :: "ClosePathFrame \<Rightarrow> bool" where
  "cpf_validateAckRanges f = validateAckRanges (cpf_LargestAcked f) (cpf_AckRanges f)"

definition cpf_flags :: "ClosePathFrame \<Rightarrow> uint8" where
  "cpf_flags f =
     ackTypeByte (if cpf_HasMissingRanges f then 0x00 OR 0x10 else 0x00)
       (GetPacketNumberLength (cpf_LargestAcked f)) (cpf_deltaLen f)"

definition cpf_Write :: "VersionNumber \<Rightarrow> ClosePathFrame \<Rightarrow> bytes result" where
  "cpf_Write version f =
     (let numRanges = (if cpf_HasMissingRanges f then cpf_numWritableNackRanges f else 0)
      in if numRanges > 0xFF then Inl (Panic ''ClosePathFrame: Too many ACK ranges'')
         else bindE (writePacketNumberLen id version
                  (GetPacketNumberLength (cpf_LargestAcked f)) (cpf_LargestAcked f)) (\<lambda>largest.
         bindE (writeAckBlocks (writePacketNumberLen id version (cpf_deltaLen f))
                  ''BUG: Inconsistent number of ACK ranges written in ClosePath''
                  (cpf_LargestAcked f) (cpf_LowestAcked f) (cpf_AckRanges f)) (\<lambda>blocks.
         Inr ([0x11, cpf_PathID f, cpf_flags f]
              @ (if cpf_HasMissingRanges f then [ucast (numRanges - 1)] else [])
              @ largest @ blocks))))"

definition parseClosePathBody ::
    "VersionNumber \<Rightarrow> PathID \<Rightarrow> bool \<Rightarrow> uint8 \<Rightarrow> uint8 \<Rightarrow> ClosePathFrame reader" where
  "parseClosePathBody version pathID hasMissingRanges largestAckedLen deltaLen r =
     bindE (if hasMissingRanges then ReadByte r else Inr (0, r)) (\<lambda>(numAckBlocks, r).
     if hasMissingRanges \<and> numAckBlocks = 0 then Inl ErrInvalidAckRanges
     else bindE (ReadUintN (GetByteOrder version) largestAckedLen r) (\<lambda>(largestAcked, r).
     bindE (ReadUintN (GetByteOrder version) deltaLen r) (\<lambda>(ackBlockLength, r).
     bindE (parseAckRanges version deltaLen hasMissingRanges numAckBlocks largestAcked ackBlockLength r)
       (\<lambda>((lowestAcked, ackRanges), r).
     Inr (\<lparr>cpf_PathID = pathID, cpf_LargestAcked = largestAcked, cpf_LowestAcked = lowestAcked,
           cpf_AckRanges = ackRanges\<rparr>, r)))))"

definition ParseClosePathFrame :: "VersionNumber \<Rightarrow> ClosePathFrame reader" where
  "ParseClosePathFrame version r =
     bindE (ReadByte r) (\<lambda>(_, r).
     bindE (ReadByte r) (\<lambda>(pathID, r).
     bindE (ReadByte r) (\<lambda>(flags, r).
     parseClosePathBody version pathID (flags AND 0x10 = 0x10)
       (fieldLen (drop_bit 2 (flags AND 0x0C))) (fieldLen (flags AND 0x03)) r)))"

definition cpf_MinLength :: "ClosePathFrame \<Rightarrow> ByteCount" where
  "cpf_MinLength f =
     (let len = 1 + 1 + 1 + ucast (GetPacketNumberLength (cpf_LargestAcked f));
          deltaLen = ucast (cpf_deltaLen f)
      in if cpf_HasMissingRanges f
         then len + (1 + deltaLen) * cpf_numWritableNackRanges f
         else len + deltaLen)"

section \<open>Writing and reading back\<close>

interpretation cpw: block_writer v "writePacketNumberLen id v" for v
  by unfold_locales (rule writePacketNumberLen_fits, simp_all)

lemma closePathFlags_fields:
  assumes "valid_PacketNumberLen l" "valid_PacketNumberLen d" "x = 0 \<or> x = 0x10"
  shows "fieldLen (drop_bit 2 (ackTypeByte x l d AND 0x0C)) = l" "fieldLen (ackTypeByte x l d AND 0x03) = d"
    "ackTypeByte x l d AND 0x10 = x"
  using assms unfolding valid_len_set
  by (elim insertE disjE emptyE; simp add: ackTypeByte_def fieldLen_def PacketNumberLen_defs)+

definition cpf_writable :: "ClosePathFrame \<Rightarrow> bool" where
  "cpf_writable f \<longleftrightarrow>
     ack_wf (cpf_LargestAcked f) (cpf_LowestAcked f) (cpf_AckRanges f) \<and>
     unat (cpf_LargestAcked f) < 2 ^ 48 \<and>
     (if cpf_AckRanges f = [] then 1 \<le> cpf_LowestAcked f
      else 2 \<le> length (writtenRanges (cpf_AckRanges f)))"

lemma ParseClosePathFrame_flags:
  "ParseClosePathFrame v (t # p # cpf_flags f # r) =
     parseClosePathBody v p (cpf_AckRanges f \<noteq> []) (GetPacketNumberLength (cpf_LargestAcked f))
       (cpf_deltaLen f) r"
proof -
  define x :: uint8 where "x = (if cpf_AckRanges f \<noteq> [] then 0x10 else 0)"
  have x: "x = 0 \<or> x = 0x10" and m: "(x = 0x10) = (cpf_AckRanges f \<noteq> [])" by (auto simp: x_def)
  have fl: "cpf_flags f = ackTypeByte x (GetPacketNumberLength (cpf_LargestAcked f)) (cpf_deltaLen f)"
    by (simp add: cpf_flags_def cpf_HasMissingRanges_def x_def)
  note fields = closePathFlags_fields [OF GetPacketNumberLength_valid deltaLen_valid x,
      of "cpf_LargestAcked f" "cpf_LargestAcked f" "cpf_LowestAcked f" "cpf_AckRanges f",
      folded cpf_deltaLen_def]
  show ?thesis
    unfolding ParseClosePathFrame_def ReadByte.simps bindE.simps prod.case fl fields m ..
qed

lemma cpf_write_LargestAcked:
  assumes "unat L < 2 ^ 48"
  defines "l \<equiv> GetPacketNumberLength L"
  shows "writePacketNumberLen id v l L = Inr (version_bytes v (unat l) (unat L))"
proof -
  have "unat L < 256 ^ unat l"
    using GetPacketNumberLength_fits [OF assms(1)] by (simp add: power_mult l_def)
  then show ?thesis by (intro cpw.writeLen_fits) (simp_all add: l_def)
qed

lemma block_bytes_bound:
  assumes "ack_wf L W rs" "valid_PacketNumberLen d" "valid_PacketNumberLen l"
  shows "3 + unat l + (if rs = [] then unat d else (1 + unat d) * unat (numWritableNackRanges rs)) < 3000"
proof (cases "rs = []")
  case False
  then have "desc_ranges rs" using assms(1) by (auto simp: ack_wf_def)
  then have "(1 + unat d) * unat (numWritableNackRanges rs) \<le> 8 * 255"
    using numWritableNackRanges_bounds(2) False valid_PacketNumberLen_cases [OF assms(2)]
    by (intro mult_mono) auto
  then show ?thesis using False valid_PacketNumberLen_cases [OF assms(3)] by auto
qed (use valid_PacketNumberLen_cases [OF assms(2)] valid_PacketNumberLen_cases [OF assms(3)] in auto)

definition cpf_received :: "ClosePathFrame \<Rightarrow> ClosePathFrame" where
  "cpf_received f =
     \<lparr>cpf_PathID = cpf_PathID f, cpf_LargestAcked = cpf_LargestAcked f,
      cpf_LowestAcked = (if cpf_AckRanges f = [] then cpf_LowestAcked f
                         else First (last (writtenRanges (cpf_AckRanges f)))),
      cpf_AckRanges = writtenRanges (cpf_AckRanges f)\<rparr>"

lemma cpf_round_trip:
  assumes "cpf_writable f"
  shows "\<exists>bs. cpf_Write v f = Inr bs \<and> length bs = unat (cpf_MinLength f) \<and>
    ParseClosePathFrame v (bs @ r) = Inr (cpf_received f, r)"
proof -
  define L W rs d where "L = cpf_LargestAcked f" and "W = cpf_LowestAcked f"
    and "rs = cpf_AckRanges f" and "d = cpf_deltaLen f"
  define l where "l = GetPacketNumberLength L"
  define nb where "nb = (if rs = [] then 0 else ucast (numWritableNackRanges rs - 1) :: uint8)"
  have c: "ack_wf L W rs" "unat L < 2 ^ 48" "if rs = [] then 1 \<le> W else 2 \<le> length (writtenRanges rs)"
    using assms by (simp_all add: cpf_writable_def L_def W_def rs_def)
  obtain bs where bs: "writeAckBlocks (writePacketNumberLen id v d)
      ''BUG: Inconsistent number of ACK ranges written in ClosePath'' L W rs = Inr bs"
    "length bs = (if rs = [] then unat d else (1 + unat d) * unat (numWritableNackRanges rs) - 1)"
    "bindE (ReadUintN (GetByteOrder v) d (bs @ r)) (\<lambda>(abl, r). parseAckRanges v d (rs \<noteq> []) nb L abl r) =
     Inr ((if rs = [] then W else First (last (writtenRanges rs)), writtenRanges rs), r)"
    "rs \<noteq> [] \<Longrightarrow> nb \<noteq> 0" "numWritableNackRanges rs \<le> 0xFF"
    using cpw.blocks_round_trip [OF c, where thesis = thesis and v = v and r = r
        and bug = "''BUG: Inconsistent number of ACK ranges written in ClosePath''"]
    unfolding d_def cpf_deltaLen_def nb_def L_def W_def rs_def by blast
  obtain abl r1 where p: "ReadUintN (GetByteOrder v) d (bs @ r) = Inr (abl, r1)"
    "parseAckRanges v d (rs \<noteq> []) nb L abl r1 =
       Inr ((if rs = [] then W else First (last (writtenRanges rs)), writtenRanges rs), r)"
    using bs(3) by (auto simp: bindE_eq_Inr_iff)
  let ?bytes = "[0x11, cpf_PathID f, cpf_flags f] @ (if rs \<noteq> [] then [nb] else [])
      @ version_bytes v (unat l) (unat L) @ bs"
  have "cpf_Write v f = Inr ?bytes"
    using bs(1,5) cpf_write_LargestAcked [OF c(2), of v]
    by (simp add: cpf_Write_def Let_def cpf_HasMissingRanges_def cpf_numWritableNackRanges_def
        nb_def not_less flip: L_def W_def rs_def d_def l_def)
  moreover have "ParseClosePathFrame v (?bytes @ r) = Inr (\<lparr>cpf_PathID = cpf_PathID f, cpf_LargestAcked = L,
            cpf_LowestAcked = (if rs = [] then W else First (last (writtenRanges rs))),
            cpf_AckRanges = writtenRanges rs\<rparr>, r)"
    using bs(4) p write_LargestAcked(2) [OF c(2), of v "bs @ r"]
    by (cases "rs = []") (simp_all add: ParseClosePathFrame_flags parseClosePathBody_def nb_def
        flip: L_def W_def rs_def d_def l_def)
  moreover have "length ?bytes = unat (cpf_MinLength f)"
  proof -
    have "length ?bytes = 3 + unat l + (if rs = [] then unat d else (1 + unat d) * unat (numWritableNackRanges rs))"
      using bs(2) numWritableNackRanges_bounds(1) [of rs] c(1)
      by (auto simp: vo.length_enc ack_wf_def split: if_splits)
    moreover have "cpf_MinLength f = of_nat (3 + unat l + (if rs = [] then unat d
        else (1 + unat d) * unat (numWritableNackRanges rs)))"
      by (simp add: cpf_MinLength_def Let_def cpf_HasMissingRanges_def cpf_numWritableNackRanges_def
          ring_distribs flip: L_def rs_def d_def l_def)
    moreover have "3 + unat l + (if rs = [] then unat d else (1 + unat d) * unat (numWritableNackRanges rs))
        < 18446744073709551616"
      using block_bytes_bound [OF c(1), of d l] deltaLen_valid
      by (simp add: d_def cpf_deltaLen_def l_def)
    ultimately show ?thesis using unat_of_nat64 by metis
  qed
  ultimately show ?thesis unfolding L_def W_def rs_def cpf_received_def by blast
qed

lemma parseClosePathBody_safe:
  assumes "n \<le> 6" "k \<le> 6"
  shows "no_panic (parseClosePathBody v p miss (of_nat n) (of_nat k) r)"
    and "parseClosePathBody v p miss (of_nat n) (of_nat k) r = Inr (f, r') \<Longrightarrow>
      ack_wf (cpf_LargestAcked f) (cpf_LowestAcked f) (cpf_AckRanges f) \<and>
      unat (cpf_LargestAcked f) < 2 ^ 48"
proof -
  show "no_panic (parseClosePathBody v p miss (of_nat n) (of_nat k) r)"
    unfolding parseClosePathBody_def using assms
    by (auto intro!: no_panic_intros parseAckRanges_no_panic simp: ErrInvalidAckRanges_def)
  assume "parseClosePathBody v p miss (of_nat n) (of_nat k) r = Inr (f, r')"
  then obtain r0 r1 r2 r3 nb abl where
      L: "ReadUintN (GetByteOrder v) (of_nat n) r0 = Inr (cpf_LargestAcked f, r1)"
      and p: "parseAckRanges v (of_nat k) miss nb (cpf_LargestAcked f) abl r2 =
        Inr ((cpf_LowestAcked f, cpf_AckRanges f), r3)"
      and nb: "miss \<Longrightarrow> nb \<noteq> 0"
    unfolding parseClosePathBody_def by (auto simp: bindE_eq_Inr_iff split: if_splits)
  have "unat (cpf_LargestAcked f) < 256 ^ n" using vo.readN_bound [OF L] assms(1) by simp
  also have "(256 :: nat) ^ n \<le> 256 ^ 6" using assms(1) by (intro power_increasing) simp_all
  finally have L48: "unat (cpf_LargestAcked f) < 2 ^ 48" by simp
  then show "ack_wf (cpf_LargestAcked f) (cpf_LowestAcked f) (cpf_AckRanges f) \<and>
      unat (cpf_LargestAcked f) < 2 ^ 48"
    using parseAckRanges_wf(1) [OF p assms(2) L48 nb] by simp
qed

lemma ParseClosePathFrame_safe:
  "no_panic (ParseClosePathFrame v r)"
  "ParseClosePathFrame v r = Inr (f, r') \<Longrightarrow>
   ack_wf (cpf_LargestAcked f) (cpf_LowestAcked f) (cpf_AckRanges f)"
proof -
  have body: "\<exists>n k. n \<le> 6 \<and> k \<le> 6 \<and>
      parseClosePathBody v p m (fieldLen (drop_bit 2 (t AND 0xC))) (fieldLen (t AND 3)) r0 =
      parseClosePathBody v p m (of_nat n) (of_nat k) r0" for p m t r0
  proof -
    obtain n where n: "n \<in> {1, 2, 4, 6 :: nat}" "fieldLen (drop_bit 2 t AND 3) = of_nat n"
      by (rule fieldLen_cases)
    obtain k where k: "k \<in> {1, 2, 4, 6 :: nat}" "fieldLen (t AND 3) = of_nat k"
      by (rule fieldLen_cases)
    show ?thesis unfolding drop_bit_2_and n(2) k(2) using n(1) k(1) by (intro exI [of _ n] exI [of _ k]) auto
  qed
  show "no_panic (ParseClosePathFrame v r)"
    unfolding ParseClosePathFrame_def
    by (intro no_panic_intros) (metis body parseClosePathBody_safe(1))
  assume "ParseClosePathFrame v r = Inr (f, r')"
  then show "ack_wf (cpf_LargestAcked f) (cpf_LowestAcked f) (cpf_AckRanges f)"
    unfolding ParseClosePathFrame_def bindE_eq_Inr_iff
    by (auto simp: bindE_eq_Inr_iff simp del: drop_bit_and) (metis body parseClosePathBody_safe(2))
qed

interpretation cpf: wire_frame cpf_Write ParseClosePathFrame "\<lambda>f. Inr (cpf_MinLength f)"
    cpf_writable cpf_received
proof unfold_locales
  fix v f and r bs :: bytes
  show "no_panic (ParseClosePathFrame v r)" by (rule ParseClosePathFrame_safe)
  assume w: "cpf_writable f"
  show "\<exists>bs. cpf_Write v f = Inr bs \<and> ParseClosePathFrame v (bs @ r) = Inr (cpf_received f, r)"
    using cpf_round_trip [OF w, of v r] by blast
  assume "cpf_Write v f = Inr bs"
  then show "\<exists>n. Inr (cpf_MinLength f) = Inr n \<and> length bs = unat n"
    using cpf_round_trip [OF w, of v] by auto
qed

text \<open>
  (C26) A CLOSE_PATH frame survives the wire like an ACK frame: a well-formed frame is written
  with exactly \<open>MinLength\<close> bytes, and parsing restores the path and the acknowledged ranges, or
  their longest prefix that fits.
\<close>

theorem ParseClosePathFrame_Write:
  assumes "cpf_writable f"
  shows "\<exists>bs. cpf_Write v f = Inr bs \<and> length bs = unat (cpf_MinLength f) \<and>
    ParseClosePathFrame v (bs @ r) =
      Inr (\<lparr>cpf_PathID = cpf_PathID f, cpf_LargestAcked = cpf_LargestAcked f,
            cpf_LowestAcked = (if cpf_AckRanges f = [] then cpf_LowestAcked f
                               else First (last (writtenRanges (cpf_AckRanges f)))),
            cpf_AckRanges = writtenRanges (cpf_AckRanges f)\<rparr>, r)"
  using cpf_round_trip [OF assms, of v r] by (simp add: cpf_received_def)

theorem ParseClosePathFrame_Write_witness:
  "\<exists>bs. cpf_Write 512 \<lparr>cpf_PathID = 3, cpf_LargestAcked = 1000, cpf_LowestAcked = 2,
        cpf_AckRanges = [\<lparr>First = 990, Last = 1000\<rparr>, \<lparr>First = 2, Last = 300\<rparr>]\<rparr> = Inr bs \<and>
    length bs = unat (cpf_MinLength \<lparr>cpf_PathID = 3, cpf_LargestAcked = 1000, cpf_LowestAcked = 2,
        cpf_AckRanges = [\<lparr>First = 990, Last = 1000\<rparr>, \<lparr>First = 2, Last = 300\<rparr>]\<rparr>) \<and>
    ParseClosePathFrame 512 (bs @ [7]) =
      Inr (\<lparr>cpf_PathID = 3, cpf_LargestAcked = 1000, cpf_LowestAcked = 2,
        cpf_AckRanges = [\<lparr>First = 990, Last = 1000\<rparr>, \<lparr>First = 2, Last = 300\<rparr>]\<rparr>, [7])"
proof -
  define f where "f = \<lparr>cpf_PathID = 3, cpf_LargestAcked = 1000, cpf_LowestAcked = 2,
        cpf_AckRanges = [\<lparr>First = 990, Last = 1000\<rparr>, \<lparr>First = 2, Last = 300\<rparr>]\<rparr>"
  have "cpf_writable f" by (simp add: f_def cpf_writable_def ack_wf_def rnum_def rgap_def)
  then show ?thesis
    using ParseClosePathFrame_Write [of f 512 "[7]"] by (simp add: f_def rnum_def rgap_def)
qed

end
