(* ===== verification/Received_History.thy ===== *)
theory Received_History
imports Close_Path_Frame
begin

text \<open>
  The receiving side of acknowledgements, \<^verbatim>\<open>ackhandler/received_packet_history.go\<close>: which packet
  numbers have been received, as a list of intervals in ascending order. The list is the
  linked list of \<^verbatim>\<open>internal/utils\<close>, modelled here by the sequence it implements; its loops from the back
  run over the reversed sequence.
\<close>

section \<open>Definitions\<close>

definition TooManyOutstandingReceivedPackets :: ErrorCode where
  "TooManyOutstandingReceivedPackets = 69"

record PacketInterval =
  pi_Start :: PacketNumber
  pi_End :: PacketNumber

record receivedPacketHistory =
  rh_ranges :: "PacketInterval list"
  rh_lowestInReceivedPacketNumbers :: PacketNumber

definition errTooManyOutstandingReceivedAckRanges :: error where
  "errTooManyOutstandingReceivedAckRanges =
     QuicErr TooManyOutstandingReceivedPackets ''Too many outstanding received ACK ranges''"

definition newReceivedPacketHistory :: receivedPacketHistory where
  "newReceivedPacketHistory = \<lparr>rh_ranges = [], rh_lowestInReceivedPacketNumbers = 0\<rparr>"

text \<open>The loop of \<^verbatim>\<open>ReceivedPacket\<close>, from the last range to the first one.\<close>

fun mergeWithPrev :: "PacketInterval \<Rightarrow> PacketInterval list \<Rightarrow> PacketInterval list" where
  "mergeWithPrev el [] = [el]"
| "mergeWithPrev el (prev # rest) =
     (if pi_End prev + 1 = pi_Start el then prev\<lparr>pi_End := pi_End el\<rparr> # rest else el # prev # rest)"

fun receiveLoop :: "PacketNumber \<Rightarrow> PacketInterval list \<Rightarrow> PacketInterval list" where
  "receiveLoop p [] = [\<lparr>pi_Start = p, pi_End = p\<rparr>]"
| "receiveLoop p (el # prevs) =
     (if p \<ge> pi_Start el \<and> p \<le> pi_End el then el # prevs
      else if pi_End el = p - 1 then mergeWithPrev (el\<lparr>pi_End := p\<rparr>) prevs
      else if pi_Start el = p + 1 then mergeWithPrev (el\<lparr>pi_Start := p\<rparr>) prevs
      else if p > pi_End el then \<lparr>pi_Start = p, pi_End = p\<rparr> # el # prevs
      else el # receiveLoop p prevs)"

definition rh_ReceivedPacket :: "PacketNumber \<Rightarrow> receivedPacketHistory \<Rightarrow> receivedPacketHistory result" where
  "rh_ReceivedPacket p h =
     (if length (rh_ranges h) \<ge> MaxTrackedReceivedAckRanges
      then Inl errTooManyOutstandingReceivedAckRanges
      else if length (rh_ranges h) = 0
      then Inr (h\<lparr>rh_ranges := rh_ranges h @ [\<lparr>pi_Start = p, pi_End = p\<rparr>]\<rparr>)
      else Inr (h\<lparr>rh_ranges := rev (receiveLoop p (rev (rh_ranges h)))\<rparr>))"

fun deleteLoop :: "PacketNumber \<Rightarrow> PacketInterval list \<Rightarrow> PacketInterval list" where
  "deleteLoop p [] = []"
| "deleteLoop p (el # nexts) =
     (if p \<ge> pi_Start el \<and> p < pi_End el then el\<lparr>pi_Start := p + 1\<rparr> # deleteLoop p nexts
      else if pi_End el \<le> p then deleteLoop p nexts
      else el # nexts)"

definition rh_DeleteUpTo :: "PacketNumber \<Rightarrow> receivedPacketHistory \<Rightarrow> receivedPacketHistory" where
  "rh_DeleteUpTo p h =
     h\<lparr>rh_lowestInReceivedPacketNumbers := max (rh_lowestInReceivedPacketNumbers h) (p + 1),
       rh_ranges := deleteLoop p (rh_ranges h)\<rparr>"

definition toAckRange :: "PacketInterval \<Rightarrow> AckRange" where
  "toAckRange el = \<lparr>First = pi_Start el, Last = pi_End el\<rparr>"

definition rh_GetAckRanges :: "receivedPacketHistory \<Rightarrow> AckRange list" where
  "rh_GetAckRanges h = map toAckRange (rev (rh_ranges h))"

definition rh_GetHighestAckRange :: "receivedPacketHistory \<Rightarrow> AckRange" where
  "rh_GetHighestAckRange h =
     (if length (rh_ranges h) > 0
      then \<lparr>First = pi_Start (last (rh_ranges h)), Last = pi_End (last (rh_ranges h))\<rparr>
      else \<lparr>First = 0, Last = 0\<rparr>)"

section \<open>The set of received packets\<close>

text \<open>Descending ranges in terms of the packet numbers they hold.\<close>

lemma range_set_simps [simp]:
  "range_set [] = {}" "range_set (a # rs) = {First a .. Last a} \<union> range_set rs"
  by (auto simp: range_set_def)

lemma toAckRange_sel [simp]: "First (toAckRange e) = pi_Start e" "Last (toAckRange e) = pi_End e"
  by (simp_all add: toAckRange_def)

lemma desc_ranges_set:
  "desc_ranges (a # rs) \<longleftrightarrow>
     First a \<le> Last a \<and> (\<forall>x\<in>range_set rs. unat x + 1 < unat (First a)) \<and> desc_ranges rs"
proof
  assume d: "desc_ranges (a # rs)"
  then have "unat x + 1 < unat (First a)" if "x \<in> range_set rs" for x
    using desc_ranges_below [OF d] that by (fastforce simp: range_set_def word_le_nat_alt)
  with d show "First a \<le> Last a \<and> (\<forall>x\<in>range_set rs. unat x + 1 < unat (First a)) \<and> desc_ranges rs"
    by (simp add: desc_ranges_Cons)
next
  assume a: "First a \<le> Last a \<and> (\<forall>x\<in>range_set rs. unat x + 1 < unat (First a)) \<and> desc_ranges rs"
  have "Last (hd rs) \<in> range_set rs" if "rs \<noteq> []"
    using that a desc_ranges_nonempty [of rs "hd rs"] by (auto simp: range_set_def)
  with a show "desc_ranges (a # rs)" by (auto simp: desc_ranges_Cons)
qed

abbreviation desc_intervals :: "PacketInterval list \<Rightarrow> bool" where
  "desc_intervals es \<equiv> desc_ranges (map toAckRange es)"

abbreviation interval_set :: "PacketInterval list \<Rightarrow> PacketNumber set" where
  "interval_set es \<equiv> range_set (map toAckRange es)"

definition rh_set :: "receivedPacketHistory \<Rightarrow> PacketNumber set" where
  "rh_set h = interval_set (rh_ranges h)"

definition rh_wf :: "receivedPacketHistory \<Rightarrow> bool" where
  "rh_wf h \<longleftrightarrow> desc_intervals (rev (rh_ranges h)) \<and> 0 \<notin> rh_set h"

lemma interval_extend_high:
  "unat p = unat e + 1 \<Longrightarrow> s \<le> e \<Longrightarrow> {s .. p} = insert p {s .. e}" for p :: PacketNumber
  by (auto simp: word_le_nat_alt word_unat_eq_iff)

lemma interval_extend_low:
  "unat s = unat p + 1 \<Longrightarrow> s \<le> e \<Longrightarrow> {p .. e} = insert p {s .. e}" for p :: PacketNumber
  by (auto simp: word_le_nat_alt word_unat_eq_iff)

lemma interval_join:
  "unat s = unat f + 1 \<Longrightarrow> r \<le> f \<Longrightarrow> s \<le> e \<Longrightarrow> {r .. e} = {r .. f} \<union> {s .. e}" for s :: PacketNumber
  by (auto simp: word_le_nat_alt)

lemma unat_pred: "p \<noteq> 0 \<Longrightarrow> unat (p - 1 :: 'a::len word) = unat p - 1"
  using unat_diff_no_wrap [of 1 p] by (simp add: unat_gt_0 Suc_leI)

lemma unat_succ: "x + 1 \<noteq> 0 \<Longrightarrow> unat (x + 1 :: 'a::len word) = unat x + 1"
  using unatSuc [of x] by (simp add: add.commute)

lemma desc_intervals_below:
  "desc_intervals (a # es) \<Longrightarrow> x \<in> interval_set es \<Longrightarrow> unat x + 1 < unat (pi_Start a)"
  by (simp add: desc_ranges_set)

lemma mergeWithPrev_correct:
  assumes el: "pi_Start el \<le> pi_End el" "\<forall>x\<in>interval_set prevs. x < pi_Start el"
    and d: "desc_intervals prevs"
  shows "desc_intervals (mergeWithPrev el prevs) \<and>
    interval_set (mergeWithPrev el prevs) = {pi_Start el .. pi_End el} \<union> interval_set prevs"
proof (cases prevs)
  case (Cons prev rest)
  have prev: "pi_Start prev \<le> pi_End prev" "pi_End prev < pi_Start el"
    and rest: "\<forall>x\<in>interval_set rest. unat x + 1 < unat (pi_Start prev)" "desc_intervals rest"
    using d el(2) Cons by (auto simp: desc_ranges_set)
  have succ: "unat (pi_End prev + 1) = unat (pi_End prev) + 1"
    using prev by (intro unat_succ_below [where y = "pi_Start el"]) (simp add: unat_simps)
  show ?thesis
  proof (cases "pi_End prev + 1 = pi_Start el")
    case True
    then have "unat (pi_Start el) = unat (pi_End prev) + 1" using succ by simp
    then have "{pi_Start prev .. pi_End el} = {pi_Start prev .. pi_End prev} \<union> {pi_Start el .. pi_End el}"
      using prev el by (intro interval_join)
    moreover have "pi_Start prev \<le> pi_End el" using prev el by simp
    ultimately show ?thesis using True Cons rest by (auto simp: desc_ranges_set)
  next
    case False
    then have "unat (pi_End prev) + 1 < unat (pi_Start el)"
      using succ prev by (metis Suc_eq_plus1 Suc_lessI word_less_nat_alt word_unat_eq_iff)
    moreover have "unat x \<le> unat (pi_End prev)" if "x \<in> interval_set prevs" for x
      using that rest prev Cons by (force simp: word_le_nat_alt)
    ultimately have "\<forall>x\<in>interval_set prevs. unat x + 1 < unat (pi_Start el)" by fastforce
    then show ?thesis using False Cons el d by (simp add: desc_ranges_set)
  qed
qed (use el in \<open>simp add: desc_ranges_set\<close>)

lemma receiveLoop_correct:
  assumes "desc_intervals es" "0 \<notin> interval_set es" "p \<noteq> 0"
  shows "desc_intervals (receiveLoop p es) \<and> interval_set (receiveLoop p es) = insert p (interval_set es)"
  using assms
proof (induction es)
  case (Cons el prevs)
  have el: "pi_Start el \<le> pi_End el" "pi_Start el \<noteq> 0"
    and below: "\<And>x. x \<in> interval_set prevs \<Longrightarrow> unat x + 1 < unat (pi_Start el)"
    and d: "desc_intervals prevs"
    using Cons.prems by (auto simp: desc_ranges_set)
  then have lt: "\<forall>x\<in>interval_set prevs. x < pi_Start el" by (auto simp: word_less_nat_alt dest: Suc_lessD)
  consider (inside) "p \<ge> pi_Start el" "p \<le> pi_End el" | (above) "p > pi_End el" | (under) "p < pi_Start el"
    by fastforce
  then show ?case
  proof cases
    case inside
    then show ?thesis using Cons.prems by (auto simp: insert_absorb)
  next
    case above
    show ?thesis
    proof (cases "pi_End el = p - 1")
      case True
      then have p: "unat p = unat (pi_End el) + 1" using unat_pred [OF Cons.prems(3)] Cons.prems(3)
        by (simp add: unat_gt_0)
      have "desc_intervals (mergeWithPrev (el\<lparr>pi_End := p\<rparr>) prevs) \<and>
          interval_set (mergeWithPrev (el\<lparr>pi_End := p\<rparr>) prevs) = {pi_Start el .. p} \<union> interval_set prevs"
        using mergeWithPrev_correct [of "el\<lparr>pi_End := p\<rparr>" prevs] el above d lt by simp
      then show ?thesis using True above interval_extend_high [OF p el(1)] by auto
    next
      case False
      then have "unat (pi_End el) + 1 < unat p" using above unat_pred [OF Cons.prems(3)]
        by (metis Suc_eq_plus1 Suc_lessI diff_Suc_1 word_less_nat_alt word_unat_eq_iff)
      then have "\<forall>x\<in>interval_set (el # prevs). unat x + 1 < unat p"
        using below el(1) by (force simp: word_le_nat_alt)
      then have "desc_intervals (\<lparr>pi_Start = p, pi_End = p\<rparr> # el # prevs)"
        using Cons.prems(1) by (simp only: list.map desc_ranges_set toAckRange_sel) simp
      moreover have "pi_Start el \<noteq> p + 1"
      proof
        assume eq: "pi_Start el = p + 1"
        then have "unat (pi_Start el) = unat p + 1" using el(2) by (simp add: unat_succ)
        then show False using above el(1) by (simp add: unat_simps)
      qed
      ultimately show ?thesis using False above by auto
    qed
  next
    case under
    then have "pi_End el \<noteq> p - 1"
      using el(1) unat_pred [OF Cons.prems(3)] by (auto simp: unat_simps)
    show ?thesis
    proof (cases "pi_Start el = p + 1")
      case True
      then have s: "unat (pi_Start el) = unat p + 1" using el(2) by (simp add: unat_succ)
      have "desc_intervals (mergeWithPrev (el\<lparr>pi_Start := p\<rparr>) prevs) \<and>
          interval_set (mergeWithPrev (el\<lparr>pi_Start := p\<rparr>) prevs) = {p .. pi_End el} \<union> interval_set prevs"
      proof -
        have "p \<le> pi_End el" using under el(1) by simp
        then show ?thesis
          using mergeWithPrev_correct [of "el\<lparr>pi_Start := p\<rparr>" prevs] d below s
          by (simp add: word_less_nat_alt)
      qed
      then show ?thesis
        using True under \<open>pi_End el \<noteq> p - 1\<close> interval_extend_low [OF s el(1)] by auto
    next
      case False
      have "unat p + 1 < unat (pi_Start el)"
        using False under unat_succ_below [of p "pi_Start el"]
        by (metis Suc_eq_plus1 Suc_leI Suc_lessI word_less_nat_alt word_unat_eq_iff)
      then have "\<forall>x\<in>insert p (interval_set prevs). unat x + 1 < unat (pi_Start el)" using below by simp
      moreover have "desc_intervals (receiveLoop p prevs) \<and>
          interval_set (receiveLoop p prevs) = insert p (interval_set prevs)"
        using Cons.IH Cons.prems d by simp
      moreover have "\<not> pi_End el < p" using under el(1) by simp
      ultimately show ?thesis
        using False under \<open>pi_End el \<noteq> p - 1\<close> el(1) by (auto simp: desc_ranges_set)
    qed
  qed
qed (simp add: desc_ranges_set)

lemma interval_set_rev [simp]: "interval_set (rev es) = interval_set es"
  by (auto simp: range_set_def)

text \<open>Registering a packet number inserts it into the set and keeps the ranges apart.\<close>

lemma rh_ReceivedPacket_correct:
  assumes "rh_wf h" "p \<noteq> 0" "rh_ReceivedPacket p h = Inr h'"
  shows "rh_wf h' \<and> rh_set h' = insert p (rh_set h)"
proof (cases "rh_ranges h = []")
  case True
  then show ?thesis
    using assms by (auto simp: rh_ReceivedPacket_def rh_wf_def rh_set_def desc_ranges_set split: if_splits)
next
  case False
  then have h': "h' = h\<lparr>rh_ranges := rev (receiveLoop p (rev (rh_ranges h)))\<rparr>"
    using assms(3) by (auto simp: rh_ReceivedPacket_def split: if_splits)
  have "desc_intervals (receiveLoop p (rev (rh_ranges h))) \<and>
      interval_set (receiveLoop p (rev (rh_ranges h))) = insert p (rh_set h)"
    using receiveLoop_correct [of "rev (rh_ranges h)" p] assms(1,2)
    by (simp add: rh_wf_def rh_set_def)
  then show ?thesis using assms(1,2) by (auto simp: h' rh_wf_def rh_set_def)
qed

text \<open>Deleting up to a packet number keeps the packets above it.\<close>

lemma desc_ranges_snoc:
  "desc_ranges (rs @ [a]) \<longleftrightarrow>
     First a \<le> Last a \<and> (\<forall>x\<in>range_set rs. unat (Last a) + 1 < unat x) \<and> desc_ranges rs"
proof (induction rs)
  case (Cons b rs)
  have app: "range_set (rs @ [a]) = range_set rs \<union> {First a .. Last a}" by (auto simp: range_set_def)
  show ?case
  proof
    assume d: "desc_ranges ((b # rs) @ [a])"
    then have b: "First b \<le> Last b" "\<forall>x\<in>range_set (rs @ [a]). unat x + 1 < unat (First b)" "desc_ranges (rs @ [a])"
      by (simp_all add: desc_ranges_set)
    have a: "First a \<le> Last a" "\<forall>x\<in>range_set rs. unat (Last a) + 1 < unat x" "desc_ranges rs"
      using Cons.IH b(3) by simp_all
    have "Last a \<in> range_set (rs @ [a])" using a by (simp add: app)
    then have "unat (Last a) + 1 < unat (First b)" using b(2) by blast
    then have "unat (Last a) + 1 < unat x" if "x \<in> {First b .. Last b}" for x
      using that by (auto simp: word_le_nat_alt)
    then show "First a \<le> Last a \<and> (\<forall>x\<in>range_set (b # rs). unat (Last a) + 1 < unat x) \<and> desc_ranges (b # rs)"
      using a b by (auto simp: desc_ranges_set app)
  next
    assume r: "First a \<le> Last a \<and> (\<forall>x\<in>range_set (b # rs). unat (Last a) + 1 < unat x) \<and> desc_ranges (b # rs)"
    then have "First b \<le> Last b" by (simp add: desc_ranges_set)
    then have "First b \<in> range_set (b # rs)" by simp
    then have "unat (Last a) + 1 < unat (First b)" using r by blast
    then have "\<forall>x\<in>{First a .. Last a}. unat x + 1 < unat (First b)" by (auto simp: word_le_nat_alt)
    then show "desc_ranges ((b # rs) @ [a])" using r Cons.IH by (auto simp: desc_ranges_set app)
  qed
qed (simp add: desc_ranges_set)

lemma deleteLoop_correct:
  assumes "desc_intervals (rev es)"
  shows "desc_intervals (rev (deleteLoop p es)) \<and>
    interval_set (deleteLoop p es) = {x \<in> interval_set es. p < x}"
  using assms
proof (induction es)
  case (Cons el nexts)
  have el: "pi_Start el \<le> pi_End el" and d: "desc_intervals (rev nexts)"
    and above: "\<And>x. x \<in> interval_set nexts \<Longrightarrow> unat (pi_End el) + 1 < unat x"
    using Cons.prems by (auto simp: desc_ranges_snoc)
  have ih: "desc_intervals (rev (deleteLoop p nexts))"
    "interval_set (deleteLoop p nexts) = {x \<in> interval_set nexts. p < x}"
    using Cons.IH d by simp_all
  consider (cut) "p \<ge> pi_Start el" "p < pi_End el" | (all) "pi_End el \<le> p" | (none) "p < pi_Start el"
    by fastforce
  then show ?case
  proof cases
    case cut
    have s: "unat (p + 1) = unat p + 1"
      using cut by (intro unat_succ_below [where y = "pi_End el"]) (simp add: unat_simps)
    have "{x \<in> {pi_Start el .. pi_End el}. p < x} = {p + 1 .. pi_End el}"
      using cut s by (auto simp: unat_simps)
    moreover have "p + 1 \<le> pi_End el" using cut s by (simp add: unat_simps)
    ultimately show ?thesis
      using cut ih above by (auto simp: desc_ranges_snoc)
  next
    case all
    then have "{x \<in> {pi_Start el .. pi_End el}. p < x} = {}" by auto
    then show ?thesis using all ih by auto
  next
    case none
    then have "\<forall>x\<in>interval_set (el # nexts). p < x"
      using above el by (fastforce simp: unat_simps)
    moreover have "deleteLoop p (el # nexts) = el # nexts"
    proof -
      have "\<not> pi_Start el \<le> p" "\<not> pi_End el \<le> p" using none el by auto
      then show ?thesis by simp
    qed
    ultimately show ?thesis using Cons.prems by auto
  qed
qed simp

lemma rh_DeleteUpTo_correct:
  assumes "rh_wf h"
  shows "rh_wf (rh_DeleteUpTo p h) \<and> rh_set (rh_DeleteUpTo p h) = {x \<in> rh_set h. p < x}"
  using deleteLoop_correct [of "rh_ranges h" p] assms
  by (auto simp: rh_wf_def rh_set_def rh_DeleteUpTo_def)

text \<open>The ranges of an ACK frame are those of the history.\<close>

lemma rh_GetAckRanges_correct:
  assumes "rh_wf h"
  shows "desc_ranges (rh_GetAckRanges h) \<and> range_set (rh_GetAckRanges h) = rh_set h"
  using assms by (simp add: rh_wf_def rh_set_def rh_GetAckRanges_def)

lemma rh_GetHighestAckRange_hd:
  "rh_ranges h \<noteq> [] \<Longrightarrow> rh_GetHighestAckRange h = hd (rh_GetAckRanges h)"
  by (cases "rh_ranges h" rule: rev_cases) (simp_all add: rh_GetHighestAckRange_def rh_GetAckRanges_def toAckRange_def)

lemma newReceivedPacketHistory_correct: "rh_wf newReceivedPacketHistory \<and> rh_set newReceivedPacketHistory = {}"
  by (simp add: newReceivedPacketHistory_def rh_wf_def rh_set_def)

section \<open>The interface to the handler\<close>

text \<open>
  What the received packet handler relies on: the history is a set of packet numbers, adding and
  deleting are the operations on that set, and the ranges cover exactly the set.
\<close>

locale packet_history =
  fixes wf :: "'h \<Rightarrow> bool" and pset :: "'h \<Rightarrow> PacketNumber set"
    and add :: "PacketNumber \<Rightarrow> 'h \<Rightarrow> 'h result" and del :: "PacketNumber \<Rightarrow> 'h \<Rightarrow> 'h"
    and ranges :: "'h \<Rightarrow> AckRange list"
  assumes add_set: "wf h \<Longrightarrow> p \<noteq> 0 \<Longrightarrow> add p h = Inr h' \<Longrightarrow> wf h' \<and> pset h' = insert p (pset h)"
    and del_set: "wf h \<Longrightarrow> wf (del p h) \<and> pset (del p h) = {x \<in> pset h. p < x}"
    and ranges_set: "wf h \<Longrightarrow> desc_ranges (ranges h) \<and> range_set (ranges h) = pset h"
begin

text \<open>A frame that is built from the ranges is well-formed and acknowledges exactly the set.\<close>

lemma frame_ranges:
  assumes "wf h" "m \<in> pset h" "\<forall>x\<in>pset h. x \<le> m"
  defines "rs \<equiv> ranges h"
  shows "rs \<noteq> [] \<and> ack_wf m (First (last rs)) (if length rs > 1 then rs else []) \<and>
    acked_set m (First (last rs)) (if length rs > 1 then rs else []) = pset h"
proof -
  have d: "desc_ranges rs" and r: "range_set rs = pset h" using ranges_set [OF assms(1)] by (simp_all add: rs_def)
  have ne: "rs \<noteq> []" using r assms(2) by auto
  then have "Last (hd rs) \<in> pset h"
    unfolding r [symmetric] using d by (cases rs) (auto simp: desc_ranges_Cons)
  moreover obtain a where a: "a \<in> set rs" "First a \<le> m" "m \<le> Last a"
    using assms(2) unfolding r [symmetric] range_set_def by auto
  then have "m \<le> Last (hd rs)" using desc_ranges_hd [OF d a(1)] by simp
  ultimately have m: "Last (hd rs) = m" using assms(3) by (simp add: antisym)
  show ?thesis
  proof (cases "length rs > 1")
    case True
    then show ?thesis using ne d m r by (auto simp: ack_wf_def acked_set_def)
  next
    case False
    then obtain b where "rs = [b]" using ne by (cases rs) auto
    then show ?thesis using d m r by (auto simp: ack_wf_def acked_set_def)
  qed
qed

end

interpretation history: packet_history rh_wf rh_set rh_ReceivedPacket rh_DeleteUpTo rh_GetAckRanges
  by unfold_locales (rule rh_ReceivedPacket_correct rh_DeleteUpTo_correct rh_GetAckRanges_correct, assumption+)+

text \<open>
  (C4) The received packet history refines a set of packet numbers: registering a packet inserts
  it, deleting up to a number removes exactly the numbers up to it, and the reported ACK ranges
  are in descending order, never touch each other, and cover exactly the set.
\<close>

theorem receivedPacketHistory_refines_set:
  assumes "rh_wf h" "p \<noteq> 0"
  shows "(case rh_ReceivedPacket p h of
            Inl e \<Rightarrow> e = errTooManyOutstandingReceivedAckRanges \<and> length (rh_GetAckRanges h) \<ge> MaxTrackedReceivedAckRanges
          | Inr h' \<Rightarrow> rh_wf h' \<and> rh_set h' = insert p (rh_set h)) \<and>
    rh_wf (rh_DeleteUpTo q h) \<and> rh_set (rh_DeleteUpTo q h) = {x \<in> rh_set h. q < x} \<and>
    desc_ranges (rh_GetAckRanges h) \<and> range_set (rh_GetAckRanges h) = rh_set h"
proof -
  have "case rh_ReceivedPacket p h of
          Inl e \<Rightarrow> e = errTooManyOutstandingReceivedAckRanges \<and> length (rh_GetAckRanges h) \<ge> MaxTrackedReceivedAckRanges
        | Inr h' \<Rightarrow> rh_wf h' \<and> rh_set h' = insert p (rh_set h)"
  proof (cases "rh_ReceivedPacket p h")
    case (Inl e)
    then show ?thesis by (auto simp: rh_ReceivedPacket_def rh_GetAckRanges_def split: if_splits)
  next
    case (Inr h')
    then show ?thesis using history.add_set [OF assms] by simp
  qed
  then show ?thesis using history.del_set [OF assms(1)] history.ranges_set [OF assms(1)] by simp
qed

theorem receivedPacketHistory_refines_set_witness:
  "let h = \<lparr>rh_ranges = [\<lparr>pi_Start = 2, pi_End = 4\<rparr>, \<lparr>pi_Start = 6, pi_End = 9\<rparr>],
            rh_lowestInReceivedPacketNumbers = 0\<rparr>
   in rh_wf h \<and> rh_set (rh_DeleteUpTo 3 h) = {x \<in> rh_set h. 3 < x} \<and>
      rh_ReceivedPacket 5 h = Inr (h\<lparr>rh_ranges := [\<lparr>pi_Start = 2, pi_End = 9\<rparr>]\<rparr>)"
proof -
  define h where "h = \<lparr>rh_ranges = [\<lparr>pi_Start = 2, pi_End = 4\<rparr>, \<lparr>pi_Start = 6, pi_End = 9\<rparr>],
            rh_lowestInReceivedPacketNumbers = 0\<rparr>"
  have "rh_wf h" by (simp add: h_def rh_wf_def rh_set_def toAckRange_def)
  moreover have "rh_ReceivedPacket 5 h = Inr (h\<lparr>rh_ranges := [\<lparr>pi_Start = 2, pi_End = 9\<rparr>]\<rparr>)"
    by (simp add: h_def rh_ReceivedPacket_def MaxTrackedReceivedAckRanges_def DefaultMaxCongestionWindow_def)
  ultimately show ?thesis
    using receivedPacketHistory_refines_set [of h 5 3] unfolding Let_def h_def [symmetric] by simp
qed

end
