(* ===== verification/Received_Handler.thy ===== *)
theory Received_Handler
imports Received_History
begin

text \<open>
  The received packet handler, \<^verbatim>\<open>ackhandler/received_packet_handler.go\<close>: it records received packets in
  the history, decides when an ACK is due, and builds ACK and CLOSE_PATH frames. The calls of
  \<^verbatim>\<open>time.Now\<close> are arguments of the operations. An operation that can return an error returns it
  together with the state it leaves behind.
\<close>

section \<open>Definitions\<close>

record receivedPacketHandler =
  rph_largestObserved :: PacketNumber
  rph_lowerLimit :: PacketNumber
  rph_largestObservedReceivedTime :: gotime
  rph_packetHistory :: receivedPacketHistory
  rph_ackSendDelay :: duration
  rph_packetsReceivedSinceLastAck :: int
  rph_retransmittablePacketsReceivedSinceLastAck :: int
  rph_ackQueued :: bool
  rph_ackAlarm :: gotime
  rph_lastAck :: "AckFrame option"
  rph_version :: VersionNumber
  rph_packets :: uint64

definition errInvalidPacketNumber :: error where
  "errInvalidPacketNumber = GoErr ''ReceivedPacketHandler: Invalid packet number''"

definition NewReceivedPacketHandler :: "VersionNumber \<Rightarrow> receivedPacketHandler" where
  "NewReceivedPacketHandler version =
     \<lparr>rph_largestObserved = 0, rph_lowerLimit = 0, rph_largestObservedReceivedTime = 0,
      rph_packetHistory = newReceivedPacketHistory, rph_ackSendDelay = AckSendDelay,
      rph_packetsReceivedSinceLastAck = 0, rph_retransmittablePacketsReceivedSinceLastAck = 0,
      rph_ackQueued = False, rph_ackAlarm = 0, rph_lastAck = None, rph_version = version,
      rph_packets = 0\<rparr>"

definition rph_GetStatistics :: "receivedPacketHandler \<Rightarrow> uint64" where
  "rph_GetStatistics h = rph_packets h"

text \<open>\<^verbatim>\<open>maybeQueueAck\<close> in the order of its conditionals.\<close>

definition queueAckIf :: "bool \<Rightarrow> receivedPacketHandler \<Rightarrow> receivedPacketHandler" where
  "queueAckIf c h = (if c then h\<lparr>rph_ackQueued := True\<rparr> else h)"

definition countPacket :: "bool \<Rightarrow> receivedPacketHandler \<Rightarrow> receivedPacketHandler" where
  "countPacket shouldInstigateAck h =
     h\<lparr>rph_packetsReceivedSinceLastAck := rph_packetsReceivedSinceLastAck h + 1,
       rph_retransmittablePacketsReceivedSinceLastAck :=
         (if shouldInstigateAck then rph_retransmittablePacketsReceivedSinceLastAck h + 1
          else rph_retransmittablePacketsReceivedSinceLastAck h)\<rparr>"

definition reportedMissing :: "PacketNumber \<Rightarrow> receivedPacketHandler \<Rightarrow> bool" where
  "reportedMissing packetNumber h =
     (case rph_lastAck h of None \<Rightarrow> False | Some lastAck \<Rightarrow> packetNumber < af_LargestAcked lastAck)"

definition newMissingRange :: "receivedPacketHandler \<Rightarrow> bool" where
  "newMissingRange h =
     (case rph_lastAck h of None \<Rightarrow> False
      | Some lastAck \<Rightarrow> First (rh_GetHighestAckRange (rph_packetHistory h)) > af_LargestAcked lastAck)"

definition queueOrSetAlarm :: "bool \<Rightarrow> gotime \<Rightarrow> receivedPacketHandler \<Rightarrow> receivedPacketHandler" where
  "queueOrSetAlarm shouldInstigateAck now h =
     (if \<not> rph_ackQueued h \<and> shouldInstigateAck
      then if rph_retransmittablePacketsReceivedSinceLastAck h \<ge> RetransmittablePacketsBeforeAck
           then h\<lparr>rph_ackQueued := True\<rparr>
           else if rph_ackAlarm h = 0
           then h\<lparr>rph_ackAlarm := now + rph_ackSendDelay h\<rparr>
           else h
      else h)"

definition queueChecks :: "PacketNumber \<Rightarrow> receivedPacketHandler \<Rightarrow> receivedPacketHandler" where
  "queueChecks packetNumber h =
     (let h = queueAckIf (rph_lastAck h = None) h;
          h = queueAckIf (rph_version h < Version39 \<and>
                rph_packetsReceivedSinceLastAck h \<ge> MaxPacketsReceivedBeforeAckSend) h;
          h = queueAckIf (reportedMissing packetNumber h) h
      in queueAckIf (newMissingRange h) h)"

definition maybeQueueAck :: "PacketNumber \<Rightarrow> bool \<Rightarrow> gotime \<Rightarrow> receivedPacketHandler \<Rightarrow> receivedPacketHandler" where
  "maybeQueueAck packetNumber shouldInstigateAck now h =
     (let h = countPacket shouldInstigateAck h;
          h = queueChecks packetNumber h;
          h = queueOrSetAlarm shouldInstigateAck now h
      in if rph_ackQueued h then h\<lparr>rph_ackAlarm := 0\<rparr> else h)"

definition observePacket :: "PacketNumber \<Rightarrow> gotime \<Rightarrow> receivedPacketHandler \<Rightarrow> receivedPacketHandler" where
  "observePacket packetNumber now h =
     (let h = h\<lparr>rph_packets := rph_packets h + 1\<rparr>
      in if packetNumber > rph_largestObserved h
         then h\<lparr>rph_largestObserved := packetNumber, rph_largestObservedReceivedTime := now\<rparr>
         else h)"

definition rph_ReceivedPacket ::
    "PacketNumber \<Rightarrow> bool \<Rightarrow> gotime \<Rightarrow> gotime \<Rightarrow> receivedPacketHandler \<Rightarrow> error option \<times> receivedPacketHandler" where
  "rph_ReceivedPacket packetNumber shouldInstigateAck now now' h =
     (if packetNumber = 0 then (Some errInvalidPacketNumber, h)
      else let h = observePacket packetNumber now h
      in if packetNumber \<le> rph_lowerLimit h then (None, h)
         else case rh_ReceivedPacket packetNumber (rph_packetHistory h) of
                Inl err \<Rightarrow> (Some err, h)
              | Inr hist \<Rightarrow>
                  (None, maybeQueueAck packetNumber shouldInstigateAck now' (h\<lparr>rph_packetHistory := hist\<rparr>)))"

definition rph_SetLowerLimit :: "PacketNumber \<Rightarrow> receivedPacketHandler \<Rightarrow> receivedPacketHandler" where
  "rph_SetLowerLimit p h =
     h\<lparr>rph_lowerLimit := p, rph_packetHistory := rh_DeleteUpTo p (rph_packetHistory h)\<rparr>"

text \<open>Both frames read the last element of the ranges; without ranges that is a panic.\<close>

definition lastRange :: "AckRange list \<Rightarrow> AckRange result" where
  "lastRange rs = (if rs = [] then Inl (Panic ''index out of range'') else Inr (rs ! (length rs - 1)))"

definition rph_GetAckFrame :: "gotime \<Rightarrow> receivedPacketHandler \<Rightarrow> (AckFrame option \<times> receivedPacketHandler) result" where
  "rph_GetAckFrame now h =
     (if \<not> rph_ackQueued h \<and> (rph_ackAlarm h = 0 \<or> rph_ackAlarm h > now) then Inr (None, h)
      else let ackRanges = rh_GetAckRanges (rph_packetHistory h)
      in bindE (lastRange ackRanges) (\<lambda>lowest.
         let ack = \<lparr>af_PathID = 0, af_LargestAcked = rph_largestObserved h, af_LowestAcked = First lowest,
                    af_AckRanges = (if length ackRanges > 1 then ackRanges else []),
                    af_PacketReceivedTime = rph_largestObservedReceivedTime h, af_DelayTime = 0\<rparr>
         in Inr (Some ack, h\<lparr>rph_lastAck := Some ack, rph_ackAlarm := 0, rph_ackQueued := False,
                             rph_packetsReceivedSinceLastAck := 0,
                             rph_retransmittablePacketsReceivedSinceLastAck := 0\<rparr>)))"

definition rph_GetClosePathFrame :: "receivedPacketHandler \<Rightarrow> ClosePathFrame result" where
  "rph_GetClosePathFrame h =
     (let ackRanges = rh_GetAckRanges (rph_packetHistory h)
      in bindE (lastRange ackRanges) (\<lambda>lowest.
         Inr \<lparr>cpf_PathID = 0, cpf_LargestAcked = rph_largestObserved h, cpf_LowestAcked = First lowest,
              cpf_AckRanges = (if length ackRanges > 1 then ackRanges else [])\<rparr>))"

definition rph_GetAlarmTimeout :: "receivedPacketHandler \<Rightarrow> gotime" where
  "rph_GetAlarmTimeout h = rph_ackAlarm h"

section \<open>Runs of the handler\<close>

text \<open>
  \<open>rph_run h A T\<close>: the handler can be in state \<open>h\<close> at time \<open>T\<close> after a sequence of calls that
  recorded exactly the packets in \<open>A\<close>. Time only moves forward. The lower limit stays below the largest
  packet number received, as it does for the limits that STOP_WAITING frames carry.
\<close>

inductive rph_run :: "receivedPacketHandler \<Rightarrow> PacketNumber set \<Rightarrow> gotime \<Rightarrow> bool" where
  start: "0 < T \<Longrightarrow> rph_run (NewReceivedPacketHandler version) {} T"
| packet: "rph_run h A T \<Longrightarrow> rph_ReceivedPacket p s now now' h = (None, h') \<Longrightarrow> T \<le> now \<Longrightarrow> now \<le> now' \<Longrightarrow>
    rph_run h' (if p \<le> rph_lowerLimit h then A else insert p A) now'"
| limit: "rph_run h A T \<Longrightarrow> p < rph_largestObserved h \<Longrightarrow>
    rph_run (rph_SetLowerLimit p h) {x \<in> A. p < x} T"
| ack: "rph_run h A T \<Longrightarrow> rph_GetAckFrame now h = Inr (f, h') \<Longrightarrow> T \<le> now \<Longrightarrow> rph_run h' A now"

inductive_cases rph_run_cases: "rph_run h A T"

definition rph_inv :: "receivedPacketHandler \<Rightarrow> PacketNumber set \<Rightarrow> gotime \<Rightarrow> bool" where
  "rph_inv h A T \<longleftrightarrow>
     rh_wf (rph_packetHistory h) \<and> rh_set (rph_packetHistory h) = A \<and>
     (if rph_largestObserved h = 0 then A = {} \<and> rph_lowerLimit h = 0 \<and> \<not> rph_ackQueued h \<and> rph_ackAlarm h = 0
      else rph_largestObserved h \<in> A \<and> rph_lowerLimit h < rph_largestObserved h) \<and>
     (\<forall>x\<in>A. x \<le> rph_largestObserved h) \<and>
     rph_ackSendDelay h = AckSendDelay \<and> 0 < T \<and> rph_ackAlarm h \<le> T + AckSendDelay"

text \<open>What \<open>maybeQueueAck\<close> changes: it only touches the counters, the flag and the alarm.\<close>

lemma queueAckIf_sel [simp]:
  "rph_largestObserved (queueAckIf c h) = rph_largestObserved h"
  "rph_lowerLimit (queueAckIf c h) = rph_lowerLimit h"
  "rph_packetHistory (queueAckIf c h) = rph_packetHistory h"
  "rph_ackSendDelay (queueAckIf c h) = rph_ackSendDelay h"
  "rph_lastAck (queueAckIf c h) = rph_lastAck h"
  "rph_largestObservedReceivedTime (queueAckIf c h) = rph_largestObservedReceivedTime h"
  "rph_ackAlarm (queueAckIf c h) = rph_ackAlarm h"
  "rph_ackQueued (queueAckIf c h) \<longleftrightarrow> c \<or> rph_ackQueued h"
  by (simp_all add: queueAckIf_def)

lemma countPacket_sel [simp]:
  "rph_largestObserved (countPacket s h) = rph_largestObserved h"
  "rph_lowerLimit (countPacket s h) = rph_lowerLimit h"
  "rph_packetHistory (countPacket s h) = rph_packetHistory h"
  "rph_ackSendDelay (countPacket s h) = rph_ackSendDelay h"
  "rph_lastAck (countPacket s h) = rph_lastAck h"
  "rph_largestObservedReceivedTime (countPacket s h) = rph_largestObservedReceivedTime h"
  "rph_ackAlarm (countPacket s h) = rph_ackAlarm h"
  "rph_ackQueued (countPacket s h) = rph_ackQueued h"
  by (simp_all add: countPacket_def)

lemma queueChecks_sel [simp]:
  "rph_largestObserved (queueChecks p h) = rph_largestObserved h"
  "rph_lowerLimit (queueChecks p h) = rph_lowerLimit h"
  "rph_packetHistory (queueChecks p h) = rph_packetHistory h"
  "rph_ackSendDelay (queueChecks p h) = rph_ackSendDelay h"
  "rph_lastAck (queueChecks p h) = rph_lastAck h"
  "rph_largestObservedReceivedTime (queueChecks p h) = rph_largestObservedReceivedTime h"
  "rph_ackAlarm (queueChecks p h) = rph_ackAlarm h"
  by (simp_all add: queueChecks_def Let_def)

lemma observePacket_sel [simp]:
  "rph_largestObserved (observePacket p now h) = max p (rph_largestObserved h)"
  "rph_lowerLimit (observePacket p now h) = rph_lowerLimit h"
  "rph_packetHistory (observePacket p now h) = rph_packetHistory h"
  "rph_ackSendDelay (observePacket p now h) = rph_ackSendDelay h"
  "rph_lastAck (observePacket p now h) = rph_lastAck h"
  "rph_ackAlarm (observePacket p now h) = rph_ackAlarm h"
  "rph_ackQueued (observePacket p now h) = rph_ackQueued h"
  by (auto simp: observePacket_def Let_def max_def)

lemma queueOrSetAlarm_sel [simp]:
  "rph_largestObserved (queueOrSetAlarm s now h) = rph_largestObserved h"
  "rph_lowerLimit (queueOrSetAlarm s now h) = rph_lowerLimit h"
  "rph_packetHistory (queueOrSetAlarm s now h) = rph_packetHistory h"
  "rph_ackSendDelay (queueOrSetAlarm s now h) = rph_ackSendDelay h"
  "rph_lastAck (queueOrSetAlarm s now h) = rph_lastAck h"
  "rph_largestObservedReceivedTime (queueOrSetAlarm s now h) = rph_largestObservedReceivedTime h"
  by (simp_all add: queueOrSetAlarm_def)

lemma maybeQueueAck_sel [simp]:
  "rph_largestObserved (maybeQueueAck p s now h) = rph_largestObserved h"
  "rph_lowerLimit (maybeQueueAck p s now h) = rph_lowerLimit h"
  "rph_packetHistory (maybeQueueAck p s now h) = rph_packetHistory h"
  "rph_ackSendDelay (maybeQueueAck p s now h) = rph_ackSendDelay h"
  "rph_lastAck (maybeQueueAck p s now h) = rph_lastAck h"
  "rph_largestObservedReceivedTime (maybeQueueAck p s now h) = rph_largestObservedReceivedTime h"
  by (simp_all add: maybeQueueAck_def Let_def)

lemma queueOrSetAlarm_alarm:
  "rph_ackAlarm (queueOrSetAlarm s now h) = rph_ackAlarm h \<or>
   rph_ackAlarm (queueOrSetAlarm s now h) = now + rph_ackSendDelay h"
  by (simp add: queueOrSetAlarm_def)

lemma maybeQueueAck_alarm:
  "rph_ackAlarm (maybeQueueAck p s now h) \<in> {0, rph_ackAlarm h, now + rph_ackSendDelay h}"
  using queueOrSetAlarm_alarm [of s now "queueChecks p (countPacket s h)"]
  by (simp add: maybeQueueAck_def Let_def)

lemma queueOrSetAlarm_due:
  "now + rph_ackSendDelay h \<noteq> 0 \<Longrightarrow>
   rph_ackQueued (queueOrSetAlarm True now h) \<or> rph_ackAlarm (queueOrSetAlarm True now h) \<noteq> 0"
  by (simp add: queueOrSetAlarm_def)

lemma maybeQueueAck_due:
  assumes "now + rph_ackSendDelay h \<noteq> 0"
  shows "rph_ackQueued (maybeQueueAck p True now h) \<or> rph_ackAlarm (maybeQueueAck p True now h) \<noteq> 0"
  using queueOrSetAlarm_due [of now "queueChecks p (countPacket True h)"] assms
  by (auto simp: maybeQueueAck_def Let_def)

section \<open>The invariant\<close>

lemma rph_ReceivedPacket_cases:
  assumes "rph_ReceivedPacket p s now now' h = (None, h')"
  obtains (old) "p \<noteq> 0" "p \<le> rph_lowerLimit h" "h' = observePacket p now h"
    | (new) hist where "p \<noteq> 0" "rph_lowerLimit h < p" "rh_ReceivedPacket p (rph_packetHistory h) = Inr hist"
      "h' = maybeQueueAck p s now' ((observePacket p now h)\<lparr>rph_packetHistory := hist\<rparr>)"
  using assms by (auto simp: rph_ReceivedPacket_def Let_def not_le split: if_splits sum.splits)

lemma rph_inv_packet:
  assumes inv: "rph_inv h A T" and r: "rph_ReceivedPacket p s now now' h = (None, h')"
    and time: "T \<le> now" "now \<le> now'"
  shows "rph_inv h' (if p \<le> rph_lowerLimit h then A else insert p A) now'"
  using r
proof (cases rule: rph_ReceivedPacket_cases)
  case old
  then have "max p (rph_largestObserved h) = rph_largestObserved h"
    using inv by (auto simp: rph_inv_def split: if_splits)
  then show ?thesis using old inv time by (auto simp: rph_inv_def)
next
  case (new hist)
  have hist: "rh_wf hist" "rh_set hist = insert p A"
    using history.add_set [OF _ new(1,3)] inv by (auto simp: rph_inv_def)
  have "rph_ackAlarm h' \<le> now' + AckSendDelay"
    using maybeQueueAck_alarm [of p s now' "(observePacket p now h)\<lparr>rph_packetHistory := hist\<rparr>"] new inv time
    by (auto simp: rph_inv_def AckSendDelay_def)
  moreover have "max p (rph_largestObserved h) \<noteq> 0" "rph_lowerLimit h < max p (rph_largestObserved h)"
    using new(1,2) by (auto simp: max_def)
  moreover have "max p (rph_largestObserved h) \<in> insert p A" "\<forall>x\<in>insert p A. x \<le> max p (rph_largestObserved h)"
    using inv by (auto simp: rph_inv_def max_def split: if_splits)
  ultimately show ?thesis using new hist inv time by (auto simp: rph_inv_def)
qed

lemma rph_inv_limit:
  assumes inv: "rph_inv h A T" and p: "p < rph_largestObserved h"
  shows "rph_inv (rph_SetLowerLimit p h) {x \<in> A. p < x} T"
  using history.del_set [of "rph_packetHistory h" p] inv p
  by (auto simp: rph_inv_def rph_SetLowerLimit_def)

text \<open>The frames that the handler builds are well-formed and cover the recorded packets.\<close>

lemma rph_frame:
  assumes inv: "rph_inv h A T" and ne: "A \<noteq> {}"
  defines "rs \<equiv> rh_GetAckRanges (rph_packetHistory h)"
  shows "rs \<noteq> [] \<and>
    ack_wf (rph_largestObserved h) (First (last rs)) (if length rs > 1 then rs else []) \<and>
    acked_set (rph_largestObserved h) (First (last rs)) (if length rs > 1 then rs else []) = A"
  using history.frame_ranges [of "rph_packetHistory h" "rph_largestObserved h"] inv ne
  by (auto simp: rph_inv_def rs_def split: if_splits)

lemma rph_inv_due: "rph_inv h A T \<Longrightarrow> rph_ackQueued h \<or> rph_ackAlarm h \<noteq> 0 \<Longrightarrow> A \<noteq> {}"
  by (auto simp: rph_inv_def split: if_splits)

lemma lastRange_ok: "rs \<noteq> [] \<Longrightarrow> lastRange rs = Inr (last rs)"
  by (simp add: lastRange_def last_conv_nth)

lemma rph_GetAckFrame_spec:
  assumes "rph_inv h A T"
  shows "if rph_ackQueued h \<or> (rph_ackAlarm h \<noteq> 0 \<and> rph_ackAlarm h \<le> now)
    then \<exists>f h'. rph_GetAckFrame now h = Inr (Some f, h') \<and>
           ack_wf (af_LargestAcked f) (af_LowestAcked f) (af_AckRanges f) \<and>
           (\<forall>p. af_AcksPacket f p \<longleftrightarrow> p \<in> A) \<and> af_LargestAcked f = rph_largestObserved h \<and>
           h' = h\<lparr>rph_lastAck := Some f, rph_ackAlarm := 0, rph_ackQueued := False,
                  rph_packetsReceivedSinceLastAck := 0, rph_retransmittablePacketsReceivedSinceLastAck := 0\<rparr>
    else rph_GetAckFrame now h = Inr (None, h)"
proof (cases "rph_ackQueued h \<or> (rph_ackAlarm h \<noteq> 0 \<and> rph_ackAlarm h \<le> now)")
  case True
  then have "A \<noteq> {}" using rph_inv_due [OF assms] by blast
  note fr = rph_frame [OF assms this]
  show ?thesis
    using True fr
    by (auto simp: rph_GetAckFrame_def Let_def lastRange_ok af_AcksPacket_def acksPacket_iff)
qed (auto simp: rph_GetAckFrame_def)

lemma rph_run_inv: "rph_run h A T \<Longrightarrow> rph_inv h A T"
proof (induction rule: rph_run.induct)
  case (start T version)
  then show ?case
    using newReceivedPacketHistory_correct
    by (simp add: rph_inv_def NewReceivedPacketHandler_def AckSendDelay_def)
next
  case (packet h A T p s now now' h')
  then show ?case using rph_inv_packet by blast
next
  case (limit h A T p)
  then show ?case using rph_inv_limit by blast
next
  case (ack h A T now f h')
  then show ?case
    using rph_GetAckFrame_spec [OF ack.IH, of now]
    by (auto simp: rph_inv_def AckSendDelay_def split: if_splits)
qed

section \<open>What the handler promises\<close>

text \<open>
  (C5) In every run, asking for an ACK frame never panics. If an ACK is due, the frame is
  well-formed, so it can be written, and it acknowledges exactly the packets that
  were recorded: none that was not received, and none that was received above the limit is left
  out. If no ACK is due the state does not change.
\<close>

theorem rph_GetAckFrame_exact:
  assumes "rph_run h A T"
  shows "case rph_GetAckFrame now h of
      Inl _ \<Rightarrow> False
    | Inr (None, h') \<Rightarrow> h' = h
    | Inr (Some f, h') \<Rightarrow>
        ack_wf (af_LargestAcked f) (af_LowestAcked f) (af_AckRanges f) \<and>
        (\<forall>p. af_AcksPacket f p \<longleftrightarrow> p \<in> A) \<and> rph_lastAck h' = Some f"
  using rph_GetAckFrame_spec [OF rph_run_inv [OF assms], of now] by (auto split: if_splits)

lemma rph_run_example:
  "rph_run (snd (rph_ReceivedPacket 5 True 10 20 (NewReceivedPacketHandler Version39))) {5} 20"
proof -
  define h where "h = NewReceivedPacketHandler Version39"
  have lim: "rph_lowerLimit h = 0" by (simp add: h_def NewReceivedPacketHandler_def)
  have "rph_ReceivedPacket 5 True 10 20 h = (None, snd (rph_ReceivedPacket 5 True 10 20 h))"
    by (simp add: rph_ReceivedPacket_def Let_def lim h_def NewReceivedPacketHandler_def
        rh_ReceivedPacket_def newReceivedPacketHistory_def MaxTrackedReceivedAckRanges_def
        DefaultMaxCongestionWindow_def)
  then have "rph_run (snd (rph_ReceivedPacket 5 True 10 20 h)) (if 5 \<le> rph_lowerLimit h then {} else insert 5 {}) 20"
    by (rule rph_run.packet [where T = 1, rotated]) (simp_all add: h_def rph_run.start)
  then show ?thesis by (simp add: NewReceivedPacketHandler_def h_def)
qed

theorem rph_GetAckFrame_exact_witness:
  "case rph_GetAckFrame 30 (snd (rph_ReceivedPacket 5 True 10 20 (NewReceivedPacketHandler Version39))) of
      Inl _ \<Rightarrow> False
    | Inr (None, h') \<Rightarrow> h' = snd (rph_ReceivedPacket 5 True 10 20 (NewReceivedPacketHandler Version39))
    | Inr (Some f, h') \<Rightarrow>
        ack_wf (af_LargestAcked f) (af_LowestAcked f) (af_AckRanges f) \<and>
        (\<forall>p. af_AcksPacket f p \<longleftrightarrow> p \<in> {5}) \<and> rph_lastAck h' = Some f"
  by (rule rph_GetAckFrame_exact [OF rph_run_example])



text \<open>A CLOSE_PATH frame needs at least one recorded packet.\<close>

lemma rph_GetClosePathFrame_exact:
  assumes "rph_run h A T"
  shows "if A = {} then rph_GetClosePathFrame h = Inl (Panic ''index out of range'')
    else \<exists>f. rph_GetClosePathFrame h = Inr f \<and>
           ack_wf (cpf_LargestAcked f) (cpf_LowestAcked f) (cpf_AckRanges f) \<and>
           (\<forall>p. cpf_AcksPacket f p \<longleftrightarrow> p \<in> A)"
proof (cases "A = {}")
  case True
  have "rh_wf (rph_packetHistory h)" "rh_set (rph_packetHistory h) = {}"
    using rph_run_inv [OF assms] True by (simp_all add: rph_inv_def)
  then have "rh_GetAckRanges (rph_packetHistory h) = []"
    using history.ranges_set [of "rph_packetHistory h"] desc_ranges_nonempty
    by (cases "rh_GetAckRanges (rph_packetHistory h)") auto
  then show ?thesis using True by (simp add: rph_GetClosePathFrame_def lastRange_def)
next
  case False
  then show ?thesis
    using rph_frame [OF rph_run_inv [OF assms] False]
    by (auto simp: rph_GetClosePathFrame_def Let_def lastRange_ok cpf_AcksPacket_def acksPacket_iff)
qed

end
