(* ===== verification/Packet_Unpacker.thy ===== *)
theory Packet_Unpacker
imports Datagram_Frame Public_Header Received_Handler
begin

text \<open>
  All frames of a packet together: the interface \<^verbatim>\<open>wire.Frame\<close> as a datatype with its writers
  (\<^verbatim>\<open>internal/wire/frame.go\<close>) and the packet unpacker (\<^verbatim>\<open>packet_unpacker.go\<close>), which decrypts a packet and
  parses its frames. Decryption is the argument \<open>aead\<close>, the interface \<^verbatim>\<open>quicAEAD\<close> of the code.
\<close>

section \<open>Definitions\<close>

definition InvalidFrameData :: ErrorCode where "InvalidFrameData = 4"
definition InvalidRstStreamData :: ErrorCode where "InvalidRstStreamData = 6"
definition InvalidAckData :: ErrorCode where "InvalidAckData = 9"
definition DecryptionFailure :: ErrorCode where "DecryptionFailure = 12"
definition MissingPayload :: ErrorCode where "MissingPayload = 48"
definition InvalidWindowUpdateData :: ErrorCode where "InvalidWindowUpdateData = 57"
definition InvalidBlockedData :: ErrorCode where "InvalidBlockedData = 58"
definition UnencryptedStreamData :: ErrorCode where "UnencryptedStreamData = 61"

datatype Frame =
    StreamF StreamFrame
  | AckF AckFrame
  | StopWaitingF StopWaitingFrame
  | RstStreamF RstStreamFrame
  | ConnectionCloseF ConnectionCloseFrame
  | GoawayF GoawayFrame
  | WindowUpdateF WindowUpdateFrame
  | BlockedF BlockedFrame
  | PingF PingFrame
  | AddAddressF AddAddressFrame
  | ClosePathF ClosePathFrame
  | PathsF PathsFrame

text \<open>Writing an ACK frame reads the clock; its delay field is written on the way.\<close>

fun frame_Write :: "VersionNumber \<Rightarrow> gotime \<Rightarrow> Frame \<Rightarrow> bytes result" where
  "frame_Write version now (StreamF f) = sf_Write version f"
| "frame_Write version now (AckF f) = bindE (af_Write version now f) (\<lambda>(_, bs). Inr bs)"
| "frame_Write version now (StopWaitingF f) = sw_Write version f"
| "frame_Write version now (RstStreamF f) = rst_Write version f"
| "frame_Write version now (ConnectionCloseF f) = close_Write version f"
| "frame_Write version now (GoawayF f) = goaway_Write version f"
| "frame_Write version now (WindowUpdateF f) = wu_Write version f"
| "frame_Write version now (BlockedF f) = blocked_Write version f"
| "frame_Write version now (PingF f) = ping_Write version f"
| "frame_Write version now (AddAddressF f) = aa_Write version f"
| "frame_Write version now (ClosePathF f) = cpf_Write version f"
| "frame_Write version now (PathsF f) = pf_Write version f"

fun frame_MinLength :: "Frame \<Rightarrow> ByteCount result" where
  "frame_MinLength (StreamF f) = Inr (sf_MinLength f)"
| "frame_MinLength (AckF f) = Inr (af_MinLength f)"
| "frame_MinLength (StopWaitingF f) = sw_MinLength f"
| "frame_MinLength (RstStreamF f) = rst_MinLength f"
| "frame_MinLength (ConnectionCloseF f) = close_MinLength f"
| "frame_MinLength (GoawayF f) = goaway_MinLength f"
| "frame_MinLength (WindowUpdateF f) = wu_MinLength f"
| "frame_MinLength (BlockedF f) = blocked_MinLength f"
| "frame_MinLength (PingF f) = ping_MinLength f"
| "frame_MinLength (AddAddressF f) = aa_MinLength f"
| "frame_MinLength (ClosePathF f) = Inr (cpf_MinLength f)"
| "frame_MinLength (PathsF f) = pf_MinLength f"

text \<open>
  The text of an error without the values that are formatted into it, and the wrapping of an
  error into a \<^verbatim>\<open>QuicError\<close>. A panic is not an error value and passes through.
\<close>

fun errText :: "error \<Rightarrow> string" where
  "errText EOF = ''EOF''"
| "errText UnexpectedEOF = ''unexpected EOF''"
| "errText (GoErr s) = s"
| "errText (QuicErr c s) = '': '' @ s"
| "errText (CodeErr c) = ''''"
| "errText (Panic s) = s"

fun wrapErr :: "ErrorCode \<Rightarrow> 'a result \<Rightarrow> 'a result" where
  "wrapErr code (Inl (Panic s)) = Inl (Panic s)"
| "wrapErr code (Inl e) = Inl (QuicErr code (errText e))"
| "wrapErr code (Inr x) = Inr x"

definition as_frame :: "('a \<Rightarrow> Frame) \<Rightarrow> ('a \<times> bytes) result \<Rightarrow> (Frame \<times> bytes) result" where
  "as_frame con m = bindE m (\<lambda>(f, r). Inr (con f, r))"

record unpackedPacket =
  up_encryptionLevel :: EncryptionLevel
  up_frames :: "Frame list"

text \<open>\<^verbatim>\<open>encryptionLevel <= protocol.EncryptionUnencrypted\<close>.\<close>

definition isUnencrypted :: "EncryptionLevel \<Rightarrow> bool" where
  "isUnencrypted l \<longleftrightarrow> l = EncryptionUnspecified \<or> l = EncryptionUnencrypted"

text \<open>The frame at the front of the payload, whose first byte is the type byte.\<close>

definition unpackStreamFrame :: "VersionNumber \<Rightarrow> EncryptionLevel \<Rightarrow> Frame reader" where
  "unpackStreamFrame version encryptionLevel r =
     bindE (wrapErr InvalidStreamData (ParseStreamFrame version r)) (\<lambda>(f, r).
     if sf_StreamID f \<noteq> 1 \<and> isUnencrypted encryptionLevel
     then Inl (QuicErr UnencryptedStreamData ''received unencrypted stream data on stream'')
     else Inr (StreamF f, r))"

definition unpackFrame :: "VersionNumber \<Rightarrow> PublicHeader \<Rightarrow> EncryptionLevel \<Rightarrow> uint8 \<Rightarrow> Frame reader" where
  "unpackFrame version hdr encryptionLevel typeByte r =
     (if typeByte AND 0x80 = 0x80 then unpackStreamFrame version encryptionLevel r
      else if typeByte AND 0xc0 = 0x40
      then as_frame AckF (wrapErr InvalidAckData (ParseAckFrame version r))
      else if typeByte AND 0xe0 = 0x20 then Inl (GoErr ''unimplemented: CONGESTION_FEEDBACK'')
      else if typeByte = 0x01
      then as_frame RstStreamF (wrapErr InvalidRstStreamData (ParseRstStreamFrame version r))
      else if typeByte = 0x02
      then as_frame ConnectionCloseF (wrapErr InvalidConnectionCloseData (ParseConnectionCloseFrame version r))
      else if typeByte = 0x03
      then as_frame GoawayF (wrapErr InvalidGoawayData (ParseGoawayFrame version r))
      else if typeByte = 0x04
      then as_frame WindowUpdateF (wrapErr InvalidWindowUpdateData (ParseWindowUpdateFrame version r))
      else if typeByte = 0x05
      then as_frame BlockedF (wrapErr InvalidBlockedData (ParseBlockedFrame version r))
      else if typeByte = 0x06
      then as_frame StopWaitingF (wrapErr InvalidStopWaitingData
             (ParseStopWaitingFrame (ph_PacketNumber hdr) (ph_PacketNumberLen hdr) version r))
      else if typeByte = 0x07 then as_frame PingF (ParsePingFrame version r)
      else if typeByte = 0x10 then as_frame AddAddressF (ParseAddAddressFrame version r)
      else if typeByte = 0x11 then as_frame ClosePathF (ParseClosePathFrame version r)
      else if typeByte = 0x12 then as_frame PathsF (ParsePathsFrame version r)
      else Inl (QuicErr InvalidFrameData ''unknown type byte''))"

text \<open>
  The side effect of the unpacker: a STREAM frame whose type byte has the lowest bit set marks
  its stream as unreliable in \<^verbatim>\<open>streamsMap.unreliableStreamMark\<close>, also when the frame is then
  rejected as unencrypted.
\<close>

definition marksUnreliable :: "VersionNumber \<Rightarrow> uint8 \<Rightarrow> bytes \<Rightarrow> StreamID set" where
  "marksUnreliable version typeByte r =
     (if typeByte AND 0x80 = 0x80 \<and> typeByte AND 0x01 = 0x01
      then (case ParseStreamFrame version r of Inl _ \<Rightarrow> {} | Inr (f, _) \<Rightarrow> {sf_StreamID f})
      else {})"

section \<open>Every parser consumes its input\<close>

definition leaves :: "nat \<Rightarrow> ('a \<times> bytes) result \<Rightarrow> bool" where
  "leaves n m = (case m of Inl _ \<Rightarrow> True | Inr (_, r) \<Rightarrow> length r \<le> n)"

named_theorems leaves_intros \<open>introduction rules for the bound on the bytes a reader leaves\<close>

lemma leaves_Inl [leaves_intros]: "leaves n (Inl e)"
  by (simp add: leaves_def)

lemma leaves_Inr [leaves_intros]: "length r \<le> n \<Longrightarrow> leaves n (Inr (x, r))"
  by (simp add: leaves_def)

lemma leaves_bindE [leaves_intros]:
  "leaves n m \<Longrightarrow> (\<And>x r. m = Inr (x, r) \<Longrightarrow> length r \<le> n \<Longrightarrow> leaves n (f (x, r))) \<Longrightarrow> leaves n (bindE m f)"
  by (cases m) (auto simp: leaves_def)

lemma leaves_if [leaves_intros]:
  "(c \<Longrightarrow> leaves n a) \<Longrightarrow> (\<not> c \<Longrightarrow> leaves n b) \<Longrightarrow> leaves n (if c then a else b)"
  by simp

lemma leaves_prod [leaves_intros]:
  "(\<And>x y. p = (x, y) \<Longrightarrow> leaves n (f x y)) \<Longrightarrow> leaves n (case p of (x, y) \<Rightarrow> f x y)"
  by (cases p) auto

lemma leaves_Let [leaves_intros]: "leaves n (f x) \<Longrightarrow> leaves n (let y = x in f y)"
  by simp

lemma leaves_ReadByte [leaves_intros]: "length r \<le> n \<Longrightarrow> leaves n (ReadByte r)"
  by (cases r) (auto simp: leaves_def)

lemma leaves_ReadFull [leaves_intros]: "length r \<le> n \<Longrightarrow> leaves n (ReadFull k r)"
  by (auto simp: leaves_def ReadFull_def)

lemma leaves_reads [leaves_intros]:
  "length r \<le> n \<Longrightarrow> leaves n (ReadUint16 (GetByteOrder v) r)"
  "length r \<le> n \<Longrightarrow> leaves n (ReadUint32 (GetByteOrder v) r)"
  "length r \<le> n \<Longrightarrow> leaves n (ReadUint64 (GetByteOrder v) r)"
  by (auto simp: leaves_def vo.read16_cases vo.read32_cases vo.read64_cases)

lemma leaves_le_loop: "length b \<le> n \<Longrightarrow> leaves n (le_ReadUintN_loop i len res b)"
proof (induction i len res b rule: le_ReadUintN_loop.induct)
  case (1 i len res b)
  then show ?case by (subst le_ReadUintN_loop.simps) (auto intro!: leaves_intros)
qed

lemma leaves_be_loop: "length b \<le> n \<Longrightarrow> leaves n (be_ReadUintN_loop i len res b)"
proof (induction i len res b rule: be_ReadUintN_loop.induct)
  case (1 i len res b)
  then show ?case by (subst be_ReadUintN_loop.simps) (auto intro!: leaves_intros)
qed

lemma leaves_ReadUintN [leaves_intros]: "length r \<le> n \<Longrightarrow> leaves n (ReadUintN (GetByteOrder v) k r)"
  by (simp add: GetByteOrder_def le_ReadUintN_def be_ReadUintN_def leaves_le_loop leaves_be_loop)

lemma leaves_ReadUfloat16 [leaves_intros]: "length r \<le> n \<Longrightarrow> leaves n (ReadUfloat16 (GetByteOrder v) r)"
  by (auto simp: ReadUfloat16_def intro!: leaves_intros)

lemma leaves_parseStreamBody [leaves_intros]:
  "length r \<le> n \<Longrightarrow> leaves n (parseStreamBody v fin present ol sl r)"
  by (auto simp: parseStreamBody_def Let_def intro!: leaves_intros)

lemma leaves_parseAckBlocks [leaves_intros]: "length r \<le> n \<Longrightarrow> leaves n (parseAckBlocks v d k st r)"
  by (induction k arbitrary: st r) (auto intro!: leaves_intros)

lemma leaves_parseAckRanges [leaves_intros]:
  "length r \<le> n \<Longrightarrow> leaves n (parseAckRanges v d miss nb largest abl r)"
  by (auto simp: parseAckRanges_def Let_def intro!: leaves_intros)

lemma leaves_skipTimestamps [leaves_intros]: "length r \<le> n \<Longrightarrow> leaves n (skipTimestamps v k r)"
proof -
  have "length r \<le> n \<Longrightarrow> leaves n (skipTimestampLoop v i r)" for i r
    by (induction i arbitrary: r) (auto intro!: leaves_intros)
  then show "length r \<le> n \<Longrightarrow> leaves n (skipTimestamps v k r)"
    by (auto simp: skipTimestamps_def intro!: leaves_intros)
qed

lemma leaves_parsePaths [leaves_intros]: "length r \<le> n \<Longrightarrow> leaves n (parsePaths v k r)"
  by (induction k arbitrary: r) (auto intro!: leaves_intros)

lemma leaves_readBytes [leaves_intros]: "length r \<le> n \<Longrightarrow> leaves n (readBytes k r)"
  by (induction k arbitrary: r) (auto intro!: leaves_intros)

lemma leaves_parsers [leaves_intros]:
  "leaves (length r) (ParseStreamFrame v (t # r))"
  "leaves (length r) (ParseAckFrame v (t # r))"
  "leaves (length r) (ParseRstStreamFrame v (t # r))"
  "leaves (length r) (ParseConnectionCloseFrame v (t # r))"
  "leaves (length r) (ParseGoawayFrame v (t # r))"
  "leaves (length r) (ParseWindowUpdateFrame v (t # r))"
  "leaves (length r) (ParseBlockedFrame v (t # r))"
  "leaves (length r) (ParseStopWaitingFrame pn l v (t # r))"
  "leaves (length r) (ParsePingFrame v (t # r))"
  "leaves (length r) (ParseAddAddressFrame v (t # r))"
  "leaves (length r) (ParseClosePathFrame v (t # r))"
  "leaves (length r) (ParsePathsFrame v (t # r))"
  by (auto simp: ParseStreamFrame_def ParseAckFrame_def parseAckBody_def ParseRstStreamFrame_def
      ParseConnectionCloseFrame_def ParseGoawayFrame_def ParseWindowUpdateFrame_def
      ParseBlockedFrame_def ParseStopWaitingFrame_def ParsePingFrame_def ParseAddAddressFrame_def
      ParseClosePathFrame_def parseClosePathBody_def ParsePathsFrame_def Let_def intro!: leaves_intros)

lemma leaves_wrapErr [leaves_intros]: "leaves n m \<Longrightarrow> leaves n (wrapErr code m)"
  by (cases "(code, m)" rule: wrapErr.cases) (auto simp: leaves_def)

lemma leaves_as_frame [leaves_intros]: "leaves n m \<Longrightarrow> leaves n (as_frame con m)"
  by (auto simp: as_frame_def intro!: leaves_intros)

lemma leaves_unpackFrame: "leaves (length r) (unpackFrame v hdr lvl t (t # r))"
  unfolding unpackFrame_def unpackStreamFrame_def by (intro leaves_intros) simp_all

section \<open>Reading all frames\<close>

function unpackFrames :: "VersionNumber \<Rightarrow> PublicHeader \<Rightarrow> EncryptionLevel \<Rightarrow> bytes \<Rightarrow> StreamID set \<Rightarrow>
    Frame list result \<times> StreamID set" where
  "unpackFrames version hdr lvl [] marks = (Inr [], marks)"
| "unpackFrames version hdr lvl (typeByte # r) marks =
     (if typeByte = 0x0 then unpackFrames version hdr lvl r marks
      else let marks = marks \<union> marksUnreliable version typeByte (typeByte # r)
      in case unpackFrame version hdr lvl typeByte (typeByte # r) of
           Inl err \<Rightarrow> (Inl err, marks)
         | Inr (frame, r') \<Rightarrow>
             (case unpackFrames version hdr lvl r' marks of
                (Inl err, marks) \<Rightarrow> (Inl err, marks)
              | (Inr fs, marks) \<Rightarrow> (Inr (frame # fs), marks)))"
  by pat_completeness auto
termination
proof (relation "measure (\<lambda>(version, hdr, lvl, r, marks). length r)")
  fix version hdr lvl typeByte r marks marks' x frame r'
  assume "unpackFrame version hdr lvl typeByte (typeByte # r) = Inr x" "(frame, r') = x"
  then show "((version, hdr, lvl, r', marks'), version, hdr, lvl, typeByte # r, marks) \<in>
      measure (\<lambda>(version, hdr, lvl, r, marks). length r)"
    using leaves_unpackFrame [of r version hdr lvl typeByte] by (auto simp: leaves_def)
qed auto

declare unpackFrames.simps(2) [simp del]

text \<open>
  Unpacking. The argument \<open>aead\<close> is the call \<^verbatim>\<open>aead.Open\<close> on the sealed data, the packet number
  and the associated data.
\<close>

definition Unpack ::
    "(bytes \<Rightarrow> PacketNumber \<Rightarrow> bytes \<Rightarrow> (bytes \<times> EncryptionLevel) result) \<Rightarrow> VersionNumber \<Rightarrow>
     bytes \<Rightarrow> PublicHeader \<Rightarrow> bytes \<Rightarrow> StreamID set \<Rightarrow> unpackedPacket result \<times> StreamID set" where
  "Unpack aead version publicHeaderBinary hdr data marks =
     (case aead data (ph_PacketNumber hdr) publicHeaderBinary of
        Inl err \<Rightarrow> (wrapErr DecryptionFailure (Inl err), marks)
      | Inr (decrypted, encryptionLevel) \<Rightarrow>
          if length decrypted = 0 then (Inl (CodeErr MissingPayload), marks)
          else case unpackFrames version hdr encryptionLevel decrypted marks of
                 (Inl err, marks) \<Rightarrow> (Inl err, marks)
               | (Inr fs, marks) \<Rightarrow>
                   (Inr \<lparr>up_encryptionLevel = encryptionLevel, up_frames = fs\<rparr>, marks))"

section \<open>A written payload is read back\<close>

text \<open>The loop over the frames in \<^verbatim>\<open>writeAndSealPacket\<close> of \<^verbatim>\<open>packet_packer.go\<close>.\<close>

fun writeFrames :: "VersionNumber \<Rightarrow> gotime \<Rightarrow> Frame list \<Rightarrow> bytes result" where
  "writeFrames version now [] = Inr []"
| "writeFrames version now (frame # payloadFrames) =
     bindE (frame_Write version now frame) (\<lambda>b.
     bindE (writeFrames version now payloadFrames) (\<lambda>bs. Inr (b @ bs)))"

text \<open>
  Which frames can travel in a packet with packet number \<open>pn\<close> of length \<open>l\<close> and encryption
  level \<open>lvl\<close>, as the last frame or not, and what arrives of them.
\<close>

fun frame_writable :: "PacketNumber \<Rightarrow> PacketNumberLen \<Rightarrow> EncryptionLevel \<Rightarrow> bool \<Rightarrow> Frame \<Rightarrow> bool" where
  "frame_writable pn l lvl final (StreamF f) \<longleftrightarrow>
     (sf_Data f \<noteq> [] \<or> sf_FinBit f) \<and>
     (unat (sf_StreamID f) < 2 ^ 8 \<or> 2 ^ 16 \<le> unat (sf_StreamID f) \<and> unat (sf_StreamID f) < 2 ^ 24) \<and>
     unat (sf_Offset f) + length (sf_Data f) < 2 ^ 64 \<and>
     (if sf_DataLenPresent f then length (sf_Data f) \<le> 1350
      else length (sf_Data f) < 2 ^ 16 \<and> final) \<and>
     (sf_StreamID f = 1 \<or> \<not> isUnencrypted lvl)"
| "frame_writable pn l lvl final (AckF f) \<longleftrightarrow> af_writable f"
| "frame_writable pn l lvl final (StopWaitingF f) \<longleftrightarrow> sw_writable pn l f"
| "frame_writable pn l lvl final (ConnectionCloseF f) \<longleftrightarrow> length (close_ReasonPhrase f) \<le> 1350"
| "frame_writable pn l lvl final (GoawayF f) \<longleftrightarrow> length (goaway_ReasonPhrase f) \<le> 1350"
| "frame_writable pn l lvl final (AddAddressF f) \<longleftrightarrow> aa_writable f"
| "frame_writable pn l lvl final (ClosePathF f) \<longleftrightarrow> cpf_writable f"
| "frame_writable pn l lvl final (PathsF f) \<longleftrightarrow> pf_writable f"
| "frame_writable pn l lvl final _ \<longleftrightarrow> True"

fun frame_received :: "gotime \<Rightarrow> Frame \<Rightarrow> Frame" where
  "frame_received now (StreamF f) = StreamF (f\<lparr>sf_UnreliableMarker := False\<rparr>)"
| "frame_received now (AckF f) = AckF (af_received now f)"
| "frame_received now (StopWaitingF f) = StopWaitingF (sw_received f)"
| "frame_received now (AddAddressF f) = AddAddressF (aa_received f)"
| "frame_received now (ClosePathF f) = ClosePathF (cpf_received f)"
| "frame_received now (PathsF f) = PathsF (f\<lparr>pf_RemoteRTTs := map wireRTT (pf_RemoteRTTs f)\<rparr>)"
| "frame_received now f = f"

fun frame_marks :: "Frame \<Rightarrow> StreamID set" where
  "frame_marks (StreamF f) = (if sf_UnreliableMarker f then {sf_StreamID f} else {})"
| "frame_marks _ = {}"

fun frames_writable :: "PacketNumber \<Rightarrow> PacketNumberLen \<Rightarrow> EncryptionLevel \<Rightarrow> Frame list \<Rightarrow> bool" where
  "frames_writable pn l lvl [] \<longleftrightarrow> True"
| "frames_writable pn l lvl (f # fs) \<longleftrightarrow> frame_writable pn l lvl (fs = []) f \<and> frames_writable pn l lvl fs"

text \<open>The type bytes lead the unpacker to the right parser.\<close>

lemma ackTypeByte_class:
  assumes "valid_PacketNumberLen a" "valid_PacketNumberLen d"
  shows "ackTypeByte 0x40 a d AND 0xc0 = 0x40"
  using assms unfolding valid_len_set
  by (elim insertE emptyE; simp add: ackTypeByte_def PacketNumberLen_defs)

lemma af_typeByte_class: "af_typeByte f AND 0xc0 = 0x40"
proof -
  have "ackTypeByte 0x40 (GetPacketNumberLength (af_LargestAcked f)) (af_deltaLen f) AND 0xc0 = 0x40"
    by (rule ackTypeByte_class) (simp_all add: af_deltaLen_def deltaLen_valid)
  then show ?thesis by (simp add: af_typeByte_def Let_def bit.conj_disj_distrib2)
qed

lemma class_40:
  assumes "t AND 0xc0 = (0x40 :: uint8)"
  shows "t \<noteq> 0" "t AND 0x80 = 0"
proof -
  have "t AND 0x80 = (t AND 0xc0) AND 0x80" by (simp add: and.assoc)
  then show "t AND 0x80 = 0" by (simp add: assms)
  show "t \<noteq> 0" using assms by auto
qed

lemma sf_typeByte_class:
  assumes "sid_width f = 1 \<or> sid_width f = 3"
  shows "sf_typeByte f AND 0x80 = 0x80" "sf_typeByte f AND 0x01 = (if sf_UnreliableMarker f then 1 else 0)"
proof -
  have "off_width f \<in> {0, 2, 3, 4, 5, 6, 7, 8}"
    by (cases f rule: off_width_cases) (auto dest: nat_2_8_cases)
  then have o: "(if off_width f \<noteq> 0 then push_bit 2 (of_nat (off_width f) - 1) else 0) AND 0x80 = (0 :: uint8)"
    "(if off_width f \<noteq> 0 then push_bit 2 (of_nat (off_width f) - 1) else 0) AND 0x01 = (0 :: uint8)"
    by (elim insertE; simp)+
  have s: "(of_nat (sid_width f) - 1) AND 0x80 = (0 :: uint8)" "(of_nat (sid_width f) - 1) AND 0x01 = (0 :: uint8)"
    using assms by auto
  show "sf_typeByte f AND 0x80 = 0x80" "sf_typeByte f AND 0x01 = (if sf_UnreliableMarker f then 1 else 0)"
    unfolding sf_typeByte_eq bit.conj_xor_distrib2 o s by simp_all
qed

fun frame_type :: "Frame \<Rightarrow> uint8" where
  "frame_type (StreamF f) = sf_typeByte f"
| "frame_type (AckF f) = af_typeByte f"
| "frame_type (RstStreamF f) = 0x01"
| "frame_type (ConnectionCloseF f) = 0x02"
| "frame_type (GoawayF f) = 0x03"
| "frame_type (WindowUpdateF f) = 0x04"
| "frame_type (BlockedF f) = 0x05"
| "frame_type (StopWaitingF f) = 0x06"
| "frame_type (PingF f) = 0x07"
| "frame_type (AddAddressF f) = 0x10"
| "frame_type (ClosePathF f) = 0x11"
| "frame_type (PathsF f) = 0x12"

lemma bindE_Inr_iff: "bindE m g = Inr y \<longleftrightarrow> (\<exists>x. m = Inr x \<and> g x = Inr y)"
  by (cases m) auto

lemma frame_Write_type:
  assumes "frame_Write v now f = Inr bs"
  obtains cs where "bs = frame_type f # cs"
proof (cases f)
  case (StreamF g)
  then show ?thesis using assms that sf_Write_eq [of g v]
    by (cases "sf_Data g \<noteq> [] \<or> sf_FinBit g") (auto simp: sf_Write_def)
qed (use assms that in \<open>auto simp: af_Write_def sw_Write_def rst_Write_def close_Write_def
      goaway_Write_def wu_Write_def blocked_Write_def ping_Write_def aa_Write_def cpf_Write_def
      pf_Write_def Let_def bindE_Inr_iff split: if_splits\<close>)

lemma sid_width_13:
  "unat (sf_StreamID f) < 2 ^ 8 \<or> 2 ^ 16 \<le> unat (sf_StreamID f) \<and> unat (sf_StreamID f) < 2 ^ 24 \<Longrightarrow>
   sid_width f = 1 \<or> sid_width f = 3"
  by (cases f rule: sid_width_cases) auto

lemma frame_type_nonzero: "frame_writable pn l lvl final f \<Longrightarrow> frame_type f \<noteq> 0"
proof (cases f)
  case (StreamF g)
  assume "frame_writable pn l lvl final f"
  then show ?thesis using StreamF sf_typeByte_class(1) [OF sid_width_13, of g] by auto
qed (auto simp: class_40(1) [OF af_typeByte_class])

text \<open>The unpacker reads a written frame back and leaves the rest.\<close>

lemma unpackFrame_write:
  assumes "frame_writable (ph_PacketNumber hdr) (ph_PacketNumberLen hdr) lvl (r = []) f"
  shows "\<exists>bs. frame_Write v now f = Inr bs \<and>
    unpackFrame v hdr lvl (frame_type f) (bs @ r) = Inr (frame_received now f, r)"
proof (cases f)
  case (StreamF g)
  then obtain bs where "sf_Write v g = Inr bs"
      "ParseStreamFrame v (bs @ r) = Inr (g\<lparr>sf_UnreliableMarker := False\<rparr>, r)"
    using assms sf_round_trip [of g r v] by (auto split: if_splits)
  moreover have "sf_typeByte g AND 0x80 = 0x80"
    using assms StreamF by (intro sf_typeByte_class(1) sid_width_13) simp
  ultimately show ?thesis using assms StreamF by (auto simp: unpackFrame_def unpackStreamFrame_def)
next
  case (AckF g)
  then obtain bs where "frame_Write v now f = Inr bs" "ParseAckFrame v (bs @ r) = Inr (af_received now g, r)"
    using assms ack.round_trip [of g v now r] by auto
  then show ?thesis using AckF
    by (simp add: unpackFrame_def as_frame_def af_typeByte_class class_40(2) [OF af_typeByte_class])
next
  case (StopWaitingF g)
  then show ?thesis using assms sw.round_trip [of "ph_PacketNumber hdr" "ph_PacketNumberLen hdr" g v r]
    by (auto simp: unpackFrame_def as_frame_def)
next
  case (RstStreamF g)
  then show ?thesis using assms rst.round_trip [of v g r] by (auto simp: unpackFrame_def as_frame_def)
next
  case (ConnectionCloseF g)
  then show ?thesis using assms close.round_trip [of g v r] by (auto simp: unpackFrame_def as_frame_def)
next
  case (GoawayF g)
  then show ?thesis using assms goaway.round_trip [of g v r] by (auto simp: unpackFrame_def as_frame_def)
next
  case (WindowUpdateF g)
  then show ?thesis using assms wu.round_trip [of v g r] by (auto simp: unpackFrame_def as_frame_def)
next
  case (BlockedF g)
  then show ?thesis using assms blocked.round_trip [of v g r] by (auto simp: unpackFrame_def as_frame_def)
next
  case (PingF g)
  then show ?thesis using assms ping.round_trip [of v g r] by (auto simp: unpackFrame_def as_frame_def)
next
  case (AddAddressF g)
  then show ?thesis using assms aa.round_trip [of g v r] by (auto simp: unpackFrame_def as_frame_def)
next
  case (ClosePathF g)
  then show ?thesis using assms cpf.round_trip [of g v r] by (auto simp: unpackFrame_def as_frame_def)
next
  case (PathsF g)
  then show ?thesis using assms pf.round_trip [of g v r] by (auto simp: unpackFrame_def as_frame_def)
qed

lemma marksUnreliable_write:
  assumes "frame_writable pn l lvl (r = []) f" "frame_Write v now f = Inr bs"
  shows "marksUnreliable v (frame_type f) (bs @ r) = frame_marks f"
proof (cases f)
  case (StreamF g)
  have w: "sid_width g = 1 \<or> sid_width g = 3" using assms(1) StreamF by (intro sid_width_13) simp
  have "ParseStreamFrame v (bs @ r) = Inr (g\<lparr>sf_UnreliableMarker := False\<rparr>, r)"
    using assms StreamF sf_round_trip [of g r v] by (auto split: if_splits)
  then show ?thesis using StreamF by (simp add: marksUnreliable_def sf_typeByte_class [OF w])
qed (auto simp: marksUnreliable_def class_40(2) [OF af_typeByte_class])

lemma unpackFrames_write:
  assumes "frames_writable (ph_PacketNumber hdr) (ph_PacketNumberLen hdr) lvl fs"
  shows "\<exists>bs. writeFrames v now fs = Inr bs \<and> (bs = [] \<longleftrightarrow> fs = []) \<and>
    (\<forall>marks. unpackFrames v hdr lvl bs marks =
       (Inr (map (frame_received now) fs), marks \<union> \<Union>(frame_marks ` set fs)))"
  using assms
proof (induction fs)
  case (Cons f fs)
  then obtain rest where rest: "writeFrames v now fs = Inr rest" "rest = [] \<longleftrightarrow> fs = []"
    "\<And>marks. unpackFrames v hdr lvl rest marks =
       (Inr (map (frame_received now) fs), marks \<union> \<Union>(frame_marks ` set fs))"
    by auto
  have w: "frame_writable (ph_PacketNumber hdr) (ph_PacketNumberLen hdr) lvl (rest = []) f"
    using Cons.prems rest(2) by simp
  then obtain bs where bs: "frame_Write v now f = Inr bs"
      "unpackFrame v hdr lvl (frame_type f) (bs @ rest) = Inr (frame_received now f, rest)"
    using unpackFrame_write by blast
  obtain cs where cs: "bs = frame_type f # cs" by (rule frame_Write_type [OF bs(1)])
  have "marksUnreliable v (frame_type f) (bs @ rest) = frame_marks f"
    by (rule marksUnreliable_write [OF w bs(1)])
  then have "unpackFrames v hdr lvl (bs @ rest) marks =
      (Inr (map (frame_received now) (f # fs)), marks \<union> \<Union>(frame_marks ` set (f # fs)))" for marks
    using bs(2) frame_type_nonzero [OF w] by (simp add: cs unpackFrames.simps(2) rest(3) Un_assoc)
  then show ?case using bs(1) rest(1) by (simp add: cs)
qed simp

section \<open>Any payload is handled\<close>

lemma no_panic_wrapErr [no_panic_intros]: "no_panic m \<Longrightarrow> no_panic (wrapErr code m)"
  by (cases "(code, m)" rule: wrapErr.cases) auto

lemma no_panic_as_frame [no_panic_intros]: "no_panic m \<Longrightarrow> no_panic (as_frame con m)"
  unfolding as_frame_def by (intro no_panic_intros)

lemma no_panic_ParseStreamFrame: "no_panic (ParseStreamFrame v r)"
  by (auto simp: ParseStreamFrame_def parseStreamBody_def Let_def intro!: no_panic_intros)

lemmas no_panic_parsers = no_panic_ParseStreamFrame ack.parse_no_panic rst.parse_no_panic
  close.parse_no_panic goaway.parse_no_panic wu.parse_no_panic blocked.parse_no_panic
  sw.parse_no_panic ping.parse_no_panic aa.parse_no_panic cpf.parse_no_panic pf.parse_no_panic

lemma no_panic_unpackFrame: "no_panic (unpackFrame v hdr lvl t r)"
  unfolding unpackFrame_def unpackStreamFrame_def
  by (auto intro!: no_panic_intros no_panic_parsers)

fun frame_allowed :: "EncryptionLevel \<Rightarrow> Frame \<Rightarrow> bool" where
  "frame_allowed lvl (StreamF f) \<longleftrightarrow> sf_StreamID f = 1 \<or> \<not> isUnencrypted lvl"
| "frame_allowed lvl _ \<longleftrightarrow> True"

lemma unpackFrame_allowed: "unpackFrame v hdr lvl t r = Inr (f, r') \<Longrightarrow> frame_allowed lvl f"
  by (auto simp: unpackFrame_def unpackStreamFrame_def as_frame_def bindE_Inr_iff split: if_splits)

lemma unpackFrames_safe:
  "no_panic (fst (unpackFrames v hdr lvl r marks)) \<and>
   (\<forall>fs. fst (unpackFrames v hdr lvl r marks) = Inr fs \<longrightarrow>
      length fs \<le> length r \<and> list_all (frame_allowed lvl) fs)"
proof (induction v hdr lvl r marks rule: unpackFrames.induct)
  case (2 v hdr lvl t r marks)
  show ?case
  proof (cases "t = 0")
    case True
    then show ?thesis using 2(1) by (auto simp: unpackFrames.simps(2))
  next
    case False
    show ?thesis
    proof (cases "unpackFrame v hdr lvl t (t # r)")
      case (Inl e)
      then show ?thesis using False no_panic_unpackFrame [of v hdr lvl t "t # r"]
        by (simp add: unpackFrames.simps(2) no_panic_def)
    next
      case (Inr p)
      obtain f r' where p: "p = (f, r')" by (cases p)
      have "length r' \<le> length r" using leaves_unpackFrame [of r v hdr lvl t] Inr p by (simp add: leaves_def)
      then show ?thesis
        using False Inr p 2(2) [OF False refl Inr p [symmetric]] unpackFrame_allowed [OF Inr [unfolded p]]
        by (auto simp: unpackFrames.simps(2) no_panic_def split: prod.splits sum.splits)
    qed
  qed
qed (simp add: no_panic_def)

text \<open>The zero value of the header struct, for the examples.\<close>

definition zeroPublicHeader :: PublicHeader where
  "zeroPublicHeader = \<lparr>ph_Raw = [], ph_ConnectionID = 0, ph_PathID = 0, ph_VersionFlag = False,
     ph_ResetFlag = False, ph_TruncateConnectionID = False, ph_MultipathFlag = False,
     ph_PacketNumberLen = 0, ph_PacketNumber = 0, ph_VersionNumber = 0, ph_SupportedVersions = [],
     ph_DiversificationNonce = []\<rparr>"

text \<open>
  (C21) Unpacking is total and safe: whatever bytes the AEAD delivers, \<^verbatim>\<open>Unpack\<close> returns, it does
  not panic, and if it succeeds it returns at most one frame per byte of the payload, none of
  them STREAM data outside the crypto stream when the packet was not encrypted.
\<close>

theorem Unpack_safe:
  assumes "no_panic (aead data (ph_PacketNumber hdr) ad)"
  shows "case fst (Unpack aead v ad hdr data marks) of
      Inl e \<Rightarrow> \<not> is_panic e
    | Inr p \<Rightarrow> (\<exists>payload. aead data (ph_PacketNumber hdr) ad = Inr (payload, up_encryptionLevel p) \<and>
                length (up_frames p) \<le> length payload) \<and>
              list_all (frame_allowed (up_encryptionLevel p)) (up_frames p)"
proof (cases "aead data (ph_PacketNumber hdr) ad")
  case (Inl e)
  then have "no_panic (wrapErr DecryptionFailure (Inl e) :: unpackedPacket result)"
    using assms by (intro no_panic_intros) (simp add: no_panic_def)
  then show ?thesis using Inl
    by (cases e) (auto simp: Unpack_def no_panic_def)
next
  case (Inr p)
  obtain payload lvl where p: "p = (payload, lvl)" by (cases p)
  show ?thesis
    using Inr p unpackFrames_safe [of v hdr lvl payload marks]
    by (auto simp: Unpack_def no_panic_def is_panic_def split: prod.splits sum.splits)
qed

theorem Unpack_safe_witness:
  "case fst (Unpack (\<lambda>d pn ad. Inr (d, EncryptionUnencrypted)) 39 [] zeroPublicHeader [7, 0xC0, 1] {}) of
      Inl e \<Rightarrow> \<not> is_panic e
    | Inr p \<Rightarrow> (\<exists>payload. Inr ([7, 0xC0, 1], EncryptionUnencrypted) =
                  (Inr (payload, up_encryptionLevel p) :: (bytes \<times> EncryptionLevel) result) \<and>
                length (up_frames p) \<le> length payload) \<and>
              list_all (frame_allowed (up_encryptionLevel p)) (up_frames p)"
  by (rule Unpack_safe [where aead = "\<lambda>d pn ad. Inr (d, EncryptionUnencrypted)"]) simp

end
