(* ===== verification/Go_Numeric.thy ===== *)
theory Go_Numeric
imports Protocol "HOL-Library.Log_Nat"
begin

text \<open>
  Signed 64-bit and floating point arithmetic of Go, and the package functions of
  \<^verbatim>\<open>internal/utils/minmax.go\<close>.

  A \<^verbatim>\<open>float32\<close> or \<^verbatim>\<open>float64\<close> value is a rational number; every operation rounds its exact result to
  a mantissa of 24 or 53 bits, to even on a tie (IEEE 754 without the exponent limits, which
  the code does not reach: its values are bandwidths, windows and durations). A conversion to an
  integer truncates; out of range it yields the least integer, as on amd64.
\<close>

section \<open>Definitions\<close>

definition int64 :: "int \<Rightarrow> int" where
  "int64 x = signed_take_bit 63 x"

definition ilog2 :: "rat \<Rightarrow> int" where
  "ilog2 x = (if x \<ge> 1 then bitlen \<lfloor>x\<rfloor> - 1 else - bitlen (\<lceil>1 / x\<rceil> - 1))"

definition round_even :: "rat \<Rightarrow> int" where
  "round_even x =
     (let f = \<lfloor>x\<rfloor>; d = x - of_int f
      in if d < 1 / 2 then f else if d > 1 / 2 then f + 1 else if even f then f else f + 1)"

definition fround :: "nat \<Rightarrow> rat \<Rightarrow> rat" where
  "fround p x =
     (if x = 0 then 0
      else let u = 2 powi (ilog2 \<bar>x\<bar> - int p + 1) in of_int (round_even (x / u)) * u)"

definition float32 :: "rat \<Rightarrow> rat" where "float32 x = fround 24 x"
definition float64 :: "rat \<Rightarrow> rat" where "float64 x = fround 53 x"

definition trunc_rat :: "rat \<Rightarrow> int" where
  "trunc_rat x = (if x \<ge> 0 then \<lfloor>x\<rfloor> else \<lceil>x\<rceil>)"

definition int64_of_float :: "rat \<Rightarrow> int" where
  "int64_of_float x =
     (let t = trunc_rat x in if - (2 ^ 63) \<le> t \<and> t < 2 ^ 63 then t else - (2 ^ 63))"

definition uint64_of_float :: "rat \<Rightarrow> uint64" where
  "uint64_of_float x =
     (let t = trunc_rat x in if - (2 ^ 63) \<le> t \<and> t < 2 ^ 64 then word_of_int t else 2 ^ 63)"

text \<open>\<^verbatim>\<open>minmax.go\<close>.\<close>

definition Max_int :: "int \<Rightarrow> int \<Rightarrow> int" where "Max_int a b = (if a < b then b else a)"
definition Min_int :: "int \<Rightarrow> int \<Rightarrow> int" where "Min_int a b = (if a < b then a else b)"
definition MaxUint32 :: "uint32 \<Rightarrow> uint32 \<Rightarrow> uint32" where "MaxUint32 a b = (if a < b then b else a)"
definition MinUint32 :: "uint32 \<Rightarrow> uint32 \<Rightarrow> uint32" where "MinUint32 a b = (if a < b then a else b)"
definition MaxUint64 :: "uint64 \<Rightarrow> uint64 \<Rightarrow> uint64" where "MaxUint64 a b = (if a < b then b else a)"
definition MinUint64 :: "uint64 \<Rightarrow> uint64 \<Rightarrow> uint64" where "MinUint64 a b = (if a < b then a else b)"
definition MinInt64 :: "int \<Rightarrow> int \<Rightarrow> int" where "MinInt64 a b = (if a < b then a else b)"
definition MaxInt64 :: "int \<Rightarrow> int \<Rightarrow> int" where "MaxInt64 a b = (if a > b then a else b)"
definition utils_MinByteCount :: "ByteCount \<Rightarrow> ByteCount \<Rightarrow> ByteCount" where
  "utils_MinByteCount a b = (if a < b then a else b)"
definition utils_MaxByteCount :: "ByteCount \<Rightarrow> ByteCount \<Rightarrow> ByteCount" where
  "utils_MaxByteCount a b = (if a > b then a else b)"
definition MaxDuration :: "duration \<Rightarrow> duration \<Rightarrow> duration" where "MaxDuration a b = (if a > b then a else b)"
definition MinDuration :: "duration \<Rightarrow> duration \<Rightarrow> duration" where "MinDuration a b = (if a > b then b else a)"
definition AbsDuration :: "duration \<Rightarrow> duration" where "AbsDuration d = (if d \<ge> 0 then d else int64 (- d))"
definition MinTime :: "gotime \<Rightarrow> gotime \<Rightarrow> gotime" where "MinTime a b = (if a > b then b else a)"
definition MaxTime :: "gotime \<Rightarrow> gotime \<Rightarrow> gotime" where "MaxTime a b = (if a > b then a else b)"
definition MaxPacketNumber :: "PacketNumber \<Rightarrow> PacketNumber \<Rightarrow> PacketNumber" where
  "MaxPacketNumber a b = (if a > b then a else b)"
definition MinPacketNumber :: "PacketNumber \<Rightarrow> PacketNumber \<Rightarrow> PacketNumber" where
  "MinPacketNumber a b = (if a < b then a else b)"

named_theorems minmax \<open>the package functions as the library's min and max\<close>

lemma minmax_eqs [minmax]:
  "Max_int = max" "Min_int = min" "MaxUint32 = max" "MinUint32 = min" "MaxUint64 = max" "MinUint64 = min"
  "MinInt64 = min" "MaxInt64 = max" "utils_MinByteCount = min" "utils_MaxByteCount = max"
  "MaxDuration = max" "MinDuration = min" "MinTime = min" "MaxTime = max" "MaxPacketNumber = max" "MinPacketNumber = min"
  by (auto simp: Max_int_def Min_int_def MaxUint32_def MinUint32_def MaxUint64_def MinUint64_def
      MinInt64_def MaxInt64_def utils_MinByteCount_def utils_MaxByteCount_def MaxDuration_def MinDuration_def
      MinTime_def MaxTime_def MaxPacketNumber_def MinPacketNumber_def max_def min_def fun_eq_iff)

section \<open>Signed arithmetic\<close>

lemma int64_id: "- (2 ^ 63) \<le> x \<Longrightarrow> x < 2 ^ 63 \<Longrightarrow> int64 x = x"
  by (simp add: int64_def signed_take_bit_int_eq_self)

lemma int64_range: "- (2 ^ 63) \<le> int64 x" "int64 x < 2 ^ 63"
  using signed_take_bit_int_greater_eq_minus_exp [of 63 x] signed_take_bit_int_less_exp [of 63 x]
  by (simp_all add: int64_def)

lemma sdiv_nonneg: "0 \<le> k \<Longrightarrow> 0 \<le> l \<Longrightarrow> k sdiv l = k div (l :: int)"
  by (auto simp: signed_divide_int_def sgn_if)

section \<open>Rounding\<close>

text \<open>Powers of two as shifted integers, for evaluation.\<close>

definition pow2 :: "int \<Rightarrow> rat" where
  "pow2 e = (if e \<ge> 0 then of_int (push_bit (nat e) 1) else 1 / of_int (push_bit (nat (- e)) 1))"

lemma pow2_eq: "pow2 e = 2 powi e"
  by (simp add: pow2_def power_int_def push_bit_eq_mult inverse_eq_divide power_one_over)

lemma fround_code [code]:
  "fround p x =
     (if x = 0 then 0
      else let e = ilog2 \<bar>x\<bar> - int p + 1 in of_int (round_even (x * pow2 (- e))) * pow2 e)"
  by (simp add: fround_def Let_def pow2_eq power_int_minus field_simps)

lemma fround_0 [simp]: "fround p 0 = 0"
  by (simp add: fround_def)

lemma bitlen_props:
  assumes "0 < n"
  shows "2 ^ nat (bitlen n - 1) \<le> n" "n < 2 ^ nat (bitlen n)" "0 < bitlen n"
proof -
  show b: "2 ^ nat (bitlen n - 1) \<le> n" "n < 2 ^ nat (bitlen n)" using bitlen_bounds [OF assms] by auto
  show "0 < bitlen n" using b(2) assms by (cases "bitlen n \<le> 0") auto
qed

lemma bitlen_rat:
  assumes "0 < n"
  shows "(2 :: rat) ^ nat (bitlen n - 1) \<le> of_int n" "of_int n + 1 \<le> (2 :: rat) ^ nat (bitlen n)"
proof -
  have "of_int (2 ^ nat (bitlen n - 1)) \<le> (of_int n :: rat)"
    using bitlen_props(1) [OF assms] by (subst of_int_le_iff)
  then show "(2 :: rat) ^ nat (bitlen n - 1) \<le> of_int n" by (metis of_int_numeral of_int_power)
  have "of_int (n + 1) \<le> (of_int (2 ^ nat (bitlen n)) :: rat)"
    using bitlen_props(2) [OF assms] by (subst of_int_le_iff) simp
  then show "of_int n + 1 \<le> (2 :: rat) ^ nat (bitlen n)" by simp
qed

lemma ilog2_bounds:
  assumes "0 < x"
  shows "2 powi ilog2 x \<le> x \<and> x < 2 powi (ilog2 x + 1)"
proof (cases "x \<ge> 1")
  case True
  define n where "n = \<lfloor>x\<rfloor>"
  have "0 < n" using True by (simp add: n_def)
  note b = bitlen_rat [OF this] bitlen_props(3) [OF this]
  have "of_int n \<le> x" "x < of_int n + 1" unfolding n_def by linarith+
  with b have "2 ^ nat (bitlen n - 1) \<le> x" "x < 2 ^ nat (bitlen n)" by linarith+
  then show ?thesis using True b(3) by (simp add: ilog2_def n_def power_int_def)
next
  case False
  define n where "n = \<lceil>1 / x\<rceil> - 1"
  have "1 < 1 / x" using False assms by simp
  then have "0 < n" by (simp add: n_def less_ceiling_iff)
  note b = bitlen_rat [OF this] bitlen_props(3) [OF this]
  have "of_int n < 1 / x" "1 / x \<le> of_int n + 1" unfolding n_def by linarith+
  with b have "2 ^ nat (bitlen n - 1) < 1 / x" "1 / x \<le> 2 ^ nat (bitlen n)" by linarith+
  then have "1 / 2 ^ nat (bitlen n) \<le> x" "x < 1 / 2 ^ nat (bitlen n - 1)"
    using assms by (simp_all add: field_simps)
  moreover have "(2 :: rat) powi - bitlen n = 1 / 2 ^ nat (bitlen n)"
      "(2 :: rat) powi (- bitlen n + 1) = 1 / 2 ^ nat (bitlen n - 1)"
    using b(3) by (auto simp: power_int_def inverse_eq_divide power_one_over)
  moreover have "ilog2 x = - bitlen n" using False by (simp add: ilog2_def n_def)
  ultimately show ?thesis by simp
qed

lemma round_even_cases: "round_even x = \<lfloor>x\<rfloor> \<or> round_even x = \<lfloor>x\<rfloor> + 1 \<and> of_int \<lfloor>x\<rfloor> < x"
  by (auto simp: round_even_def Let_def)

lemma round_even_ge: "of_int n \<le> x \<Longrightarrow> n \<le> round_even x"
  using round_even_cases [of x] le_floor_iff [of n x] by auto

lemma round_even_le: "x \<le> of_int n \<Longrightarrow> round_even x \<le> n"
  using round_even_cases [of x] floor_le_iff [of x n] by linarith

text \<open>Rounding respects the numbers of its grid, in particular all integers up to \<open>2 ^ p\<close>.\<close>

definition fgrid :: "nat \<Rightarrow> rat \<Rightarrow> rat" where
  "fgrid p x = 2 powi (ilog2 x - int p + 1)"

lemma fround_grid: "0 < x \<Longrightarrow> fround p x = of_int (round_even (x / fgrid p x)) * fgrid p x"
  by (simp add: fround_def fgrid_def Let_def)

lemma fgrid_pos: "0 < fgrid p x"
  by (simp add: fgrid_def)

lemma fround_ge_grid: "0 < x \<Longrightarrow> of_int m * fgrid p x \<le> x \<Longrightarrow> of_int m * fgrid p x \<le> fround p x"
  using fgrid_pos [of p x]
  by (simp add: fround_grid mult_right_mono round_even_ge pos_le_divide_eq)

lemma fround_le_grid: "0 < x \<Longrightarrow> x \<le> of_int m * fgrid p x \<Longrightarrow> fround p x \<le> of_int m * fgrid p x"
  using fgrid_pos [of p x]
  by (simp add: fround_grid mult_right_mono round_even_le pos_divide_le_eq)

lemma int_on_grid:
  assumes "ilog2 x < int p"
  shows "of_int n = of_int (n * 2 ^ nat (int p - 1 - ilog2 x)) * fgrid p x"
proof -
  have "fgrid p x = 1 / 2 ^ nat (int p - 1 - ilog2 x)"
    using assms by (auto simp: fgrid_def power_int_def power_one_over field_simps)
  then show ?thesis by simp
qed

lemma exp_on_grid:
  assumes "int p \<le> ilog2 x" "0 < p"
  shows "2 powi ilog2 x = of_int (2 ^ (p - 1)) * fgrid p x"
proof -
  have "ilog2 x = int (p - 1) + (ilog2 x - int p + 1)" using assms by simp
  then have "2 powi ilog2 x = 2 powi int (p - 1) * (2 :: rat) powi (ilog2 x - int p + 1)"
    by (metis power_int_add zero_neq_numeral)
  then show ?thesis by (simp add: fgrid_def)
qed

lemma of_int_le_exp: "n \<le> 2 ^ p \<Longrightarrow> of_int n \<le> (2 powi int p :: rat)"
proof -
  assume "n \<le> 2 ^ p"
  then have "of_int n \<le> (of_int (2 ^ p) :: rat)" by (subst of_int_le_iff)
  then show ?thesis by (metis of_int_numeral of_int_power power_int_of_nat)
qed

lemma fround_ge_int:
  assumes "0 \<le> x" "of_int n \<le> x" "n \<le> 2 ^ p" "0 < p"
  shows "of_int n \<le> fround p x"
proof (cases "x = 0")
  case False
  then have x: "0 < x" using assms by simp
  show ?thesis
  proof (cases "ilog2 x < int p")
    case True
    show ?thesis
      using fround_ge_grid [OF x, of "n * 2 ^ nat (int p - 1 - ilog2 x)" p, folded int_on_grid [OF True]] assms(2) .
  next
    case False
    then have e: "2 powi ilog2 x = of_int (2 ^ (p - 1)) * fgrid p x" using assms(4) by (intro exp_on_grid) simp_all
    have "2 powi ilog2 x \<le> fround p x"
      using ilog2_bounds [OF x, THEN conjunct1] unfolding e by (rule fround_ge_grid [OF x])
    moreover have "(2 :: rat) powi int p \<le> 2 powi ilog2 x"
      using False by (intro power_int_increasing) auto
    ultimately show ?thesis using of_int_le_exp [OF assms(3)] by linarith
  qed
qed (use assms in \<open>simp add: fround_def\<close>)

lemma fround_le_int:
  assumes "0 \<le> x" "x \<le> of_int n" "n \<le> 2 ^ p" "0 < p"
  shows "fround p x \<le> of_int n"
proof (cases "x = 0")
  case False
  then have x: "0 < x" using assms by simp
  show ?thesis
  proof (cases "ilog2 x < int p")
    case True
    show ?thesis
      using fround_le_grid [OF x, of "n * 2 ^ nat (int p - 1 - ilog2 x)" p, folded int_on_grid [OF True]] assms(2) .
  next
    case False
    note le = order_trans [OF assms(2) of_int_le_exp [OF assms(3)]] of_int_le_exp [OF assms(3)]
    have "(2 :: rat) powi int p \<le> 2 powi ilog2 x"
      using False by (intro power_int_increasing) auto
    with le ilog2_bounds [OF x, THEN conjunct1] assms(2) have "of_int n = (2 :: rat) powi ilog2 x" "x = 2 powi ilog2 x" by linarith+
    moreover have e: "2 powi ilog2 x = of_int (2 ^ (p - 1)) * fgrid p x"
      using False assms(4) by (intro exp_on_grid) simp_all
    ultimately show ?thesis using fround_le_grid [OF x, of "2 ^ (p - 1)" p, folded e] by simp
  qed
qed (use assms in \<open>simp add: fround_def\<close>)

lemma fround_int: "0 \<le> n \<Longrightarrow> n \<le> 2 ^ p \<Longrightarrow> 0 < p \<Longrightarrow> fround p (of_int n) = of_int n"
  by (intro antisym fround_ge_int fround_le_int) auto

lemma fround_nonneg: "0 \<le> x \<Longrightarrow> 0 < p \<Longrightarrow> 0 \<le> fround p x"
  using fround_ge_int [of x 0 p] by simp

text \<open>Below \<open>2 ^ p\<close> the rounding error is at most one half.\<close>

lemma round_even_error: "\<bar>of_int (round_even x) - x\<bar> \<le> 1 / 2"
proof -
  have "of_int \<lfloor>x\<rfloor> \<le> x" "x < of_int \<lfloor>x\<rfloor> + 1" by linarith+
  then show ?thesis by (auto simp: round_even_def Let_def)
qed

lemma fround_error:
  assumes "0 \<le> x" "x < of_int (2 ^ p)" "0 < p"
  shows "\<bar>fround p x - x\<bar> \<le> 1 / 2"
proof (cases "x = 0")
  case False
  then have x: "0 < x" using assms by simp
  have "\<not> int p \<le> ilog2 x"
  proof
    assume "int p \<le> ilog2 x"
    then have "(2 :: rat) powi int p \<le> 2 powi ilog2 x" by (intro power_int_increasing) auto
    then show False using ilog2_bounds [OF x] assms(2) by (simp add: order_le_less_trans)
  qed
  then have "fgrid p x \<le> 2 powi 0" unfolding fgrid_def by (intro power_int_increasing) auto
  then have u: "0 < fgrid p x" "fgrid p x \<le> 1" using fgrid_pos by simp_all
  have "fround p x - x = (of_int (round_even (x / fgrid p x)) - x / fgrid p x) * fgrid p x"
    using x u by (simp add: fround_grid algebra_simps)
  then have "\<bar>fround p x - x\<bar> \<le> 1 / 2 * fgrid p x"
    using round_even_error [of "x / fgrid p x"] u by (simp add: abs_mult mult_right_mono)
  then show ?thesis using u by linarith
qed (simp add: fround_def)

lemma int64_of_float_nonneg: "0 \<le> x \<Longrightarrow> \<lfloor>x\<rfloor> < 2 ^ 63 \<Longrightarrow> int64_of_float x = \<lfloor>x\<rfloor>"
proof -
  assume "0 \<le> x" "\<lfloor>x\<rfloor> < 2 ^ 63"
  moreover then have "- (2 ^ 63) \<le> \<lfloor>x\<rfloor>" by (simp add: le_floor_iff)
  ultimately show ?thesis unfolding int64_of_float_def trunc_rat_def Let_def by (simp only: if_True simp_thms)
qed

end
