(* ===== verification/RTT_Stats.thy ===== *)
theory RTT_Stats
imports Go_Numeric
begin

text \<open>
  The round-trip time estimator (\<^verbatim>\<open>congestion/rtt_stats.go\<close>): minimum, latest and smoothed RTT, mean
  deviation, and the windowed minimum over three samples. Durations are 64-bit integers of
  nanoseconds; the smoothing computes in \<^verbatim>\<open>float32\<close> microseconds.
\<close>

section \<open>Definitions\<close>

definition initialRTTus :: int where "initialRTTus = 100 * 1000"
definition rttAlpha :: rat where "rttAlpha = 1 / 8"
definition oneMinusAlpha :: rat where "oneMinusAlpha = 7 / 8"
definition rttBeta :: rat where "rttBeta = 1 / 4"
definition oneMinusBeta :: rat where "oneMinusBeta = 3 / 4"
definition halfWindow :: rat where "halfWindow = 1 / 2"
definition quarterWindow :: rat where "quarterWindow = 1 / 4"

record rttSample =
  rs_rtt :: duration
  rs_time :: gotime

record RTTStats =
  rtt_initialRTTus :: int
  rtt_recentMinRTTwindow :: duration
  rtt_minRTT :: duration
  rtt_latestRTT :: duration
  rtt_smoothedRTT :: duration
  rtt_meanDeviation :: duration
  rtt_numMinRTTsamplesRemaining :: uint32
  rtt_newMinRTT :: rttSample
  rtt_recentMinRTT :: rttSample
  rtt_halfWindowRTT :: rttSample
  rtt_quarterWindowRTT :: rttSample

definition noSample :: rttSample where "noSample = \<lparr>rs_rtt = 0, rs_time = 0\<rparr>"

definition NewRTTStats :: RTTStats where
  "NewRTTStats =
     \<lparr>rtt_initialRTTus = initialRTTus, rtt_recentMinRTTwindow = InfDuration, rtt_minRTT = 0,
      rtt_latestRTT = 0, rtt_smoothedRTT = 0, rtt_meanDeviation = 0,
      rtt_numMinRTTsamplesRemaining = 0, rtt_newMinRTT = noSample, rtt_recentMinRTT = noSample,
      rtt_halfWindowRTT = noSample, rtt_quarterWindowRTT = noSample\<rparr>"

definition SetRecentMinRTTwindow :: "duration \<Rightarrow> RTTStats \<Rightarrow> RTTStats" where
  "SetRecentMinRTTwindow w r = r\<lparr>rtt_recentMinRTTwindow := w\<rparr>"

text \<open>The forced sampling of a new minimum.\<close>

definition takeNewMinSample :: "duration \<Rightarrow> gotime \<Rightarrow> RTTStats \<Rightarrow> RTTStats" where
  "takeNewMinSample sample now r =
     (if rtt_numMinRTTsamplesRemaining r > 0
      then let r = r\<lparr>rtt_numMinRTTsamplesRemaining := rtt_numMinRTTsamplesRemaining r - 1\<rparr>;
               r = (if rs_rtt (rtt_newMinRTT r) = 0 \<or> sample \<le> rs_rtt (rtt_newMinRTT r)
                    then r\<lparr>rtt_newMinRTT := \<lparr>rs_rtt = sample, rs_time = now\<rparr>\<rparr> else r)
           in if rtt_numMinRTTsamplesRemaining r = 0
              then r\<lparr>rtt_recentMinRTT := rtt_newMinRTT r, rtt_halfWindowRTT := rtt_newMinRTT r,
                     rtt_quarterWindowRTT := rtt_newMinRTT r\<rparr>
              else r
      else r)"

text \<open>The update of the three samples and the expiry of old ones.\<close>

definition updateWindowSamples :: "duration \<Rightarrow> gotime \<Rightarrow> RTTStats \<Rightarrow> RTTStats" where
  "updateWindowSamples sample now r =
     (let s = \<lparr>rs_rtt = sample, rs_time = now\<rparr>
      in if rs_rtt (rtt_recentMinRTT r) = 0 \<or> sample \<le> rs_rtt (rtt_recentMinRTT r)
         then r\<lparr>rtt_recentMinRTT := s, rtt_halfWindowRTT := s, rtt_quarterWindowRTT := s\<rparr>
         else if sample \<le> rs_rtt (rtt_halfWindowRTT r)
         then r\<lparr>rtt_halfWindowRTT := s, rtt_quarterWindowRTT := s\<rparr>
         else if sample \<le> rs_rtt (rtt_quarterWindowRTT r)
         then r\<lparr>rtt_quarterWindowRTT := s\<rparr>
         else r)"

definition windowPart :: "rat \<Rightarrow> RTTStats \<Rightarrow> duration" where
  "windowPart part r =
     int64 (int64_of_float (float32 (float32 (of_int (rtt_recentMinRTTwindow r sdiv Microsecond)) * part))
            * Microsecond)"

definition expireWindowSamples :: "duration \<Rightarrow> gotime \<Rightarrow> RTTStats \<Rightarrow> RTTStats" where
  "expireWindowSamples sample now r =
     (let s = \<lparr>rs_rtt = sample, rs_time = now\<rparr>
      in if rs_time (rtt_recentMinRTT r) < now + int64 (- rtt_recentMinRTTwindow r)
         then r\<lparr>rtt_recentMinRTT := rtt_halfWindowRTT r, rtt_halfWindowRTT := rtt_quarterWindowRTT r,
                rtt_quarterWindowRTT := s\<rparr>
         else if rs_time (rtt_halfWindowRTT r) < now + int64 (- windowPart halfWindow r)
         then r\<lparr>rtt_halfWindowRTT := rtt_quarterWindowRTT r, rtt_quarterWindowRTT := s\<rparr>
         else if rs_time (rtt_quarterWindowRTT r) < now + int64 (- windowPart quarterWindow r)
         then r\<lparr>rtt_quarterWindowRTT := s\<rparr>
         else r)"

definition updateRecentMinRTT :: "duration \<Rightarrow> gotime \<Rightarrow> RTTStats \<Rightarrow> RTTStats" where
  "updateRecentMinRTT sample now r =
     expireWindowSamples sample now (updateWindowSamples sample now (takeNewMinSample sample now r))"

text \<open>Exponential smoothing: \<open>a\<close> and \<open>b\<close> are the weights of the old value and of the sample.\<close>

definition smooth :: "rat \<Rightarrow> rat \<Rightarrow> duration \<Rightarrow> duration \<Rightarrow> duration" where
  "smooth a b old sample =
     int64 (int64_of_float
              (float32 (float32 (a * float32 (of_int (old sdiv Microsecond)))
                        + float32 (b * float32 (of_int (sample sdiv Microsecond)))))
            * Microsecond)"

definition UpdateRTT :: "duration \<Rightarrow> duration \<Rightarrow> gotime \<Rightarrow> RTTStats \<Rightarrow> RTTStats" where
  "UpdateRTT sendDelta ackDelay now r =
     (if sendDelta = InfDuration \<or> sendDelta \<le> 0 then r
      else let r = (if rtt_minRTT r = 0 \<or> rtt_minRTT r > sendDelta then r\<lparr>rtt_minRTT := sendDelta\<rparr> else r);
               r = updateRecentMinRTT sendDelta now r;
               sample = (if sendDelta > ackDelay then int64 (sendDelta - ackDelay) else sendDelta);
               r = r\<lparr>rtt_latestRTT := sample\<rparr>
           in if rtt_smoothedRTT r = 0
              then r\<lparr>rtt_smoothedRTT := sample, rtt_meanDeviation := sample sdiv 2\<rparr>
              else r\<lparr>rtt_meanDeviation := smooth oneMinusBeta rttBeta (rtt_meanDeviation r)
                                            (AbsDuration (int64 (rtt_smoothedRTT r - sample))),
                     rtt_smoothedRTT := smooth oneMinusAlpha rttAlpha (rtt_smoothedRTT r) sample\<rparr>)"

definition SampleNewRecentMinRTT :: "uint32 \<Rightarrow> RTTStats \<Rightarrow> RTTStats" where
  "SampleNewRecentMinRTT numSamples r =
     r\<lparr>rtt_numMinRTTsamplesRemaining := numSamples, rtt_newMinRTT := noSample\<rparr>"

definition rtt_OnConnectionMigration :: "RTTStats \<Rightarrow> RTTStats" where
  "rtt_OnConnectionMigration r =
     r\<lparr>rtt_latestRTT := 0, rtt_minRTT := 0, rtt_smoothedRTT := 0, rtt_meanDeviation := 0,
       rtt_initialRTTus := initialRTTus, rtt_numMinRTTsamplesRemaining := 0,
       rtt_recentMinRTTwindow := InfDuration, rtt_recentMinRTT := noSample,
       rtt_halfWindowRTT := noSample, rtt_quarterWindowRTT := noSample\<rparr>"

definition ExpireSmoothedMetrics :: "RTTStats \<Rightarrow> RTTStats" where
  "ExpireSmoothedMetrics r =
     r\<lparr>rtt_meanDeviation := MaxDuration (rtt_meanDeviation r)
                               (AbsDuration (int64 (rtt_smoothedRTT r - rtt_latestRTT r))),
       rtt_smoothedRTT := MaxDuration (rtt_smoothedRTT r) (rtt_latestRTT r)\<rparr>"

definition UpdateSessionRTT :: "duration \<Rightarrow> RTTStats \<Rightarrow> RTTStats" where
  "UpdateSessionRTT smoothedRTT r = r\<lparr>rtt_smoothedRTT := smoothedRTT\<rparr>"

section \<open>The windowed minimum\<close>

text \<open>Everything that can happen to an estimator.\<close>

inductive rtt_run :: "RTTStats \<Rightarrow> bool" where
  rtt_new: "rtt_run NewRTTStats"
| rtt_update: "rtt_run r \<Longrightarrow> rtt_run (UpdateRTT sendDelta ackDelay now r)"
| rtt_window: "rtt_run r \<Longrightarrow> rtt_run (SetRecentMinRTTwindow w r)"
| rtt_sample: "rtt_run r \<Longrightarrow> rtt_run (SampleNewRecentMinRTT n r)"
| rtt_migrate: "rtt_run r \<Longrightarrow> rtt_run (rtt_OnConnectionMigration r)"
| rtt_expire: "rtt_run r \<Longrightarrow> rtt_run (ExpireSmoothedMetrics r)"
| rtt_session: "rtt_run r \<Longrightarrow> rtt_run (UpdateSessionRTT s r)"

text \<open>
  The window samples are ordered, and none is below the minimum of the connection; a sample of 0
  means that there is none.
\<close>

definition windows_ordered :: "RTTStats \<Rightarrow> bool" where
  "windows_ordered r \<longleftrightarrow>
     0 \<le> rtt_minRTT r \<and> 0 \<le> rs_rtt (rtt_recentMinRTT r) \<and>
     rs_rtt (rtt_recentMinRTT r) \<le> rs_rtt (rtt_halfWindowRTT r) \<and>
     rs_rtt (rtt_halfWindowRTT r) \<le> rs_rtt (rtt_quarterWindowRTT r) \<and>
     (rs_rtt (rtt_recentMinRTT r) = 0 \<or>
      0 < rtt_minRTT r \<and> rtt_minRTT r \<le> rs_rtt (rtt_recentMinRTT r))"

definition new_min_ok :: "RTTStats \<Rightarrow> bool" where
  "new_min_ok r \<longleftrightarrow> rtt_numMinRTTsamplesRemaining r = 0 \<or> rs_rtt (rtt_newMinRTT r) = 0 \<or>
     0 < rtt_minRTT r \<and> rtt_minRTT r \<le> rs_rtt (rtt_newMinRTT r)"

lemma takeNewMinSample_keeps:
  assumes "windows_ordered r" "new_min_ok r" "rtt_minRTT r \<le> sample" "0 < rtt_minRTT r"
  shows "windows_ordered (takeNewMinSample sample now r) \<and> new_min_ok (takeNewMinSample sample now r) \<and>
    rtt_minRTT (takeNewMinSample sample now r) = rtt_minRTT r"
  using assms by (auto simp: takeNewMinSample_def windows_ordered_def new_min_ok_def Let_def)

lemma updateWindowSamples_keeps:
  assumes "windows_ordered r" "rtt_minRTT r \<le> sample" "0 < rtt_minRTT r"
  shows "windows_ordered (updateWindowSamples sample now r)"
    "rs_rtt (rtt_quarterWindowRTT (updateWindowSamples sample now r)) \<le> sample"
    "0 < rs_rtt (rtt_recentMinRTT (updateWindowSamples sample now r))"
    "rtt_minRTT (updateWindowSamples sample now r) = rtt_minRTT r"
    "new_min_ok (updateWindowSamples sample now r) = new_min_ok r"
  using assms by (auto simp: updateWindowSamples_def windows_ordered_def new_min_ok_def Let_def)

lemma expireWindowSamples_keeps:
  assumes "windows_ordered r" "rs_rtt (rtt_quarterWindowRTT r) \<le> sample" "0 < rs_rtt (rtt_recentMinRTT r)"
  shows "windows_ordered (expireWindowSamples sample now r)"
    "rtt_minRTT (expireWindowSamples sample now r) = rtt_minRTT r"
    "new_min_ok (expireWindowSamples sample now r) = new_min_ok r"
  using assms by (auto simp: expireWindowSamples_def windows_ordered_def new_min_ok_def Let_def)

lemma updateRecentMinRTT_keeps:
  assumes "windows_ordered r" "new_min_ok r" "rtt_minRTT r \<le> sample" "0 < rtt_minRTT r"
  shows "windows_ordered (updateRecentMinRTT sample now r)" "new_min_ok (updateRecentMinRTT sample now r)"
    "rtt_minRTT (updateRecentMinRTT sample now r) = rtt_minRTT r"
  unfolding updateRecentMinRTT_def
  using takeNewMinSample_keeps [OF assms, of now] assms(3,4)
  by (simp_all add: expireWindowSamples_keeps updateWindowSamples_keeps)

lemma updateRecentMinRTT_smoothed:
  "rtt_smoothedRTT (updateRecentMinRTT s now r) = rtt_smoothedRTT r"
  "rtt_meanDeviation (updateRecentMinRTT s now r) = rtt_meanDeviation r"
  by (simp_all add: updateRecentMinRTT_def expireWindowSamples_def updateWindowSamples_def
      takeNewMinSample_def Let_def)

text \<open>One accepted sample: everything but the smoothing.\<close>

definition recordMin :: "duration \<Rightarrow> gotime \<Rightarrow> RTTStats \<Rightarrow> RTTStats" where
  "recordMin sendDelta now r = updateRecentMinRTT sendDelta now
     (if rtt_minRTT r = 0 \<or> rtt_minRTT r > sendDelta then r\<lparr>rtt_minRTT := sendDelta\<rparr> else r)"

lemma recordMin_keeps:
  assumes "windows_ordered r" "new_min_ok r" "0 < sendDelta"
  shows "windows_ordered (recordMin sendDelta now r)" "new_min_ok (recordMin sendDelta now r)"
    "rtt_minRTT (recordMin sendDelta now r) = (if rtt_minRTT r = 0 then sendDelta else min (rtt_minRTT r) sendDelta)"
proof -
  define r1 where "r1 = (if rtt_minRTT r = 0 \<or> rtt_minRTT r > sendDelta then r\<lparr>rtt_minRTT := sendDelta\<rparr> else r)"
  have "windows_ordered r1" "new_min_ok r1" "rtt_minRTT r1 \<le> sendDelta" "0 < rtt_minRTT r1"
    using assms by (auto simp: r1_def windows_ordered_def new_min_ok_def)
  note keeps = updateRecentMinRTT_keeps [OF this, of now]
  show "windows_ordered (recordMin sendDelta now r)" "new_min_ok (recordMin sendDelta now r)"
    using keeps by (simp_all add: recordMin_def flip: r1_def)
  show "rtt_minRTT (recordMin sendDelta now r) = (if rtt_minRTT r = 0 then sendDelta else min (rtt_minRTT r) sendDelta)"
    using keeps(3) assms(1) by (simp add: recordMin_def flip: r1_def) (auto simp: r1_def)
qed

lemma UpdateRTT_sel:
  fixes sendDelta ackDelay :: duration
  assumes "sendDelta \<noteq> InfDuration" "0 < sendDelta"
  defines "sample \<equiv> (if sendDelta > ackDelay then int64 (sendDelta - ackDelay) else sendDelta)"
  shows "rtt_minRTT (UpdateRTT sendDelta ackDelay now r) = rtt_minRTT (recordMin sendDelta now r)"
    "windows_ordered (UpdateRTT sendDelta ackDelay now r) = windows_ordered (recordMin sendDelta now r)"
    "new_min_ok (UpdateRTT sendDelta ackDelay now r) = new_min_ok (recordMin sendDelta now r)"
    "rtt_latestRTT (UpdateRTT sendDelta ackDelay now r) = sample"
    "rtt_smoothedRTT (UpdateRTT sendDelta ackDelay now r) =
       (if rtt_smoothedRTT r = 0 then sample else smooth oneMinusAlpha rttAlpha (rtt_smoothedRTT r) sample)"
    "rtt_meanDeviation (UpdateRTT sendDelta ackDelay now r) =
       (if rtt_smoothedRTT r = 0 then sample sdiv 2
        else smooth oneMinusBeta rttBeta (rtt_meanDeviation r) (AbsDuration (int64 (rtt_smoothedRTT r - sample))))"
  using assms(1,2) unfolding UpdateRTT_def Let_def
  by (simp_all add: recordMin_def [symmetric] sample_def [symmetric] windows_ordered_def new_min_ok_def)
     (simp_all add: recordMin_def updateRecentMinRTT_smoothed)

lemma UpdateRTT_keeps:
  "windows_ordered r \<Longrightarrow> new_min_ok r \<Longrightarrow>
   windows_ordered (UpdateRTT sendDelta ackDelay now r) \<and> new_min_ok (UpdateRTT sendDelta ackDelay now r)"
  by (cases "sendDelta = InfDuration \<or> sendDelta \<le> 0")
     (simp add: UpdateRTT_def, simp add: UpdateRTT_sel recordMin_keeps)

lemma rtt_run_inv: "rtt_run r \<Longrightarrow> windows_ordered r \<and> new_min_ok r"
proof (induction rule: rtt_run.induct)
  case (rtt_update r sendDelta ackDelay now)
  then show ?case by (simp add: UpdateRTT_keeps)
qed (auto simp: windows_ordered_def new_min_ok_def NewRTTStats_def SetRecentMinRTTwindow_def
    SampleNewRecentMinRTT_def rtt_OnConnectionMigration_def ExpireSmoothedMetrics_def UpdateSessionRTT_def
    noSample_def)

text \<open>
  (C18) In every run of the estimator the windowed minima are in order: the recent minimum is at
  most the minimum of half the window, which is at most that of a quarter of the window, and
  none of them is below the minimum RTT of the connection.
\<close>

theorem rtt_windows_in_order:
  assumes "rtt_run r"
  shows "rs_rtt (rtt_recentMinRTT r) = 0 \<or>
    0 < rtt_minRTT r \<and> rtt_minRTT r \<le> rs_rtt (rtt_recentMinRTT r) \<and>
    rs_rtt (rtt_recentMinRTT r) \<le> rs_rtt (rtt_halfWindowRTT r) \<and>
    rs_rtt (rtt_halfWindowRTT r) \<le> rs_rtt (rtt_quarterWindowRTT r)"
  using rtt_run_inv [OF assms] by (auto simp: windows_ordered_def)

theorem rtt_windows_in_order_witness:
  "let r = UpdateRTT (20 * Millisecond) 0 2000 (SetRecentMinRTTwindow 100
             (UpdateRTT (10 * Millisecond) 0 1000 NewRTTStats))
   in rs_rtt (rtt_recentMinRTT r) = 10 * Millisecond \<and>
      0 < rtt_minRTT r \<and> rtt_minRTT r \<le> rs_rtt (rtt_recentMinRTT r) \<and>
      rs_rtt (rtt_recentMinRTT r) \<le> rs_rtt (rtt_halfWindowRTT r) \<and>
      rs_rtt (rtt_halfWindowRTT r) \<le> rs_rtt (rtt_quarterWindowRTT r)"
proof -
  define r where "r = UpdateRTT (20 * Millisecond) 0 2000 (SetRecentMinRTTwindow 100
             (UpdateRTT (10 * Millisecond) 0 1000 NewRTTStats))"
  have "rtt_run r" unfolding r_def by (intro rtt_run.intros)
  moreover have "rs_rtt (rtt_recentMinRTT r) = 10 * Millisecond" unfolding r_def by code_simp
  ultimately show ?thesis using rtt_windows_in_order [of r] unfolding r_def [symmetric] Let_def by simp
qed

section \<open>Smoothing\<close>

lemma smooth_bounds:
  assumes w: "0 \<le> a" "0 \<le> b" "a + b = 1"
    and old: "0 \<le> old" "old \<le> 16 * Second" and sample: "0 \<le> sample" "sample \<le> 16 * Second"
  shows "min old sample - 2 * Microsecond < smooth a b old sample"
    "smooth a b old sample \<le> max old sample + Microsecond" "0 \<le> smooth a b old sample"
proof -
  define m n where "m = old div 1000" and "n = sample div 1000"
  have mn: "0 \<le> m" "m \<le> 16000000" "0 \<le> n" "n \<le> 16000000" using old sample by (auto simp: m_def n_def)
  define x y where "x = float32 (a * of_int m)" and "y = float32 (b * of_int n)"
  have le: "a * of_int m \<le> of_int m" "b * of_int n \<le> of_int n"
    using w mn by (intro mult_left_le_one_le; linarith)+
  have lt: "of_int m < (of_int (2 ^ 24) :: rat)" "of_int n < (of_int (2 ^ 24) :: rat)"
    using mn by (simp_all del: of_int_power)
  have err: "\<bar>x - a * of_int m\<bar> \<le> 1 / 2" "\<bar>y - b * of_int n\<bar> \<le> 1 / 2"
    unfolding x_def y_def float32_def using w mn
    by (intro fround_error le_less_trans [OF le(1) lt(1)] le_less_trans [OF le(2) lt(2)]; simp)+
  have nonneg: "0 \<le> x" "0 \<le> y" using w mn by (simp_all add: x_def y_def float32_def fround_nonneg)
  have "of_int (min m n) \<le> a * of_int m + b * of_int n" "a * of_int m + b * of_int n \<le> of_int (max m n)"
  proof -
    have "a * of_int (min m n) + b * of_int (min m n) \<le> a * of_int m + b * of_int n"
      "a * of_int m + b * of_int n \<le> a * of_int (max m n) + b * of_int (max m n)"
      using w by (intro add_mono mult_left_mono; simp)+
    then show "of_int (min m n) \<le> a * of_int m + b * of_int n" "a * of_int m + b * of_int n \<le> of_int (max m n)"
      using w(3) by (simp_all flip: distrib_right)
  qed
  then have sum: "of_int (min m n - 1) \<le> x + y" "x + y \<le> of_int (max m n + 1)"
    using err unfolding abs_le_iff of_int_diff of_int_add of_int_1 by linarith+
  define z where "z = float32 (x + y)"
  have z: "of_int (min m n - 1) \<le> z" "z \<le> of_int (max m n + 1)" "0 \<le> z"
    unfolding z_def float32_def using nonneg mn
    by (intro fround_ge_int sum fround_le_int fround_nonneg add_nonneg_nonneg; simp)+
  then have t: "min m n - 1 \<le> \<lfloor>z\<rfloor>" "\<lfloor>z\<rfloor> \<le> max m n + 1" "0 \<le> \<lfloor>z\<rfloor>"
    by (auto simp: le_floor_iff floor_le_iff)
  have "smooth a b old sample = int64 (int64_of_float z * 1000)"
    using old sample mn by (simp add: smooth_def sdiv_nonneg m_def n_def x_def y_def z_def
        float32_def fround_int)
  also have "\<dots> = \<lfloor>z\<rfloor> * 1000"
    using t mn z(3) by (subst int64_of_float_nonneg) (linarith | simp add: int64_id)+
  finally have s: "smooth a b old sample = \<lfloor>z\<rfloor> * 1000" .
  have "m * 1000 \<le> old" "old < m * 1000 + 1000" "n * 1000 \<le> sample" "sample < n * 1000 + 1000"
    unfolding m_def n_def by auto
  then show "min old sample - 2 * Microsecond < smooth a b old sample"
    "smooth a b old sample \<le> max old sample + Microsecond" "0 \<le> smooth a b old sample"
    using t unfolding s by linarith+
qed



end
