(* ===== verification/Sent_Packet.thy ===== *)
theory Sent_Packet
imports Packet_Unpacker RTT_Stats
begin

text \<open>
  What the sender tracks and the interfaces it relies on: sent packets and the frames of them
  that are worth retransmitting (\<^verbatim>\<open>ackhandler/packet.go\<close>, \<^verbatim>\<open>retransmittable.go\<close>), the choice of STOP_WAITING
  frames (\<^verbatim>\<open>stop_waiting_manager.go\<close>), and the interface of congestion controllers
  (\<^verbatim>\<open>congestion/interface.go\<close>).

  A congestion controller is a record of functions over its state. The RTT estimator is an object
  that the handler and the controller share: \<open>sa_rttStats\<close> and \<open>sa_setRTTStats\<close> read and write it in the
  state of the controller.
\<close>

section \<open>Definitions\<close>

record Packet =
  pk_PacketNumber :: PacketNumber
  pk_Frames :: "Frame list"
  pk_Length :: ByteCount
  pk_EncryptionLevel :: EncryptionLevel
  pk_SendTime :: gotime

fun GetFramesForRetransmission_loop :: "Frame list \<Rightarrow> Frame list" where
  "GetFramesForRetransmission_loop [] = []"
| "GetFramesForRetransmission_loop (frame # rest) =
     (case frame of
        AckF _ \<Rightarrow> GetFramesForRetransmission_loop rest
      | StopWaitingF _ \<Rightarrow> GetFramesForRetransmission_loop rest
      | _ \<Rightarrow> frame # GetFramesForRetransmission_loop rest)"

definition GetFramesForRetransmission :: "Packet \<Rightarrow> Frame list" where
  "GetFramesForRetransmission p = GetFramesForRetransmission_loop (pk_Frames p)"

fun instigatesRetransmission :: "Frame \<Rightarrow> bool" where
  "instigatesRetransmission (StreamF _) = True"
| "instigatesRetransmission (RstStreamF _) = True"
| "instigatesRetransmission (WindowUpdateF _) = True"
| "instigatesRetransmission (BlockedF _) = True"
| "instigatesRetransmission (PingF _) = True"
| "instigatesRetransmission (GoawayF _) = True"
| "instigatesRetransmission (AddAddressF _) = True"
| "instigatesRetransmission (PathsF _) = True"
| "instigatesRetransmission _ = False"

definition IsRetransmittable :: "Packet \<Rightarrow> bool" where
  "IsRetransmittable p = list_ex instigatesRetransmission (pk_Frames p)"

fun IsFrameRetransmittable :: "Frame \<Rightarrow> bool" where
  "IsFrameRetransmittable (StopWaitingF _) = False"
| "IsFrameRetransmittable (AckF _) = False"
| "IsFrameRetransmittable (StreamF f) = (\<not> sf_UnreliableMarker f)"
| "IsFrameRetransmittable _ = True"

fun stripNonRetransmittableFrames :: "Frame list \<Rightarrow> Frame list" where
  "stripNonRetransmittableFrames [] = []"
| "stripNonRetransmittableFrames (f # fs) =
     (if IsFrameRetransmittable f then f # stripNonRetransmittableFrames fs
      else stripNonRetransmittableFrames fs)"

definition HasRetransmittableFrames :: "Frame list \<Rightarrow> bool" where
  "HasRetransmittableFrames fs = list_ex IsFrameRetransmittable fs"

record stopWaitingManager =
  swm_largestLeastUnackedSent :: PacketNumber
  swm_nextLeastUnacked :: PacketNumber
  swm_lastStopWaitingFrame :: "StopWaitingFrame option"

definition newStopWaitingManager :: stopWaitingManager where
  "newStopWaitingManager =
     \<lparr>swm_largestLeastUnackedSent = 0, swm_nextLeastUnacked = 0, swm_lastStopWaitingFrame = None\<rparr>"

definition stopWaitingFrameFor :: "PacketNumber \<Rightarrow> StopWaitingFrame" where
  "stopWaitingFrameFor leastUnacked =
     \<lparr>sw_LeastUnacked = leastUnacked, sw_PacketNumberLen = 0, sw_PacketNumber = 0\<rparr>"

definition swm_GetStopWaitingFrame ::
    "bool \<Rightarrow> stopWaitingManager \<Rightarrow> StopWaitingFrame option \<times> stopWaitingManager" where
  "swm_GetStopWaitingFrame force s =
     (if swm_nextLeastUnacked s \<le> swm_largestLeastUnackedSent s
      then if force
           then let s = (if swm_lastStopWaitingFrame s = None \<and> swm_largestLeastUnackedSent s > 0
                         then s\<lparr>swm_lastStopWaitingFrame := Some (stopWaitingFrameFor (swm_nextLeastUnacked s))\<rparr>
                         else s)
                in (swm_lastStopWaitingFrame s, s)
           else (None, s)
      else let s = s\<lparr>swm_largestLeastUnackedSent := swm_nextLeastUnacked s\<rparr>;
               swf = stopWaitingFrameFor (swm_nextLeastUnacked s)
           in (Some swf, s\<lparr>swm_lastStopWaitingFrame := Some swf\<rparr>))"

definition swm_ReceivedAck :: "AckFrame \<Rightarrow> stopWaitingManager \<Rightarrow> stopWaitingManager" where
  "swm_ReceivedAck ack s =
     (if af_LargestAcked ack \<ge> swm_nextLeastUnacked s
      then s\<lparr>swm_nextLeastUnacked := af_LargestAcked ack + 1\<rparr> else s)"

definition QueuedRetransmissionForPacketNumber :: "PacketNumber \<Rightarrow> stopWaitingManager \<Rightarrow> stopWaitingManager" where
  "QueuedRetransmissionForPacketNumber p s =
     (if p \<ge> swm_nextLeastUnacked s then s\<lparr>swm_nextLeastUnacked := p + 1\<rparr> else s)"

record 's SendAlgorithm =
  sa_rttStats :: "'s \<Rightarrow> RTTStats"
  sa_setRTTStats :: "RTTStats \<Rightarrow> 's \<Rightarrow> 's"
  sa_TimeUntilSend :: "gotime \<Rightarrow> ByteCount \<Rightarrow> 's \<Rightarrow> duration"
  sa_OnPacketSent :: "gotime \<Rightarrow> ByteCount \<Rightarrow> PacketNumber \<Rightarrow> ByteCount \<Rightarrow> bool \<Rightarrow> 's \<Rightarrow> bool \<times> 's"
  sa_GetCongestionWindow :: "'s \<Rightarrow> ByteCount"
  sa_MaybeExitSlowStart :: "'s \<Rightarrow> 's"
  sa_OnPacketAcked :: "gotime \<Rightarrow> PacketNumber \<Rightarrow> ByteCount \<Rightarrow> ByteCount \<Rightarrow> 's \<Rightarrow> 's"
  sa_OnPacketLost :: "PacketNumber \<Rightarrow> ByteCount \<Rightarrow> ByteCount \<Rightarrow> 's \<Rightarrow> 's"
  sa_SetNumEmulatedConnections :: "int \<Rightarrow> 's \<Rightarrow> 's"
  sa_OnRetransmissionTimeout :: "bool \<Rightarrow> 's \<Rightarrow> 's"
  sa_OnConnectionMigration :: "'s \<Rightarrow> 's"
  sa_RetransmissionDelay :: "'s \<Rightarrow> duration"
  sa_SmoothedRTT :: "'s \<Rightarrow> duration"
  sa_SetSlowStartLargeReduction :: "bool \<Rightarrow> 's \<Rightarrow> 's"

section \<open>Retransmittable frames\<close>

lemma stripNonRetransmittableFrames_filter:
  "stripNonRetransmittableFrames fs = filter IsFrameRetransmittable fs"
  by (induction fs) auto

text \<open>The stripped frames of a packet are all sent again.\<close>

lemma GetFramesForRetransmission_strip:
  "GetFramesForRetransmission_loop (stripNonRetransmittableFrames fs) = stripNonRetransmittableFrames fs"
proof (induction fs)
  case (Cons f fs)
  then show ?case by (cases f) auto
qed simp

lemma strip_empty_iff: "stripNonRetransmittableFrames fs = [] \<longleftrightarrow> \<not> HasRetransmittableFrames fs"
  by (auto simp: stripNonRetransmittableFrames_filter HasRetransmittableFrames_def list_ex_iff filter_empty_conv)

text \<open>
  The two notions of a retransmittable packet agree on what is kept of a packet, except for
  packets with only CONNECTION_CLOSE and CLOSE_PATH frames.
\<close>

fun closing_frame :: "Frame \<Rightarrow> bool" where
  "closing_frame (ConnectionCloseF _) = True"
| "closing_frame (ClosePathF _) = True"
| "closing_frame _ = False"

lemma retransmittable_cases:
  "IsFrameRetransmittable f \<Longrightarrow> instigatesRetransmission f \<or> closing_frame f"
  by (cases f) auto

lemma IsRetransmittable_strip:
  assumes "pk_Frames p = stripNonRetransmittableFrames fs" "pk_Frames p \<noteq> []"
    and "\<not> list_all closing_frame (pk_Frames p)"
  shows "IsRetransmittable p"
  using assms retransmittable_cases
  by (auto simp: IsRetransmittable_def stripNonRetransmittableFrames_filter list_ex_iff list_all_iff)

section \<open>STOP_WAITING frames\<close>

text \<open>
  A frame that was sent announces the largest number announced so far, which never runs ahead of
  the next one to announce. In particular a number was announced only if a frame is remembered,
  so the case that \<^verbatim>\<open>GetStopWaitingFrame\<close> singles out with a comment does not occur.
\<close>

definition swm_inv :: "stopWaitingManager \<Rightarrow> bool" where
  "swm_inv s \<longleftrightarrow> swm_largestLeastUnackedSent s \<le> swm_nextLeastUnacked s \<and>
     (case swm_lastStopWaitingFrame s of
        None \<Rightarrow> swm_largestLeastUnackedSent s = 0
      | Some f \<Rightarrow> sw_LeastUnacked f = swm_largestLeastUnackedSent s)"

lemma swm_inv_new: "swm_inv newStopWaitingManager"
  by (simp add: swm_inv_def newStopWaitingManager_def)

lemma unat_Suc_le: "unat p + 1 < 2 ^ 64 \<Longrightarrow> q \<le> p \<Longrightarrow> (q :: uint64) \<le> p + 1"
  by (simp add: unat_simps unat_add_no_wrap)

lemma swm_inv_ReceivedAck:
  assumes "swm_inv s" "unat (af_LargestAcked ack) + 1 < 2 ^ 64"
  shows "swm_inv (swm_ReceivedAck ack s)"
    "swm_nextLeastUnacked s \<le> swm_nextLeastUnacked (swm_ReceivedAck ack s)"
  using assms by (auto simp: swm_inv_def swm_ReceivedAck_def unat_Suc_le split: option.splits)

lemma swm_inv_Queued:
  assumes "swm_inv s" "unat p + 1 < 2 ^ 64"
  shows "swm_inv (QueuedRetransmissionForPacketNumber p s)"
    "swm_nextLeastUnacked s \<le> swm_nextLeastUnacked (QueuedRetransmissionForPacketNumber p s)"
  using assms by (auto simp: swm_inv_def QueuedRetransmissionForPacketNumber_def unat_Suc_le split: option.splits)

lemma swm_GetStopWaitingFrame_spec:
  assumes "swm_inv s" "swm_GetStopWaitingFrame force s = (swf, s')"
  shows "swm_inv s'" "swm_nextLeastUnacked s' = swm_nextLeastUnacked s"
    "case swf of Some f \<Rightarrow> sw_LeastUnacked f = swm_nextLeastUnacked s | None \<Rightarrow> s' = s"
  using assms
  by (auto simp: swm_inv_def swm_GetStopWaitingFrame_def stopWaitingFrameFor_def Let_def
      split: option.splits if_splits)

end
