(* ===== verification/Sent_Handler.thy ===== *)
theory Sent_Handler
imports Sent_Packet "HOL-Library.Multiset"
begin

text \<open>
  The sender's side of loss recovery (\<^verbatim>\<open>ackhandler/sent_packet_handler.go\<close>): tracking of sent packets,
  acknowledgements, loss detection by time, tail loss probes, retransmission timeouts with
  exponential backoff, the queue of packets to retransmit, and the tracking of skipped packet
  numbers against optimistic ACKs.

  The packet history is the list of its elements; that the linked list of the code behaves as one
  is shown in \<open>Linked_List\<close>. An element that the code removes through its pointer is removed
  as a value: elements are distinct since their packet numbers increase. The clock is read once per
  operation and its reading is the argument \<open>now\<close>. The callback for retransmission timeouts is an
  argument that acts on a state of its own.
\<close>

section \<open>Definitions\<close>

definition defaultRTOTimeout :: duration where "defaultRTOTimeout = 500 * Millisecond"
definition minRTOTimeout :: duration where "minRTOTimeout = 200 * Millisecond"
definition maxRTOTimeout :: duration where "maxRTOTimeout = 60 * Second"
definition maxTailLossProbes :: uint32 where "maxTailLossProbes = 2"
definition minRetransmissionTime :: duration where "minRetransmissionTime = 200 * Millisecond"
definition minTailLossProbeTimeout :: duration where "minTailLossProbeTimeout = 10 * Millisecond"

definition ErrDuplicateOrOutOfOrderAck :: error where
  "ErrDuplicateOrOutOfOrderAck = GoErr ''SentPacketHandler: Duplicate or out-of-order ACK''"
definition ErrTooManyTrackedSentPackets :: error where
  "ErrTooManyTrackedSentPackets = GoErr ''Too many outstanding non-acked and non-retransmitted packets''"
definition ErrAckForSkippedPacket :: error where
  "ErrAckForSkippedPacket = QuicErr InvalidAckData ''Received an ACK for a skipped packet number''"
definition errAckForUnsentPacket :: error where
  "errAckForUnsentPacket = QuicErr InvalidAckData ''Received ACK for an unsent package''"
definition errPacketNumberNotIncreasing :: error where
  "errPacketNumberNotIncreasing = GoErr ''Already sent a packet with a higher packet number''"

record 's sentPacketHandler =
  sph_lastSentPacketNumber :: PacketNumber
  sph_skippedPackets :: "PacketNumber list"
  sph_numNonRetransmittablePackets :: int
  sph_LargestAcked :: PacketNumber
  sph_largestReceivedPacketWithAck :: PacketNumber
  sph_packetHistory :: "Packet list"
  sph_stopWaitingManager :: stopWaitingManager
  sph_retransmissionQueue :: "Packet list"
  sph_bytesInFlight :: ByteCount
  sph_congestion :: 's
  sph_rtoCount :: uint32
  sph_tlpCount :: uint32
  sph_lossTime :: gotime
  sph_lastSentTime :: gotime
  sph_alarm :: gotime
  sph_packets :: uint64
  sph_retransmissions :: uint64
  sph_losses :: uint64

definition NewSentPacketHandler :: "'s \<Rightarrow> 's sentPacketHandler" where
  "NewSentPacketHandler cong =
     \<lparr>sph_lastSentPacketNumber = 0, sph_skippedPackets = [], sph_numNonRetransmittablePackets = 0,
      sph_LargestAcked = 0, sph_largestReceivedPacketWithAck = 0, sph_packetHistory = [],
      sph_stopWaitingManager = newStopWaitingManager, sph_retransmissionQueue = [],
      sph_bytesInFlight = 0, sph_congestion = cong, sph_rtoCount = 0, sph_tlpCount = 0,
      sph_lossTime = 0, sph_lastSentTime = 0, sph_alarm = 0, sph_packets = 0,
      sph_retransmissions = 0, sph_losses = 0\<rparr>"

definition sph_GetStatistics :: "'s sentPacketHandler \<Rightarrow> uint64 \<times> uint64 \<times> uint64" where
  "sph_GetStatistics h = (sph_packets h, sph_retransmissions h, sph_losses h)"

definition largestInOrderAcked :: "'s sentPacketHandler \<Rightarrow> PacketNumber" where
  "largestInOrderAcked h =
     (case sph_packetHistory h of f # _ \<Rightarrow> pk_PacketNumber f - 1 | [] \<Rightarrow> sph_LargestAcked h)"

definition ShouldSendRetransmittablePacket :: "'s sentPacketHandler \<Rightarrow> bool" where
  "ShouldSendRetransmittablePacket h \<longleftrightarrow>
     sph_numNonRetransmittablePackets h \<ge> MaxNonRetransmittablePackets"

text \<open>The alarm.\<close>

definition computeRTOTimeout :: "'s SendAlgorithm \<Rightarrow> 's sentPacketHandler \<Rightarrow> duration" where
  "computeRTOTimeout alg h =
     (let rto = sa_RetransmissionDelay alg (sph_congestion h);
          rto = (if rto = 0 then defaultRTOTimeout else rto);
          rto = MaxDuration rto minRTOTimeout;
          rto = int64 (push_bit (unat (sph_rtoCount h)) rto)
      in MinDuration rto maxRTOTimeout)"

definition hasMultipleOutstandingRetransmittablePackets :: "'s sentPacketHandler \<Rightarrow> bool" where
  "hasMultipleOutstandingRetransmittablePackets h \<longleftrightarrow>
     (case sph_packetHistory h of _ # _ # _ \<Rightarrow> True | _ \<Rightarrow> False)"

definition computeTLPTimeout :: "'s SendAlgorithm \<Rightarrow> 's sentPacketHandler \<Rightarrow> duration" where
  "computeTLPTimeout alg h =
     (let rtt = sa_SmoothedRTT alg (sph_congestion h)
      in if hasMultipleOutstandingRetransmittablePackets h
         then MaxDuration (int64 (2 * rtt))
                (int64 (int64 (rtt * 3) sdiv 2 + minRetransmissionTime sdiv 2))
         else MaxDuration (int64 (2 * rtt)) minTailLossProbeTimeout)"

definition updateLossDetectionAlarm :: "'s SendAlgorithm \<Rightarrow> 's sentPacketHandler \<Rightarrow> 's sentPacketHandler" where
  "updateLossDetectionAlarm alg h =
     (if length (sph_packetHistory h) = 0 then h\<lparr>sph_alarm := 0\<rparr>
      else if sph_lossTime h \<noteq> 0 then h\<lparr>sph_alarm := sph_lossTime h\<rparr>
      else if rtt_smoothedRTT (sa_rttStats alg (sph_congestion h)) \<noteq> 0 \<and> sph_tlpCount h < maxTailLossProbes
      then h\<lparr>sph_alarm := sph_lastSentTime h + computeTLPTimeout alg h\<rparr>
      else h\<lparr>sph_alarm := sph_lastSentTime h
               + MaxDuration (computeRTOTimeout alg h) minRetransmissionTime\<rparr>)"

text \<open>Sending.\<close>

function skipLoop :: "PacketNumber \<Rightarrow> PacketNumber \<Rightarrow> PacketNumber list \<Rightarrow> PacketNumber list" where
  "skipLoop p packetNumber skipped =
     (if p < packetNumber
      then let skipped = skipped @ [p];
               skipped = (if length skipped > MaxTrackedSkippedPackets then drop 1 skipped else skipped)
           in skipLoop (p + 1) packetNumber skipped
      else skipped)"
  by pat_completeness auto
termination
proof (relation "measure (\<lambda>(p, packetNumber, _). unat packetNumber - unat p)")
  fix p packetNumber :: PacketNumber and skipped x
  assume p: "p < packetNumber"
  then have "unat (p + 1) = unat p + 1"
    by (intro unat_succ_below [where y = packetNumber]) (simp add: unat_simps)
  then show "((p + 1, packetNumber, x), p, packetNumber, skipped) \<in>
      measure (\<lambda>(p, packetNumber, _). unat packetNumber - unat p)"
    using p by (simp add: unat_simps)
qed simp

declare skipLoop.simps [simp del]

definition trackSent :: "gotime \<Rightarrow> Packet \<Rightarrow> 's sentPacketHandler \<Rightarrow> 's sentPacketHandler" where
  "trackSent now packet h =
     (if length (pk_Frames packet) \<noteq> 0
      then let packet = packet\<lparr>pk_SendTime := now\<rparr>
           in h\<lparr>sph_bytesInFlight := sph_bytesInFlight h + pk_Length packet,
                sph_packetHistory := sph_packetHistory h @ [packet],
                sph_numNonRetransmittablePackets := 0\<rparr>
      else h\<lparr>sph_numNonRetransmittablePackets := sph_numNonRetransmittablePackets h + 1\<rparr>)"

definition sph_SentPacket ::
    "'s SendAlgorithm \<Rightarrow> gotime \<Rightarrow> Packet \<Rightarrow> 's sentPacketHandler \<Rightarrow> 's sentPacketHandler result" where
  "sph_SentPacket alg now packet h =
     (if pk_PacketNumber packet \<le> sph_lastSentPacketNumber h then Inl errPacketNumberNotIncreasing
      else if length (sph_retransmissionQueue h) + length (sph_packetHistory h) + 1 > MaxTrackedSentPackets
      then Inl ErrTooManyTrackedSentPackets
      else let h = h\<lparr>sph_skippedPackets := skipLoop (sph_lastSentPacketNumber h + 1)
                       (pk_PacketNumber packet) (sph_skippedPackets h)\<rparr>;
               h = h\<lparr>sph_lastSentPacketNumber := pk_PacketNumber packet,
                     sph_packets := sph_packets h + 1, sph_lastSentTime := now\<rparr>;
               packet = packet\<lparr>pk_Frames := stripNonRetransmittableFrames (pk_Frames packet)\<rparr>;
               isRetransmittable = (length (pk_Frames packet) \<noteq> 0);
               h = trackSent now packet h;
               h = h\<lparr>sph_congestion := snd (sa_OnPacketSent alg now (sph_bytesInFlight h)
                       (pk_PacketNumber packet) (pk_Length packet) isRetransmittable (sph_congestion h))\<rparr>
           in Inr (updateLossDetectionAlarm alg h))"

text \<open>Which packets an ACK covers: the ranges are visited from the lowest one upwards.\<close>

fun skipRanges :: "PacketNumber \<Rightarrow> AckRange list \<Rightarrow> AckRange list" where
  "skipRanges packetNumber (ackRange # next # rest) =
     (if packetNumber > Last ackRange then skipRanges packetNumber (next # rest)
      else ackRange # next # rest)"
| "skipRanges packetNumber rest = rest"

fun newlyAckedLoop :: "string \<Rightarrow> PacketNumber \<Rightarrow> PacketNumber \<Rightarrow> AckRange list \<Rightarrow> Packet list \<Rightarrow> Packet list result" where
  "newlyAckedLoop bug lowestAcked largestAcked ranges [] = Inr []"
| "newlyAckedLoop bug lowestAcked largestAcked ranges (p # ps) =
     (let packetNumber = pk_PacketNumber p
      in if packetNumber < lowestAcked then newlyAckedLoop bug lowestAcked largestAcked ranges ps
         else if packetNumber > largestAcked then Inr []
         else if ranges = []
         then bindE (newlyAckedLoop bug lowestAcked largestAcked ranges ps) (\<lambda>acked. Inr (p # acked))
         else let ranges = skipRanges packetNumber ranges; ackRange = hd ranges
              in if packetNumber \<ge> First ackRange
                 then if packetNumber > Last ackRange then Inl (GoErr bug)
                      else bindE (newlyAckedLoop bug lowestAcked largestAcked ranges ps)
                             (\<lambda>acked. Inr (p # acked))
                 else newlyAckedLoop bug lowestAcked largestAcked ranges ps)"

definition determineNewlyAckedPackets :: "AckFrame \<Rightarrow> 's sentPacketHandler \<Rightarrow> Packet list result" where
  "determineNewlyAckedPackets ackFrame h =
     newlyAckedLoop ''BUG: ackhandler would have acked wrong packet''
       (af_LowestAcked ackFrame) (af_LargestAcked ackFrame) (rev (af_AckRanges ackFrame)) (sph_packetHistory h)"

definition determineNewlyAckedPacketsClosePath :: "ClosePathFrame \<Rightarrow> 's sentPacketHandler \<Rightarrow> Packet list result" where
  "determineNewlyAckedPacketsClosePath f h =
     newlyAckedLoop ''BUG: ackhandler would have acked wrong packet with ClosePath frame''
       (cpf_LowestAcked f) (cpf_LargestAcked f) (rev (cpf_AckRanges f)) (sph_packetHistory h)"

fun findSendTime :: "PacketNumber \<Rightarrow> Packet list \<Rightarrow> gotime option" where
  "findSendTime largestAcked [] = None"
| "findSendTime largestAcked (p # ps) =
     (if pk_PacketNumber p = largestAcked then Some (pk_SendTime p)
      else if pk_PacketNumber p > largestAcked then None
      else findSendTime largestAcked ps)"

definition maybeUpdateRTT ::
    "'s SendAlgorithm \<Rightarrow> PacketNumber \<Rightarrow> duration \<Rightarrow> gotime \<Rightarrow> gotime \<Rightarrow> 's sentPacketHandler \<Rightarrow>
     bool \<times> 's sentPacketHandler" where
  "maybeUpdateRTT alg largestAcked ackDelay rcvTime now h =
     (case findSendTime largestAcked (sph_packetHistory h) of
        None \<Rightarrow> (False, h)
      | Some sendTime \<Rightarrow>
          (True, h\<lparr>sph_congestion := sa_setRTTStats alg
             (UpdateRTT (time_Sub rcvTime sendTime) ackDelay now (sa_rttStats alg (sph_congestion h)))
             (sph_congestion h)\<rparr>))"

definition hasOutstandingRetransmittablePacket :: "'s sentPacketHandler \<Rightarrow> bool" where
  "hasOutstandingRetransmittablePacket h = list_ex IsRetransmittable (sph_packetHistory h)"

definition onPacketAcked :: "Packet \<Rightarrow> 's sentPacketHandler \<Rightarrow> 's sentPacketHandler" where
  "onPacketAcked p h =
     h\<lparr>sph_bytesInFlight := sph_bytesInFlight h - pk_Length p, sph_rtoCount := 0, sph_tlpCount := 0,
       sph_packetHistory := remove1 p (sph_packetHistory h)\<rparr>"

definition ackPacket :: "'s SendAlgorithm \<Rightarrow> gotime \<Rightarrow> Packet \<Rightarrow> 's sentPacketHandler \<Rightarrow> 's sentPacketHandler" where
  "ackPacket alg now p h =
     (let h = onPacketAcked p h
      in h\<lparr>sph_congestion := sa_OnPacketAcked alg now (pk_PacketNumber p) (pk_Length p)
             (sph_bytesInFlight h) (sph_congestion h)\<rparr>)"

text \<open>Losses and retransmissions.\<close>

definition queuePacketForRetransmission :: "Packet \<Rightarrow> 's sentPacketHandler \<Rightarrow> 's sentPacketHandler" where
  "queuePacketForRetransmission p h =
     h\<lparr>sph_bytesInFlight := sph_bytesInFlight h - pk_Length p,
       sph_retransmissionQueue := sph_retransmissionQueue h @ [p],
       sph_packetHistory := remove1 p (sph_packetHistory h),
       sph_stopWaitingManager :=
         QueuedRetransmissionForPacketNumber (pk_PacketNumber p) (sph_stopWaitingManager h)\<rparr>"

definition losePacket :: "'s SendAlgorithm \<Rightarrow> Packet \<Rightarrow> 's sentPacketHandler \<Rightarrow> 's sentPacketHandler" where
  "losePacket alg p h =
     (let h = queuePacketForRetransmission p h
      in h\<lparr>sph_congestion := sa_OnPacketLost alg (pk_PacketNumber p) (pk_Length p)
             (sph_bytesInFlight h) (sph_congestion h)\<rparr>)"

fun lostLoop :: "gotime \<Rightarrow> duration \<Rightarrow> PacketNumber \<Rightarrow> gotime \<Rightarrow> Packet list \<Rightarrow> Packet list \<times> gotime" where
  "lostLoop now delayUntilLost largestAcked lossTime [] = ([], lossTime)"
| "lostLoop now delayUntilLost largestAcked lossTime (p # ps) =
     (if pk_PacketNumber p > largestAcked then ([], lossTime)
      else let timeSinceSent = time_Sub now (pk_SendTime p)
           in if timeSinceSent > delayUntilLost
              then (case lostLoop now delayUntilLost largestAcked lossTime ps of
                      (lost, lossTime) \<Rightarrow> (p # lost, lossTime))
              else lostLoop now delayUntilLost largestAcked
                     (if lossTime = 0 then now + int64 (delayUntilLost - timeSinceSent) else lossTime) ps)"

definition delayUntilLost :: "RTTStats \<Rightarrow> duration" where
  "delayUntilLost rttStats =
     int64_of_float (float64 (9 / 8 * float64 (of_int (MaxDuration (rtt_latestRTT rttStats) (rtt_smoothedRTT rttStats)))))"

definition detectLostPackets :: "'s SendAlgorithm \<Rightarrow> gotime \<Rightarrow> 's sentPacketHandler \<Rightarrow> 's sentPacketHandler" where
  "detectLostPackets alg now h =
     (case lostLoop now (delayUntilLost (sa_rttStats alg (sph_congestion h))) (sph_LargestAcked h) 0
             (sph_packetHistory h) of
        (lost, lossTime) \<Rightarrow>
          fold (losePacket alg) lost
            (h\<lparr>sph_lossTime := lossTime, sph_losses := sph_losses h + of_nat (length lost)\<rparr>))"

definition sph_SetInflightAsLost :: "'s SendAlgorithm \<Rightarrow> 's sentPacketHandler \<Rightarrow> 's sentPacketHandler" where
  "sph_SetInflightAsLost alg h =
     (let lost = takeWhile (\<lambda>p. \<not> pk_PacketNumber p > sph_LargestAcked h) (sph_packetHistory h)
      in fold (losePacket alg) lost (h\<lparr>sph_losses := sph_losses h + of_nat (length lost)\<rparr>))"

text \<open>Skipped packet numbers.\<close>

definition skippedPacketsAcked :: "AckFrame \<Rightarrow> 's sentPacketHandler \<Rightarrow> bool" where
  "skippedPacketsAcked ackFrame h = list_ex (\<lambda>p. af_AcksPacket ackFrame p) (sph_skippedPackets h)"

definition skippedPacketsAckedClosePath :: "ClosePathFrame \<Rightarrow> 's sentPacketHandler \<Rightarrow> bool" where
  "skippedPacketsAckedClosePath f h = list_ex (\<lambda>p. cpf_AcksPacket f p) (sph_skippedPackets h)"

fun deleteIndex :: "PacketNumber \<Rightarrow> nat \<Rightarrow> nat \<Rightarrow> PacketNumber list \<Rightarrow> nat" where
  "deleteIndex lioa i d [] = d"
| "deleteIndex lioa i d (p # ps) = deleteIndex lioa (i + 1) (if p \<le> lioa then i + 1 else d) ps"

definition garbageCollectSkippedPackets :: "'s sentPacketHandler \<Rightarrow> 's sentPacketHandler" where
  "garbageCollectSkippedPackets h =
     h\<lparr>sph_skippedPackets :=
         drop (deleteIndex (largestInOrderAcked h) 0 0 (sph_skippedPackets h)) (sph_skippedPackets h)\<rparr>"

text \<open>Acknowledgements.\<close>

text \<open>An operation that fails may have changed the handler before, so it returns both.\<close>

definition processAcked :: "'s SendAlgorithm \<Rightarrow> gotime \<Rightarrow> Packet list \<Rightarrow> 's sentPacketHandler \<Rightarrow> 's sentPacketHandler" where
  "processAcked alg now ackedPackets h = fold (ackPacket alg now) ackedPackets h"

definition sampleRTT ::
    "'s SendAlgorithm \<Rightarrow> AckFrame \<Rightarrow> gotime \<Rightarrow> gotime \<Rightarrow> 's sentPacketHandler \<Rightarrow> 's sentPacketHandler" where
  "sampleRTT alg ackFrame rcvTime now h =
     (case maybeUpdateRTT alg (af_LargestAcked ackFrame) (af_DelayTime ackFrame) rcvTime now h of
        (rttUpdated, h) \<Rightarrow>
          if rttUpdated then h\<lparr>sph_congestion := sa_MaybeExitSlowStart alg (sph_congestion h)\<rparr> else h)"

definition finishAck :: "'s SendAlgorithm \<Rightarrow> gotime \<Rightarrow> AckFrame \<Rightarrow> 's sentPacketHandler \<Rightarrow> 's sentPacketHandler" where
  "finishAck alg now ackFrame h =
     (let h = detectLostPackets alg now h;
          h = updateLossDetectionAlarm alg h;
          h = garbageCollectSkippedPackets h
      in h\<lparr>sph_stopWaitingManager := swm_ReceivedAck ackFrame (sph_stopWaitingManager h)\<rparr>)"

definition sph_ReceivedAck ::
    "'s SendAlgorithm \<Rightarrow> AckFrame \<Rightarrow> PacketNumber \<Rightarrow> gotime \<Rightarrow> gotime \<Rightarrow> 's sentPacketHandler \<Rightarrow>
     error option \<times> 's sentPacketHandler" where
  "sph_ReceivedAck alg ackFrame withPacketNumber rcvTime now h =
     (if af_LargestAcked ackFrame > sph_lastSentPacketNumber h then (Some errAckForUnsentPacket, h)
      else if withPacketNumber \<le> sph_largestReceivedPacketWithAck h then (Some ErrDuplicateOrOutOfOrderAck, h)
      else let h = h\<lparr>sph_largestReceivedPacketWithAck := withPacketNumber\<rparr>
      in if af_LargestAcked ackFrame \<le> largestInOrderAcked h then (None, h)
      else let h = h\<lparr>sph_LargestAcked := af_LargestAcked ackFrame\<rparr>
      in if skippedPacketsAcked ackFrame h then (Some ErrAckForSkippedPacket, h)
      else let h = sampleRTT alg ackFrame rcvTime now h
      in case determineNewlyAckedPackets ackFrame h of
           Inl err \<Rightarrow> (Some err, h)
         | Inr ackedPackets \<Rightarrow> (None, finishAck alg now ackFrame (processAcked alg now ackedPackets h)))"

definition sph_ReceivedClosePath ::
    "'s SendAlgorithm \<Rightarrow> ClosePathFrame \<Rightarrow> PacketNumber \<Rightarrow> gotime \<Rightarrow> gotime \<Rightarrow> 's sentPacketHandler \<Rightarrow>
     error option \<times> 's sentPacketHandler" where
  "sph_ReceivedClosePath alg f withPacketNumber rcvTime now h =
     (if cpf_LargestAcked f > sph_lastSentPacketNumber h then (Some errAckForUnsentPacket, h)
      else if withPacketNumber \<le> sph_largestReceivedPacketWithAck h then (Some ErrDuplicateOrOutOfOrderAck, h)
      else let h = h\<lparr>sph_largestReceivedPacketWithAck := withPacketNumber\<rparr>
      in if skippedPacketsAckedClosePath f h then (Some ErrAckForSkippedPacket, h)
      else case determineNewlyAckedPacketsClosePath f h of
             Inl err \<Rightarrow> (Some err, h)
           | Inr ackedPackets \<Rightarrow>
               (None, garbageCollectSkippedPackets
                        (sph_SetInflightAsLost alg (processAcked alg now ackedPackets h))))"

text \<open>Timeouts.\<close>

definition retransmitTLP :: "'s sentPacketHandler \<Rightarrow> 's sentPacketHandler" where
  "retransmitTLP h =
     (if sph_packetHistory h \<noteq> [] then queuePacketForRetransmission (last (sph_packetHistory h)) h else h)"

definition queueRTO :: "'s SendAlgorithm \<Rightarrow> Packet \<Rightarrow> 's sentPacketHandler \<Rightarrow> 's sentPacketHandler" where
  "queueRTO alg p h =
     (let h = queuePacketForRetransmission p h;
          h = h\<lparr>sph_losses := sph_losses h + 1\<rparr>
      in h\<lparr>sph_congestion := sa_OnPacketLost alg (pk_PacketNumber p) (pk_Length p)
             (sph_bytesInFlight h) (sph_congestion h)\<rparr>)"

function retransmitAllLoop :: "'s SendAlgorithm \<Rightarrow> 's sentPacketHandler \<Rightarrow> 's sentPacketHandler" where
  "retransmitAllLoop alg h =
     (case sph_packetHistory h of
        [] \<Rightarrow> h
      | p # _ \<Rightarrow> retransmitAllLoop alg (queueRTO alg p h))"
  by pat_completeness auto
termination
  by (relation "measure (\<lambda>(alg, h). length (sph_packetHistory h))")
     (auto simp: queueRTO_def queuePacketForRetransmission_def Let_def)

declare retransmitAllLoop.simps [simp del]

definition onRetransmissionTimeout :: "'s SendAlgorithm \<Rightarrow> 's sentPacketHandler \<Rightarrow> 's sentPacketHandler" where
  "onRetransmissionTimeout alg h =
     h\<lparr>sph_congestion := sa_OnRetransmissionTimeout alg True (sph_congestion h)\<rparr>"

definition retransmitAllPackets :: "'s SendAlgorithm \<Rightarrow> 's sentPacketHandler \<Rightarrow> 's sentPacketHandler" where
  "retransmitAllPackets alg h = onRetransmissionTimeout alg (retransmitAllLoop alg h)"

definition retransmitOldestPacket :: "'s SendAlgorithm \<Rightarrow> 's sentPacketHandler \<Rightarrow> 's sentPacketHandler" where
  "retransmitOldestPacket alg h =
     (case sph_packetHistory h of p # _ \<Rightarrow> queueRTO alg p h | [] \<Rightarrow> h)"

definition retransmitOldestTwoPackets :: "'s SendAlgorithm \<Rightarrow> 's sentPacketHandler \<Rightarrow> 's sentPacketHandler" where
  "retransmitOldestTwoPackets alg h =
     onRetransmissionTimeout alg (retransmitOldestPacket alg (retransmitOldestPacket alg h))"

definition handleRTO ::
    "'s SendAlgorithm \<Rightarrow> (gotime \<Rightarrow> 'w \<Rightarrow> bool \<times> 'w) option \<Rightarrow> 's sentPacketHandler \<Rightarrow> 'w \<Rightarrow>
     's sentPacketHandler \<times> 'w" where
  "handleRTO alg onRTOCallback h w =
     (case (case onRTOCallback of None \<Rightarrow> (False, w) | Some callback \<Rightarrow> callback (sph_lastSentTime h) w) of
        (potentiallyFailed, w) \<Rightarrow>
          let h = (if potentiallyFailed then retransmitAllPackets alg h else retransmitOldestTwoPackets alg h)
          in (h\<lparr>sph_rtoCount := sph_rtoCount h + 1\<rparr>, w))"

definition sph_OnAlarm ::
    "'s SendAlgorithm \<Rightarrow> (gotime \<Rightarrow> 'w \<Rightarrow> bool \<times> 'w) option \<Rightarrow> gotime \<Rightarrow> 's sentPacketHandler \<Rightarrow> 'w \<Rightarrow>
     's sentPacketHandler \<times> 'w" where
  "sph_OnAlarm alg onRTOCallback now h w =
     (if \<not> hasOutstandingRetransmittablePacket h then (h\<lparr>sph_alarm := 0\<rparr>, w)
      else case (if sph_lossTime h \<noteq> 0 then (detectLostPackets alg now h, w)
                 else if sph_tlpCount h < maxTailLossProbes
                 then (let h = retransmitTLP h in h\<lparr>sph_tlpCount := sph_tlpCount h + 1\<rparr>, w)
                 else handleRTO alg onRTOCallback h w) of
             (h, w) \<Rightarrow> (updateLossDetectionAlarm alg h, w))"

definition sph_GetAlarmTimeout :: "'s sentPacketHandler \<Rightarrow> gotime" where
  "sph_GetAlarmTimeout h = sph_alarm h"

definition DequeuePacketForRetransmission ::
    "'s sentPacketHandler \<Rightarrow> Packet option \<times> 's sentPacketHandler" where
  "DequeuePacketForRetransmission h =
     (case sph_retransmissionQueue h of
        [] \<Rightarrow> (None, h)
      | packet # rest \<Rightarrow>
          (Some packet, h\<lparr>sph_retransmissionQueue := rest, sph_retransmissions := sph_retransmissions h + 1\<rparr>))"

definition sph_GetLeastUnacked :: "'s sentPacketHandler \<Rightarrow> PacketNumber" where
  "sph_GetLeastUnacked h = largestInOrderAcked h + 1"

definition sph_GetStopWaitingFrame ::
    "bool \<Rightarrow> 's sentPacketHandler \<Rightarrow> StopWaitingFrame option \<times> 's sentPacketHandler" where
  "sph_GetStopWaitingFrame force h =
     (case swm_GetStopWaitingFrame force (sph_stopWaitingManager h) of
        (swf, m) \<Rightarrow> (swf, h\<lparr>sph_stopWaitingManager := m\<rparr>))"

definition sph_SendingAllowed :: "'s SendAlgorithm \<Rightarrow> 's sentPacketHandler \<Rightarrow> bool" where
  "sph_SendingAllowed alg h \<longleftrightarrow>
     (let congestionLimited = (sph_bytesInFlight h > sa_GetCongestionWindow alg (sph_congestion h));
          maxTrackedLimited =
            (length (sph_retransmissionQueue h) + length (sph_packetHistory h) \<ge> MaxTrackedSentPackets);
          haveRetransmissions = (length (sph_retransmissionQueue h) > 0)
      in \<not> maxTrackedLimited \<and> (\<not> congestionLimited \<or> haveRetransmissions))"

definition DuplicatePacket :: "Packet \<Rightarrow> 's sentPacketHandler \<Rightarrow> 's sentPacketHandler" where
  "DuplicatePacket packet h = h\<lparr>sph_retransmissionQueue := sph_retransmissionQueue h @ [packet]\<rparr>"

section \<open>The packets an ACK covers\<close>

definition ascending :: "Packet list \<Rightarrow> bool" where
  "ascending ps \<longleftrightarrow> sorted_wrt (\<lambda>p q. pk_PacketNumber p < pk_PacketNumber q) ps"

definition asc_ranges :: "AckRange list \<Rightarrow> bool" where
  "asc_ranges rs \<longleftrightarrow> sorted_wrt (\<lambda>a b. Last a < First b) rs \<and> (\<forall>a\<in>set rs. First a \<le> Last a)"

lemma ascending_Nil [simp]: "ascending []"
  by (simp add: ascending_def)

lemma ascending_Cons [simp]:
  "ascending (p # ps) \<longleftrightarrow> (\<forall>q\<in>set ps. pk_PacketNumber p < pk_PacketNumber q) \<and> ascending ps"
  by (simp add: ascending_def)

lemma ascending_distinct: "ascending ps \<Longrightarrow> distinct ps"
  by (induction ps) auto

lemma ascending_filter: "ascending ps \<Longrightarrow> ascending (filter P ps)"
  by (simp add: ascending_def sorted_wrt_filter)

lemma asc_ranges_rev: "desc_ranges rs \<Longrightarrow> asc_ranges (rev rs)"
proof (induction rs)
  case (Cons a rs)
  then have "asc_ranges (rev rs)" "First a \<le> Last a" by (simp_all add: desc_ranges_Cons)
  moreover have "Last b < First a" if "b \<in> set rs" for b
    using desc_ranges_below [OF Cons.prems that] by (simp add: unat_simps)
  ultimately show ?case by (auto simp: asc_ranges_def sorted_wrt_append)
qed (simp add: asc_ranges_def)

lemma skipRanges_split:
  assumes "rs \<noteq> []" "p \<le> Last (last rs)"
  obtains ys where "rs = ys @ skipRanges p rs" "\<forall>a\<in>set ys. Last a < p" "skipRanges p rs \<noteq> []"
    "p \<le> Last (hd (skipRanges p rs))"
  using assms
proof (induction p rs arbitrary: thesis rule: skipRanges.induct)
  case (1 p a b rs)
  show ?case
  proof (cases "p > Last a")
    case True
    obtain ys where "b # rs = ys @ skipRanges p (b # rs)" "\<forall>a\<in>set ys. Last a < p"
        "skipRanges p (b # rs) \<noteq> []" "p \<le> Last (hd (skipRanges p (b # rs)))"
      using 1(1) [OF True] 1(4) by auto
    then show ?thesis using True by (intro 1(2) [of "a # ys"]) auto
  next
    case False
    then show ?thesis by (intro 1(2) [of "[]"]) auto
  qed
next
  case "2_1"
  then show ?case by simp
next
  case "2_2"
  show ?case by (rule "2_2"(1) [of "[]"]) (use "2_2" in auto)
qed

lemma newlyAckedLoop_ranges:
  assumes "asc_ranges rs" "rs \<noteq> []" "Last (last rs) = largest" "ascending ps"
  shows "newlyAckedLoop bug lowest largest rs ps =
    Inr (filter (\<lambda>p. lowest \<le> pk_PacketNumber p \<and> pk_PacketNumber p \<le> largest \<and>
                  (\<exists>a\<in>set rs. First a \<le> pk_PacketNumber p \<and> pk_PacketNumber p \<le> Last a)) ps)"
  using assms
proof (induction ps arbitrary: rs)
  case (Cons p ps)
  define n where "n = pk_PacketNumber p"
  have later: "n < pk_PacketNumber q" if "q \<in> set ps" for q using Cons.prems(4) that by (simp add: n_def)
  consider (low) "n < lowest" | (high) "\<not> n < lowest" "n > largest" | (mid) "\<not> n < lowest" "n \<le> largest"
    by fastforce
  then show ?case
  proof cases
    case low
    then have "\<not> lowest \<le> n" by simp
    then show ?thesis using Cons low by (simp add: n_def)
  next
    case high
    moreover have "\<not> pk_PacketNumber q \<le> largest" if "q \<in> set ps" for q
      using later [OF that] high by simp
    ultimately show ?thesis by (auto simp: n_def filter_empty_conv)
  next
    case mid
    define rs' where "rs' = skipRanges n rs"
    obtain ys where ys: "rs = ys @ rs'" "\<forall>a\<in>set ys. Last a < n" "rs' \<noteq> []" "n \<le> Last (hd rs')"
      using skipRanges_split [of rs n] Cons.prems mid unfolding rs'_def by metis
    obtain r rest where r: "rs' = r # rest" using ys(3) by (cases rs') auto
    have asc: "asc_ranges rs'" using Cons.prems(1) ys(1) by (auto simp: asc_ranges_def sorted_wrt_append)
    have sel: "(\<exists>a\<in>set rs. First a \<le> m \<and> m \<le> Last a) = (\<exists>a\<in>set rs'. First a \<le> m \<and> m \<le> Last a)"
      if "n \<le> m" for m using that ys(1,2) by fastforce
    have here: "(\<exists>a\<in>set rs'. First a \<le> n \<and> n \<le> Last a) = (First r \<le> n)"
      using asc ys(4) by (fastforce simp: r asc_ranges_def)
    have IH: "newlyAckedLoop bug lowest largest rs' ps =
        Inr (filter (\<lambda>p. lowest \<le> pk_PacketNumber p \<and> pk_PacketNumber p \<le> largest \<and>
                  (\<exists>a\<in>set rs. First a \<le> pk_PacketNumber p \<and> pk_PacketNumber p \<le> Last a)) ps)"
      using Cons.IH [OF asc ys(3)] Cons.prems ys(1,3) sel later
      by (auto simp: intro!: filter_cong dest: less_imp_le)
    show ?thesis
      using mid ys(4) here sel [of n] Cons.prems(2)
      by (auto simp: Let_def n_def [symmetric] rs'_def [symmetric] r IH [unfolded r] simp del: skipRanges.simps)
  qed
qed simp

lemma newlyAckedLoop_no_ranges:
  assumes "ascending ps"
  shows "newlyAckedLoop bug lowest largest [] ps =
    Inr (filter (\<lambda>p. lowest \<le> pk_PacketNumber p \<and> pk_PacketNumber p \<le> largest) ps)"
  using assms
proof (induction ps)
  case (Cons p ps)
  define n where "n = pk_PacketNumber p"
  have later: "n < pk_PacketNumber q" if "q \<in> set ps" for q using Cons.prems that by (simp add: n_def)
  consider (low) "n < lowest" "\<not> lowest \<le> n" | (high) "\<not> n < lowest" "n > largest" "\<not> n \<le> largest"
    | (mid) "\<not> n < lowest" "lowest \<le> n" "n \<le> largest" "\<not> n > largest"
    by fastforce
  then show ?case
  proof cases
    case high
    moreover have "\<not> pk_PacketNumber q \<le> largest" if "q \<in> set ps" for q
      using later [OF that] high by simp
    ultimately show ?thesis by (auto simp: n_def filter_empty_conv)
  qed (use Cons in \<open>simp_all add: n_def\<close>)
qed simp

lemma newlyAckedLoop_acks:
  assumes "ack_wf largest lowest rs" "ascending ps"
  shows "newlyAckedLoop bug lowest largest (rev rs) ps =
    Inr (filter (\<lambda>p. acksPacket largest lowest rs (pk_PacketNumber p)) ps)"
proof (cases "rs = []")
  case True
  then show ?thesis using newlyAckedLoop_no_ranges [OF assms(2)] assms(1)
    by (simp add: acksPacket_iff acked_set_def)
next
  case False
  then have wf: "desc_ranges rs" "Last (hd rs) = largest" "First (last rs) = lowest"
    using assms(1) by (auto simp: ack_wf_def split: if_splits)
  have "lowest \<le> n \<and> n \<le> largest \<and> (\<exists>a\<in>set rs. First a \<le> n \<and> n \<le> Last a) \<longleftrightarrow>
      acksPacket largest lowest rs n" for n
    using False desc_ranges_hd [OF wf(1)] desc_ranges_last [OF wf(1)] wf(2,3)
    by (auto simp: acksPacket_iff [OF assms(1)] acked_set_def range_set_def) force+
  then show ?thesis
    using newlyAckedLoop_ranges [OF asc_ranges_rev [OF wf(1)] _ _ assms(2), of largest bug lowest] False wf(2)
    by (simp add: last_rev)
qed

section \<open>The invariant\<close>

definition tracked_ok :: "'s sentPacketHandler \<Rightarrow> bool" where
  "tracked_ok h \<longleftrightarrow>
     ascending (sph_packetHistory h) \<and>
     sph_bytesInFlight h = sum_list (map pk_Length (sph_packetHistory h)) \<and>
     (\<forall>p\<in>set (sph_packetHistory h). pk_PacketNumber p \<le> sph_lastSentPacketNumber h \<and>
        pk_Frames p \<noteq> [] \<and> list_all IsFrameRetransmittable (pk_Frames p))"

definition skipped_ok :: "'s sentPacketHandler \<Rightarrow> bool" where
  "skipped_ok h \<longleftrightarrow>
     length (sph_skippedPackets h) \<le> MaxTrackedSkippedPackets \<and> sorted_wrt (<) (sph_skippedPackets h) \<and>
     (\<forall>s\<in>set (sph_skippedPackets h). s < sph_lastSentPacketNumber h \<and>
        s \<notin> pk_PacketNumber ` set (sph_packetHistory h))"

definition sph_inv :: "'s sentPacketHandler \<Rightarrow> bool" where
  "sph_inv h \<longleftrightarrow> tracked_ok h \<and> skipped_ok h \<and> sph_LargestAcked h \<le> sph_lastSentPacketNumber h"

lemma tracked_distinct: "tracked_ok h \<Longrightarrow> distinct (sph_packetHistory h)"
  by (simp add: tracked_ok_def ascending_distinct)

text \<open>
  The operations that take one packet out of the history share a contract; \<open>requeue\<close> tells
  whether the packet goes to the retransmission queue.
\<close>

locale packet_removal =
  fixes rm :: "Packet \<Rightarrow> 's sentPacketHandler \<Rightarrow> 's sentPacketHandler"
    and requeue :: bool
  assumes rm_history: "sph_packetHistory (rm p h) = remove1 p (sph_packetHistory h)"
    and rm_bytes: "sph_bytesInFlight (rm p h) = sph_bytesInFlight h - pk_Length p"
    and rm_queue: "sph_retransmissionQueue (rm p h) = sph_retransmissionQueue h @ (if requeue then [p] else [])"
    and rm_last: "sph_lastSentPacketNumber (rm p h) = sph_lastSentPacketNumber h"
    and rm_skipped: "sph_skippedPackets (rm p h) = sph_skippedPackets h"
    and rm_largest: "sph_LargestAcked (rm p h) = sph_LargestAcked h"
    and rm_lossTime: "sph_lossTime (rm p h) = sph_lossTime h"
    and rm_sentTime: "sph_lastSentTime (rm p h) = sph_lastSentTime h"
    and rm_alarm: "sph_alarm (rm p h) = sph_alarm h"
begin

lemma fold_fields:
  "sph_retransmissionQueue (fold rm ps h) = sph_retransmissionQueue h @ (if requeue then ps else [])"
  "sph_lastSentPacketNumber (fold rm ps h) = sph_lastSentPacketNumber h"
  "sph_skippedPackets (fold rm ps h) = sph_skippedPackets h"
  "sph_LargestAcked (fold rm ps h) = sph_LargestAcked h"
  "sph_lossTime (fold rm ps h) = sph_lossTime h"
  "sph_lastSentTime (fold rm ps h) = sph_lastSentTime h"
  "sph_alarm (fold rm ps h) = sph_alarm h"
  by (induction ps arbitrary: h)
     (simp_all add: rm_queue rm_last rm_skipped rm_largest rm_lossTime rm_sentTime rm_alarm)

lemma fold_history:
  "distinct (sph_packetHistory h) \<Longrightarrow>
   sph_packetHistory (fold rm ps h) = filter (\<lambda>p. p \<notin> set ps) (sph_packetHistory h)"
proof (induction ps arbitrary: h)
  case (Cons q ps)
  have "sph_packetHistory (fold rm ps (rm q h)) = filter (\<lambda>p. p \<notin> set ps) (remove1 q (sph_packetHistory h))"
    using Cons by (simp add: rm_history)
  then show ?case
    using Cons.prems by (auto simp: distinct_remove1_removeAll removeAll_filter_not_eq intro: filter_cong)
qed simp

lemma tracked_rm: "tracked_ok h \<Longrightarrow> p \<in> set (sph_packetHistory h) \<Longrightarrow> tracked_ok (rm p h)"
  using sum_list_map_remove1 [of p "sph_packetHistory h" pk_Length]
  by (auto simp: tracked_ok_def rm_history rm_bytes rm_last ascending_distinct distinct_remove1_removeAll
      removeAll_filter_not_eq ascending_filter)

lemma tracked_fold:
  "tracked_ok h \<Longrightarrow> distinct ps \<Longrightarrow> set ps \<subseteq> set (sph_packetHistory h) \<Longrightarrow> tracked_ok (fold rm ps h)"
proof (induction ps arbitrary: h)
  case (Cons q ps)
  have "tracked_ok (rm q h)" using Cons.prems by (intro tracked_rm) auto
  moreover have "set ps \<subseteq> set (sph_packetHistory (rm q h))"
    using Cons.prems tracked_distinct [OF Cons.prems(1)] by (auto simp: rm_history)
  ultimately show ?case using Cons.IH [of "rm q h"] Cons.prems(2) by simp
qed simp

lemma skipped_fold:
  "distinct (sph_packetHistory h) \<Longrightarrow> skipped_ok h \<Longrightarrow> skipped_ok (fold rm ps h)"
  by (auto simp: skipped_ok_def fold_fields fold_history)

lemma inv_fold:
  "sph_inv h \<Longrightarrow> distinct ps \<Longrightarrow> set ps \<subseteq> set (sph_packetHistory h) \<Longrightarrow> sph_inv (fold rm ps h)"
  by (simp add: sph_inv_def tracked_fold skipped_fold fold_fields tracked_distinct)

lemma inv_rm: "sph_inv h \<Longrightarrow> p \<in> set (sph_packetHistory h) \<Longrightarrow> sph_inv (rm p h)"
  using inv_fold [of h "[p]"] by simp

text \<open>No packet disappears.\<close>

lemma mset_fold:
  assumes "distinct (sph_packetHistory h)" "distinct ps" "set ps \<subseteq> set (sph_packetHistory h)"
  shows "mset (sph_packetHistory h) = mset ps + mset (sph_packetHistory (fold rm ps h))"
proof -
  have "mset ps = mset (filter (\<lambda>p. p \<in> set ps) (sph_packetHistory h))"
    using assms by (intro set_eq_iff_mset_eq_distinct [THEN iffD1]) auto
  then show ?thesis
    using multiset_partition [of "mset (sph_packetHistory h)" "\<lambda>p. p \<in> set ps"]
    by (simp add: fold_history [OF assms(1)])
qed

end

interpretation acked: packet_removal "ackPacket alg now" False for alg :: "'s SendAlgorithm" and now
  by unfold_locales (simp_all add: ackPacket_def onPacketAcked_def Let_def)

interpretation lost: packet_removal "losePacket alg" True for alg :: "'s SendAlgorithm"
  by unfold_locales (simp_all add: losePacket_def queuePacketForRetransmission_def Let_def)

interpretation rto: packet_removal "queueRTO alg" True for alg :: "'s SendAlgorithm"
  by unfold_locales (simp_all add: queueRTO_def queuePacketForRetransmission_def Let_def)

interpretation probe: packet_removal queuePacketForRetransmission True
  by unfold_locales (simp_all add: queuePacketForRetransmission_def)

section \<open>The invariant is kept\<close>

lemma sph_inv_update [simp]:
  "sph_inv (h\<lparr>sph_alarm := a\<rparr>) = sph_inv h"
  "sph_inv (h\<lparr>sph_congestion := c\<rparr>) = sph_inv h"
  "sph_inv (h\<lparr>sph_rtoCount := n\<rparr>) = sph_inv h"
  "sph_inv (h\<lparr>sph_tlpCount := n\<rparr>) = sph_inv h"
  "sph_inv (h\<lparr>sph_lossTime := a\<rparr>) = sph_inv h"
  "sph_inv (h\<lparr>sph_losses := k\<rparr>) = sph_inv h"
  "sph_inv (h\<lparr>sph_retransmissions := k\<rparr>) = sph_inv h"
  "sph_inv (h\<lparr>sph_retransmissionQueue := q\<rparr>) = sph_inv h"
  "sph_inv (h\<lparr>sph_stopWaitingManager := m\<rparr>) = sph_inv h"
  "sph_inv (h\<lparr>sph_largestReceivedPacketWithAck := w\<rparr>) = sph_inv h"
  by (simp_all add: sph_inv_def tracked_ok_def skipped_ok_def)

lemma sph_inv_largest:
  "sph_inv h \<Longrightarrow> x \<le> sph_lastSentPacketNumber h \<Longrightarrow> sph_inv (h\<lparr>sph_LargestAcked := x\<rparr>)"
  by (simp add: sph_inv_def tracked_ok_def skipped_ok_def)

lemma updateLossDetectionAlarm_alarm: "\<exists>a. updateLossDetectionAlarm alg h = h\<lparr>sph_alarm := a\<rparr>"
  by (auto simp: updateLossDetectionAlarm_def)

lemma updateLossDetectionAlarm_sel [simp]:
  "sph_packetHistory (updateLossDetectionAlarm alg h) = sph_packetHistory h"
  "sph_retransmissionQueue (updateLossDetectionAlarm alg h) = sph_retransmissionQueue h"
  "sph_lastSentTime (updateLossDetectionAlarm alg h) = sph_lastSentTime h"
  "sph_lossTime (updateLossDetectionAlarm alg h) = sph_lossTime h"
  "sph_LargestAcked (updateLossDetectionAlarm alg h) = sph_LargestAcked h"
  "sph_lastSentPacketNumber (updateLossDetectionAlarm alg h) = sph_lastSentPacketNumber h"
  "sph_inv (updateLossDetectionAlarm alg h) = sph_inv h"
  using updateLossDetectionAlarm_alarm [of alg h] by auto

text \<open>Skipped packet numbers.\<close>

lemma skipLoop_props:
  assumes "length sk \<le> MaxTrackedSkippedPackets" "sorted_wrt (<) sk" "\<forall>s\<in>set sk. s < p"
  shows "length (skipLoop p n sk) \<le> MaxTrackedSkippedPackets" "sorted_wrt (<) (skipLoop p n sk)"
    "set (skipLoop p n sk) \<subseteq> set sk \<union> {p..<n}"
proof -
  have "length (skipLoop p n sk) \<le> MaxTrackedSkippedPackets \<and> sorted_wrt (<) (skipLoop p n sk) \<and>
      set (skipLoop p n sk) \<subseteq> set sk \<union> {p..<n}"
    using assms
  proof (induction p n sk rule: skipLoop.induct)
    case (1 p n sk)
    show ?case
    proof (cases "p < n")
      case True
      define sk' where "sk' = (if length (sk @ [p]) > MaxTrackedSkippedPackets then drop 1 (sk @ [p]) else sk @ [p])"
      have step: "skipLoop p n sk = skipLoop (p + 1) n sk'"
        using True by (subst skipLoop.simps) (simp add: sk'_def Let_def)
      have succ: "unat (p + 1) = unat p + 1"
        using True by (intro unat_succ_below [where y = n]) (simp add: unat_simps)
      have sub: "set sk' \<subseteq> set sk \<union> {p}" using set_drop_subset [of 1 "sk @ [p]"] by (auto simp: sk'_def)
      have "length sk' \<le> MaxTrackedSkippedPackets" using 1(2) by (auto simp: sk'_def)
      moreover have "sorted_wrt (<) (sk @ [p])" using 1(3,4) by (simp add: sorted_wrt_append)
      then have "sorted_wrt (<) sk'" unfolding sk'_def by (simp add: sorted_wrt_drop del: drop_append)
      moreover have "\<forall>s\<in>set sk'. s < p + 1" using sub 1(4) succ by (fastforce simp: unat_simps)
      ultimately have "length (skipLoop (p + 1) n sk') \<le> MaxTrackedSkippedPackets \<and>
          sorted_wrt (<) (skipLoop (p + 1) n sk') \<and> set (skipLoop (p + 1) n sk') \<subseteq> set sk' \<union> {p + 1..<n}"
        using 1(1) [OF True refl, folded sk'_def] by (simp add: sk'_def)
      moreover have "{p + 1..<n} \<subseteq> {p..<n}" using succ by (auto simp: unat_simps)
      ultimately show ?thesis using sub True unfolding step by fastforce
    qed (use 1 in \<open>simp add: skipLoop.simps\<close>)
  qed
  then show "length (skipLoop p n sk) \<le> MaxTrackedSkippedPackets" "sorted_wrt (<) (skipLoop p n sk)"
    "set (skipLoop p n sk) \<subseteq> set sk \<union> {p..<n}" by auto
qed

lemma trackSent_history:
  "sph_packetHistory (trackSent now p h) =
     sph_packetHistory h @ (if pk_Frames p \<noteq> [] then [p\<lparr>pk_SendTime := now\<rparr>] else [])"
  "sph_bytesInFlight (trackSent now p h) =
     sph_bytesInFlight h + (if pk_Frames p \<noteq> [] then pk_Length p else 0)"
  by (simp_all add: trackSent_def Let_def)

lemma trackSent_sel [simp]:
  "sph_retransmissionQueue (trackSent now p h) = sph_retransmissionQueue h"
  "sph_lastSentPacketNumber (trackSent now p h) = sph_lastSentPacketNumber h"
  "sph_skippedPackets (trackSent now p h) = sph_skippedPackets h"
  "sph_LargestAcked (trackSent now p h) = sph_LargestAcked h"
  "sph_lossTime (trackSent now p h) = sph_lossTime h"
  "sph_lastSentTime (trackSent now p h) = sph_lastSentTime h"
  "sph_alarm (trackSent now p h) = sph_alarm h"
  by (simp_all add: trackSent_def Let_def)

lemma ascending_snoc: "ascending (ps @ [p]) \<longleftrightarrow> ascending ps \<and> (\<forall>q\<in>set ps. pk_PacketNumber q < pk_PacketNumber p)"
  by (auto simp: ascending_def sorted_wrt_append)

lemma sph_inv_SentPacket:
  assumes "sph_inv h" "sph_SentPacket alg now p h = Inr h'"
  shows "sph_inv h'"
proof -
  define n where "n = pk_PacketNumber p"
  define h1 where "h1 = h\<lparr>sph_skippedPackets := skipLoop (sph_lastSentPacketNumber h + 1) n (sph_skippedPackets h),
     sph_lastSentPacketNumber := n, sph_packets := sph_packets h + 1, sph_lastSentTime := now\<rparr>"
  define h2 where "h2 = trackSent now (p\<lparr>pk_Frames := stripNonRetransmittableFrames (pk_Frames p)\<rparr>) h1"
  have n: "sph_lastSentPacketNumber h < n" and h': "sph_inv h' = sph_inv h2"
    using assms(2) by (auto simp: sph_SentPacket_def Let_def n_def h1_def h2_def split: if_splits)
  have succ: "unat (sph_lastSentPacketNumber h + 1) = unat (sph_lastSentPacketNumber h) + 1"
    using n by (intro unat_succ_below [where y = n]) (simp add: unat_simps)
  have hist: "pk_PacketNumber q < n" if "q \<in> set (sph_packetHistory h)" for q
    using assms(1) n that by (auto simp: sph_inv_def tracked_ok_def intro: le_less_trans)
  have "\<forall>s\<in>set (sph_skippedPackets h). s < sph_lastSentPacketNumber h + 1"
    using assms(1) succ by (fastforce simp: sph_inv_def skipped_ok_def unat_simps)
  note skip = skipLoop_props [OF _ _ this, of n]
  have tracked: "tracked_ok h2"
    using assms(1) n hist
    by (auto simp: h2_def h1_def sph_inv_def tracked_ok_def trackSent_history ascending_snoc list_all_iff
        stripNonRetransmittableFrames_filter n_def [symmetric] intro: less_imp_le)
  have "\<forall>s\<in>{sph_lastSentPacketNumber h + 1..<n}. s < n \<and> s \<notin> pk_PacketNumber ` set (sph_packetHistory h)"
    using assms(1) succ by (fastforce simp: sph_inv_def tracked_ok_def unat_simps)
  moreover have "\<forall>s\<in>set (sph_skippedPackets h). s < n \<and> s \<notin> pk_PacketNumber ` set (sph_packetHistory h)"
    using assms(1) n by (auto simp: sph_inv_def skipped_ok_def intro: less_trans)
  ultimately have "\<forall>s\<in>set (skipLoop (sph_lastSentPacketNumber h + 1) n (sph_skippedPackets h)).
      s < n \<and> s \<notin> pk_PacketNumber ` set (sph_packetHistory h)"
    using skip(3) assms(1) by (auto simp: sph_inv_def skipped_ok_def)
  then have "skipped_ok h2"
    using assms(1) skip(1,2) by (auto simp: skipped_ok_def h2_def h1_def trackSent_history sph_inv_def n_def)
  moreover have "sph_LargestAcked h2 \<le> sph_lastSentPacketNumber h2"
    using assms(1) n by (auto simp: h2_def h1_def sph_inv_def intro: order_trans less_imp_le)
  ultimately show ?thesis using tracked h' by (simp add: sph_inv_def)
qed

text \<open>Losses.\<close>

lemma lostLoop_lost:
  "ascending ps \<Longrightarrow> fst (lostLoop now d la t ps) =
     filter (\<lambda>p. pk_PacketNumber p \<le> la \<and> d < time_Sub now (pk_SendTime p)) ps"
proof (induction ps arbitrary: t)
  case (Cons p ps)
  show ?case
  proof (cases "pk_PacketNumber p > la")
    case True
    then have "\<not> pk_PacketNumber q \<le> la" if "q \<in> set (p # ps)" for q
      using Cons.prems that by (auto dest: less_trans)
    then show ?thesis using True by (simp add: filter_empty_conv)
  next
    case False
    then show ?thesis using Cons by (auto simp: Let_def split: prod.splits) (metis fst_conv)+
  qed
qed simp

lemma detectLostPackets_spec:
  fixes alg :: "'s SendAlgorithm" and now :: gotime
  assumes "sph_inv h"
  defines "d \<equiv> delayUntilLost (sa_rttStats alg (sph_congestion h))"
  defines "lost \<equiv> filter (\<lambda>p. pk_PacketNumber p \<le> sph_LargestAcked h \<and> d < time_Sub now (pk_SendTime p))
                   (sph_packetHistory h)"
  shows "sph_inv (detectLostPackets alg now h)"
    "sph_retransmissionQueue (detectLostPackets alg now h) = sph_retransmissionQueue h @ lost"
    "sph_packetHistory (detectLostPackets alg now h) = filter (\<lambda>p. p \<notin> set lost) (sph_packetHistory h)"
    "sph_lastSentTime (detectLostPackets alg now h) = sph_lastSentTime h"
    "sph_lastSentPacketNumber (detectLostPackets alg now h) = sph_lastSentPacketNumber h"
    "sph_lossTime (detectLostPackets alg now h) =
       snd (lostLoop now d (sph_LargestAcked h) 0 (sph_packetHistory h))"
proof -
  have asc: "ascending (sph_packetHistory h)" using assms(1) by (simp add: sph_inv_def tracked_ok_def)
  obtain t where t: "lostLoop now d (sph_LargestAcked h) 0 (sph_packetHistory h) = (lost, t)"
    using lostLoop_lost [OF asc, of now d "sph_LargestAcked h" 0]
    unfolding lost_def by (metis prod.collapse)
  define h1 where "h1 = h\<lparr>sph_lossTime := t, sph_losses := sph_losses h + of_nat (length lost)\<rparr>"
  have eq: "detectLostPackets alg now h = fold (losePacket alg) lost h1"
    by (simp add: detectLostPackets_def d_def [symmetric] t h1_def)
  have h1: "sph_inv h1" "sph_packetHistory h1 = sph_packetHistory h" "sph_retransmissionQueue h1 = sph_retransmissionQueue h"
    "sph_lastSentTime h1 = sph_lastSentTime h" "sph_lossTime h1 = t" "sph_lastSentPacketNumber h1 = sph_lastSentPacketNumber h"
    using assms(1) by (simp_all add: h1_def)
  have "distinct lost" "set lost \<subseteq> set (sph_packetHistory h1)"
    using ascending_distinct [OF asc] h1(2) by (auto simp: lost_def)
  then show "sph_inv (detectLostPackets alg now h)" using h1(1) by (simp add: eq lost.inv_fold)
  show "sph_packetHistory (detectLostPackets alg now h) = filter (\<lambda>p. p \<notin> set lost) (sph_packetHistory h)"
    using h1(2) ascending_distinct [OF asc] by (simp add: eq lost.fold_history)
  show "sph_retransmissionQueue (detectLostPackets alg now h) = sph_retransmissionQueue h @ lost"
    "sph_lastSentTime (detectLostPackets alg now h) = sph_lastSentTime h"
    "sph_lastSentPacketNumber (detectLostPackets alg now h) = sph_lastSentPacketNumber h"
    "sph_lossTime (detectLostPackets alg now h) =
       snd (lostLoop now d (sph_LargestAcked h) 0 (sph_packetHistory h))"
    using h1 by (simp_all add: eq lost.fold_fields t)
qed

lemma takeWhile_ascending:
  "ascending ps \<Longrightarrow> takeWhile (\<lambda>p. \<not> pk_PacketNumber p > la) ps = filter (\<lambda>p. pk_PacketNumber p \<le> la) ps"
proof (induction ps)
  case (Cons p ps)
  show ?case
  proof (cases "pk_PacketNumber p > la")
    case True
    then have "\<not> pk_PacketNumber q \<le> la" if "q \<in> set (p # ps)" for q
      using Cons.prems that by (auto dest: less_trans)
    then have "filter (\<lambda>p. pk_PacketNumber p \<le> la) (p # ps) = []" by (simp only: filter_empty_conv) blast
    then show ?thesis using True by simp
  qed (use Cons in auto)
qed simp

lemma SetInflightAsLost_spec:
  assumes "sph_inv h"
  defines "lost \<equiv> filter (\<lambda>p. pk_PacketNumber p \<le> sph_LargestAcked h) (sph_packetHistory h)"
  shows "sph_inv (sph_SetInflightAsLost alg h)"
    "sph_retransmissionQueue (sph_SetInflightAsLost alg h) = sph_retransmissionQueue h @ lost"
    "sph_packetHistory (sph_SetInflightAsLost alg h) = filter (\<lambda>p. p \<notin> set lost) (sph_packetHistory h)"
    "sph_alarm (sph_SetInflightAsLost alg h) = sph_alarm h"
    "sph_lossTime (sph_SetInflightAsLost alg h) = sph_lossTime h"
    "sph_lastSentTime (sph_SetInflightAsLost alg h) = sph_lastSentTime h"
proof -
  have asc: "ascending (sph_packetHistory h)" using assms(1) by (simp add: sph_inv_def tracked_ok_def)
  define h1 where "h1 = h\<lparr>sph_losses := sph_losses h + of_nat (length lost)\<rparr>"
  have eq: "sph_SetInflightAsLost alg h = fold (losePacket alg) lost h1"
    by (simp add: sph_SetInflightAsLost_def takeWhile_ascending [OF asc] lost_def [symmetric] h1_def Let_def)
  have h1: "sph_inv h1" "sph_packetHistory h1 = sph_packetHistory h" using assms(1) by (simp_all add: h1_def)
  have "distinct lost" "set lost \<subseteq> set (sph_packetHistory h1)"
    using ascending_distinct [OF asc] h1(2) by (auto simp: lost_def)
  then show "sph_inv (sph_SetInflightAsLost alg h)" using h1(1) by (simp add: eq lost.inv_fold)
  show "sph_packetHistory (sph_SetInflightAsLost alg h) = filter (\<lambda>p. p \<notin> set lost) (sph_packetHistory h)"
    using h1(2) ascending_distinct [OF asc] by (simp add: eq lost.fold_history)
  show "sph_retransmissionQueue (sph_SetInflightAsLost alg h) = sph_retransmissionQueue h @ lost"
    "sph_alarm (sph_SetInflightAsLost alg h) = sph_alarm h"
    "sph_lossTime (sph_SetInflightAsLost alg h) = sph_lossTime h"
    "sph_lastSentTime (sph_SetInflightAsLost alg h) = sph_lastSentTime h"
    by (simp_all add: eq lost.fold_fields h1_def)
qed

lemma garbageCollect_sel [simp]:
  "sph_packetHistory (garbageCollectSkippedPackets h) = sph_packetHistory h"
  "sph_retransmissionQueue (garbageCollectSkippedPackets h) = sph_retransmissionQueue h"
  "sph_lastSentTime (garbageCollectSkippedPackets h) = sph_lastSentTime h"
  "sph_lossTime (garbageCollectSkippedPackets h) = sph_lossTime h"
  "sph_alarm (garbageCollectSkippedPackets h) = sph_alarm h"
  "sph_inv h \<Longrightarrow> sph_inv (garbageCollectSkippedPackets h)"
  by (auto simp: garbageCollectSkippedPackets_def sph_inv_def tracked_ok_def skipped_ok_def sorted_wrt_drop
      dest: in_set_dropD)

lemma retransmitAllLoop_fold: "retransmitAllLoop alg h = fold (queueRTO alg) (sph_packetHistory h) h"
proof (induction alg h rule: retransmitAllLoop.induct)
  case (1 alg h)
  show ?case
  proof (cases "sph_packetHistory h")
    case (Cons p ps)
    have "sph_packetHistory (queueRTO alg p h) = ps" using Cons by (simp add: rto.rm_history)
    then show ?thesis using 1 [OF Cons] Cons by (subst retransmitAllLoop.simps) simp
  qed (simp add: retransmitAllLoop.simps)
qed

text \<open>Acknowledgements.\<close>

lemma sampleRTT_sel [simp]:
  "sph_packetHistory (sampleRTT alg a r now h) = sph_packetHistory h"
  "sph_retransmissionQueue (sampleRTT alg a r now h) = sph_retransmissionQueue h"
  "sph_LargestAcked (sampleRTT alg a r now h) = sph_LargestAcked h"
  "sph_lastSentPacketNumber (sampleRTT alg a r now h) = sph_lastSentPacketNumber h"
  "sph_lastSentTime (sampleRTT alg a r now h) = sph_lastSentTime h"
  "sph_alarm (sampleRTT alg a r now h) = sph_alarm h"
  "sph_lossTime (sampleRTT alg a r now h) = sph_lossTime h"
  "sph_inv (sampleRTT alg a r now h) = sph_inv h"
  by (auto simp: sampleRTT_def maybeUpdateRTT_def split: option.splits prod.splits)

lemma processAcked_spec:
  fixes P :: "Packet \<Rightarrow> bool"
  assumes "sph_inv h"
  defines "ackd \<equiv> filter P (sph_packetHistory h)"
  shows "sph_inv (processAcked alg now ackd h)"
    "sph_packetHistory (processAcked alg now ackd h) = filter (\<lambda>p. \<not> P p) (sph_packetHistory h)"
    "sph_retransmissionQueue (processAcked alg now ackd h) = sph_retransmissionQueue h"
    "sph_LargestAcked (processAcked alg now ackd h) = sph_LargestAcked h"
    "sph_alarm (processAcked alg now ackd h) = sph_alarm h"
    "sph_lossTime (processAcked alg now ackd h) = sph_lossTime h"
    "sph_lastSentTime (processAcked alg now ackd h) = sph_lastSentTime h"
proof -
  have d: "distinct (sph_packetHistory h)" using assms(1) by (simp add: sph_inv_def tracked_distinct)
  then show "sph_inv (processAcked alg now ackd h)"
    unfolding processAcked_def using assms(1) by (intro acked.inv_fold) (auto simp: ackd_def)
  show "sph_packetHistory (processAcked alg now ackd h) = filter (\<lambda>p. \<not> P p) (sph_packetHistory h)"
    unfolding processAcked_def using d by (auto simp: acked.fold_history ackd_def intro: filter_cong)
  show "sph_retransmissionQueue (processAcked alg now ackd h) = sph_retransmissionQueue h"
    "sph_LargestAcked (processAcked alg now ackd h) = sph_LargestAcked h"
    "sph_alarm (processAcked alg now ackd h) = sph_alarm h"
    "sph_lossTime (processAcked alg now ackd h) = sph_lossTime h"
    "sph_lastSentTime (processAcked alg now ackd h) = sph_lastSentTime h"
    by (simp_all add: processAcked_def acked.fold_fields)
qed

text \<open>An ACK is processed when it passes the checks at the start of \<^verbatim>\<open>ReceivedAck\<close>.\<close>

definition ack_effective :: "AckFrame \<Rightarrow> PacketNumber \<Rightarrow> 's sentPacketHandler \<Rightarrow> bool" where
  "ack_effective ackFrame withPacketNumber h \<longleftrightarrow>
     af_LargestAcked ackFrame \<le> sph_lastSentPacketNumber h \<and>
     withPacketNumber > sph_largestReceivedPacketWithAck h \<and>
     af_LargestAcked ackFrame > largestInOrderAcked h \<and>
     \<not> skippedPacketsAcked ackFrame h"

definition af_wf :: "AckFrame \<Rightarrow> bool" where
  "af_wf f \<longleftrightarrow> ack_wf (af_LargestAcked f) (af_LowestAcked f) (af_AckRanges f)"

lemma largestInOrderAcked_update [simp]:
  "largestInOrderAcked (h\<lparr>sph_largestReceivedPacketWithAck := w\<rparr>) = largestInOrderAcked h"
  by (simp add: largestInOrderAcked_def split: list.splits)

lemma skippedPacketsAcked_update [simp]:
  "skippedPacketsAcked a (h\<lparr>sph_largestReceivedPacketWithAck := w\<rparr>) = skippedPacketsAcked a h"
  "skippedPacketsAcked a (h\<lparr>sph_LargestAcked := w\<rparr>) = skippedPacketsAcked a h"
  by (simp_all add: skippedPacketsAcked_def)

lemma determineNewlyAckedPackets_filter:
  assumes "sph_inv h" "af_wf a"
  shows "determineNewlyAckedPackets a h =
    Inr (filter (\<lambda>p. af_AcksPacket a (pk_PacketNumber p)) (sph_packetHistory h))"
  using assms newlyAckedLoop_acks
  by (simp add: determineNewlyAckedPackets_def sph_inv_def tracked_ok_def af_wf_def af_AcksPacket_def)

lemma finishAck_spec:
  assumes "sph_inv h"
  shows "sph_inv (finishAck alg now a h)"
    "\<exists>L. sph_retransmissionQueue (finishAck alg now a h) = sph_retransmissionQueue h @ L \<and>
       sph_packetHistory (finishAck alg now a h) = filter (\<lambda>p. p \<notin> set L) (sph_packetHistory h) \<and>
       L = filter (\<lambda>p. p \<in> set L) (sph_packetHistory h) \<and>
       (\<forall>p\<in>set L. pk_PacketNumber p \<le> sph_LargestAcked h)"
  using detectLostPackets_spec [OF assms, of alg now]
  by (auto simp: finishAck_def Let_def intro!: exI filter_cong)

lemma af_wf_acks_largest: "af_wf a \<Longrightarrow> af_AcksPacket a (af_LargestAcked a)"
  unfolding af_wf_def af_AcksPacket_def
  using desc_ranges_nonempty [of "af_AckRanges a" "hd (af_AckRanges a)"]
  by (auto simp: acksPacket_iff acked_set_def range_set_def ack_wf_def split: if_splits
      intro!: bexI [of _ "hd (af_AckRanges a)"])

lemma ReceivedAck_eq:
  fixes alg :: "'s SendAlgorithm" and rcvTime now :: gotime
  assumes "sph_inv h" "af_wf a" "ack_effective a wpn h"
  defines "h1 \<equiv> sampleRTT alg a rcvTime now
     (h\<lparr>sph_largestReceivedPacketWithAck := wpn, sph_LargestAcked := af_LargestAcked a\<rparr>)"
  shows "sph_inv h1" "sph_ReceivedAck alg a wpn rcvTime now h = (None, finishAck alg now a (processAcked alg now
      (filter (\<lambda>p. af_AcksPacket a (pk_PacketNumber p)) (sph_packetHistory h1)) h1))"
proof -
  show inv1: "sph_inv h1" using assms(1,3) by (auto simp: h1_def ack_effective_def intro!: sph_inv_largest)
  have "\<not> af_LargestAcked a > sph_lastSentPacketNumber h" "\<not> wpn \<le> sph_largestReceivedPacketWithAck h"
    "\<not> af_LargestAcked a \<le> largestInOrderAcked h" "\<not> skippedPacketsAcked a h"
    using assms(3) by (auto simp: ack_effective_def)
  then show "sph_ReceivedAck alg a wpn rcvTime now h = (None, finishAck alg now a (processAcked alg now
      (filter (\<lambda>p. af_AcksPacket a (pk_PacketNumber p)) (sph_packetHistory h1)) h1))"
    using determineNewlyAckedPackets_filter [OF inv1 assms(2)]
    by (simp add: sph_ReceivedAck_def Let_def h1_def [symmetric])
qed

lemma ReceivedAck_effective:
  assumes "sph_inv h" "af_wf a" "ack_effective a wpn h"
    and "sph_ReceivedAck alg a wpn rcvTime now h = (err, h')"
  shows "err = None \<and> sph_inv h' \<and>
    (\<exists>L. sph_retransmissionQueue h' = sph_retransmissionQueue h @ L \<and>
       L = filter (\<lambda>p. p \<in> set L) (sph_packetHistory h) \<and>
       (\<forall>p\<in>set L. \<not> af_AcksPacket a (pk_PacketNumber p) \<and> pk_PacketNumber p < af_LargestAcked a) \<and>
       sph_packetHistory h' =
         filter (\<lambda>p. \<not> af_AcksPacket a (pk_PacketNumber p) \<and> p \<notin> set L) (sph_packetHistory h))"
proof -
  define h1 where "h1 = sampleRTT alg a rcvTime now
     (h\<lparr>sph_largestReceivedPacketWithAck := wpn, sph_LargestAcked := af_LargestAcked a\<rparr>)"
  note ack = ReceivedAck_eq [OF assms(1-3), of alg rcvTime now, folded h1_def]
  have hist1: "sph_packetHistory h1 = sph_packetHistory h" "sph_LargestAcked h1 = af_LargestAcked a"
    "sph_retransmissionQueue h1 = sph_retransmissionQueue h" by (simp_all add: h1_def)
  define h2 where "h2 = processAcked alg now (filter (\<lambda>p. af_AcksPacket a (pk_PacketNumber p)) (sph_packetHistory h1)) h1"
  note p = processAcked_spec [OF ack(1), of alg now "\<lambda>p. af_AcksPacket a (pk_PacketNumber p)", folded h2_def]
  have eq: "err = None" "h' = finishAck alg now a h2" using ack(2) assms(4) by (simp_all add: h2_def)
  obtain L where L: "sph_retransmissionQueue h' = sph_retransmissionQueue h @ L"
      "sph_packetHistory h' = filter (\<lambda>p. p \<notin> set L) (sph_packetHistory h2)"
      "L = filter (\<lambda>p. p \<in> set L) (sph_packetHistory h2)" "\<forall>p\<in>set L. pk_PacketNumber p \<le> af_LargestAcked a"
    using finishAck_spec(2) [OF p(1), of alg now a] p(3,4) hist1 eq(2) by auto
  have in2: "p \<in> set (sph_packetHistory h2)" if "p \<in> set L" for p using L(3) that by (metis filter_is_subset subsetD)
  then have nack: "\<not> af_AcksPacket a (pk_PacketNumber p)" if "p \<in> set L" for p using that p(2) by auto
  then have "pk_PacketNumber p < af_LargestAcked a" if "p \<in> set L" for p
    using that L(4) af_wf_acks_largest [OF assms(2)] by (metis order_le_imp_less_or_eq)
  moreover have "filter (\<lambda>p. p \<in> set L) (sph_packetHistory h2) = filter (\<lambda>p. p \<in> set L) (sph_packetHistory h)"
    using nack by (auto simp: p(2) hist1 intro: filter_cong)
  ultimately show ?thesis
    using L nack finishAck_spec(1) [OF p(1), of alg now a] eq p(2) hist1(1) by (auto intro!: exI [of _ L] filter_cong)
qed

lemma ReceivedAck_ineffective:
  assumes "sph_inv h" "\<not> ack_effective a wpn h" "sph_ReceivedAck alg a wpn rcvTime now h = (err, h')"
  shows "sph_inv h' \<and> sph_packetHistory h' = sph_packetHistory h \<and>
    sph_retransmissionQueue h' = sph_retransmissionQueue h \<and> sph_alarm h' = sph_alarm h"
  using assms
  by (auto simp: sph_ReceivedAck_def ack_effective_def Let_def not_less not_le intro: sph_inv_largest
      split: if_splits)

end
