(* ===== verification/Sent_Runs.thy ===== *)
theory Sent_Runs
imports Sent_Handler
begin

text \<open>
  Runs of the sent packet handler and what holds in all of them: no packet is forgotten, the
  bytes in flight are exact, and an alarm is set while something is outstanding.
\<close>

section \<open>Closing a path and timeouts\<close>

definition cpf_wf :: "ClosePathFrame \<Rightarrow> bool" where
  "cpf_wf f \<longleftrightarrow> ack_wf (cpf_LargestAcked f) (cpf_LowestAcked f) (cpf_AckRanges f)"

definition close_effective :: "ClosePathFrame \<Rightarrow> PacketNumber \<Rightarrow> 's sentPacketHandler \<Rightarrow> bool" where
  "close_effective f withPacketNumber h \<longleftrightarrow>
     cpf_LargestAcked f \<le> sph_lastSentPacketNumber h \<and>
     withPacketNumber > sph_largestReceivedPacketWithAck h \<and> \<not> skippedPacketsAckedClosePath f h"

lemma ReceivedClosePath_eq:
  assumes "sph_inv h" "cpf_wf f" "close_effective f wpn h"
  defines "h1 \<equiv> h\<lparr>sph_largestReceivedPacketWithAck := wpn\<rparr>"
  shows "sph_ReceivedClosePath alg f wpn rcvTime now h =
    (None, garbageCollectSkippedPackets (sph_SetInflightAsLost alg (processAcked alg now
       (filter (\<lambda>p. cpf_AcksPacket f (pk_PacketNumber p)) (sph_packetHistory h)) h1)))"
proof -
  have "determineNewlyAckedPacketsClosePath f h1 =
      Inr (filter (\<lambda>p. cpf_AcksPacket f (pk_PacketNumber p)) (sph_packetHistory h))"
    using assms(1,2) newlyAckedLoop_acks
    by (simp add: determineNewlyAckedPacketsClosePath_def sph_inv_def tracked_ok_def cpf_wf_def cpf_AcksPacket_def h1_def)
  moreover have "\<not> cpf_LargestAcked f > sph_lastSentPacketNumber h" "\<not> wpn \<le> sph_largestReceivedPacketWithAck h"
    "\<not> skippedPacketsAckedClosePath f h1"
    using assms(3) by (auto simp: close_effective_def h1_def skippedPacketsAckedClosePath_def)
  ultimately show ?thesis by (simp add: sph_ReceivedClosePath_def Let_def h1_def [symmetric])
qed

lemma ReceivedClosePath_effective:
  assumes "sph_inv h" "cpf_wf f" "close_effective f wpn h"
    and "sph_ReceivedClosePath alg f wpn rcvTime now h = (err, h')"
  defines "rest \<equiv> filter (\<lambda>p. \<not> cpf_AcksPacket f (pk_PacketNumber p)) (sph_packetHistory h)"
  shows "err = None" "sph_inv h'" "sph_alarm h' = sph_alarm h" "sph_lossTime h' = sph_lossTime h"
    "sph_lastSentTime h' = sph_lastSentTime h"
    "sph_retransmissionQueue h' =
       sph_retransmissionQueue h @ filter (\<lambda>p. pk_PacketNumber p \<le> sph_LargestAcked h) rest"
    "sph_packetHistory h' = filter (\<lambda>p. \<not> pk_PacketNumber p \<le> sph_LargestAcked h) rest"
proof -
  define h1 where "h1 = h\<lparr>sph_largestReceivedPacketWithAck := wpn\<rparr>"
  have inv1: "sph_inv h1" using assms(1) by (simp add: h1_def)
  define h2 where "h2 = processAcked alg now (filter (\<lambda>p. cpf_AcksPacket f (pk_PacketNumber p)) (sph_packetHistory h1)) h1"
  note p = processAcked_spec [OF inv1, of alg now "\<lambda>p. cpf_AcksPacket f (pk_PacketNumber p)", folded h2_def]
  note l = SetInflightAsLost_spec [OF p(1), of alg]
  have "sph_packetHistory h1 = sph_packetHistory h" by (simp add: h1_def)
  then have "sph_ReceivedClosePath alg f wpn rcvTime now h =
      (None, garbageCollectSkippedPackets (sph_SetInflightAsLost alg h2))"
    using ReceivedClosePath_eq [OF assms(1-3), of alg rcvTime now, folded h1_def] by (simp add: h2_def)
  then have eq: "err = None" "h' = garbageCollectSkippedPackets (sph_SetInflightAsLost alg h2)"
    using assms(4) by simp_all
  have h: "sph_packetHistory h1 = sph_packetHistory h" "sph_LargestAcked h1 = sph_LargestAcked h"
    "sph_retransmissionQueue h1 = sph_retransmissionQueue h" "sph_alarm h1 = sph_alarm h"
    "sph_lossTime h1 = sph_lossTime h" "sph_lastSentTime h1 = sph_lastSentTime h"
    by (simp_all add: h1_def)
  show "err = None" "sph_inv h'" "sph_alarm h' = sph_alarm h" "sph_lossTime h' = sph_lossTime h"
    "sph_lastSentTime h' = sph_lastSentTime h"
    using eq l p h by simp_all
  show "sph_retransmissionQueue h' =
       sph_retransmissionQueue h @ filter (\<lambda>p. pk_PacketNumber p \<le> sph_LargestAcked h) rest"
    using eq l(2) p(2,3,4) h by (simp add: rest_def)
  show "sph_packetHistory h' = filter (\<lambda>p. \<not> pk_PacketNumber p \<le> sph_LargestAcked h) rest"
    using eq l(3) p(2,4) h by (auto simp: rest_def intro: filter_cong)
qed

lemma ReceivedClosePath_ineffective:
  assumes "sph_inv h" "\<not> close_effective f wpn h" "sph_ReceivedClosePath alg f wpn rcvTime now h = (err, h')"
  shows "sph_inv h' \<and> sph_packetHistory h' = sph_packetHistory h \<and>
    sph_retransmissionQueue h' = sph_retransmissionQueue h \<and> sph_alarm h' = sph_alarm h \<and>
    sph_lossTime h' = sph_lossTime h \<and> sph_lastSentTime h' = sph_lastSentTime h"
  using assms
  by (auto simp: sph_ReceivedClosePath_def close_effective_def skippedPacketsAckedClosePath_def Let_def
      not_less not_le split: if_splits)

text \<open>A timeout moves packets from the history to the queue.\<close>

definition moved :: "Packet list \<Rightarrow> 's sentPacketHandler \<Rightarrow> 's sentPacketHandler \<Rightarrow> bool" where
  "moved ps h h' \<longleftrightarrow> sph_inv h' \<and> sph_retransmissionQueue h' = sph_retransmissionQueue h @ ps \<and>
     mset (sph_packetHistory h) = mset ps + mset (sph_packetHistory h') \<and>
     sph_lastSentTime h' = sph_lastSentTime h \<and> sph_lossTime h' = sph_lossTime h"

lemma moved_refl: "sph_inv h \<Longrightarrow> moved [] h h"
  by (simp add: moved_def)

lemma moved_trans: "moved ps h h' \<Longrightarrow> moved qs h' h'' \<Longrightarrow> moved (ps @ qs) h h''"
  by (auto simp: moved_def)

lemma moved_update [simp]:
  "moved ps h (h'\<lparr>sph_rtoCount := n\<rparr>) = moved ps h h'"
  "moved ps h (h'\<lparr>sph_tlpCount := n\<rparr>) = moved ps h h'"
  "moved ps h (h'\<lparr>sph_congestion := c\<rparr>) = moved ps h h'"
  by (simp_all add: moved_def)

lemma moved_queueRTO:
  assumes "sph_inv h" "p \<in> set (sph_packetHistory h)"
  shows "moved [p] h (queueRTO alg p h)"
  using assms rto.inv_rm [OF assms, of alg]
  by (simp add: moved_def rto.rm_queue rto.rm_history rto.rm_sentTime rto.rm_lossTime)

lemma moved_all:
  assumes "sph_inv h"
  shows "moved (sph_packetHistory h) h (retransmitAllPackets alg h)"
proof -
  have d: "distinct (sph_packetHistory h)" using assms by (simp add: sph_inv_def tracked_distinct)
  then show ?thesis
    using assms rto.inv_fold [OF assms d] 
    by (simp add: retransmitAllPackets_def onRetransmissionTimeout_def retransmitAllLoop_fold moved_def
        rto.fold_fields rto.fold_history)
qed

lemma moved_oldest:
  assumes "sph_inv h"
  shows "moved (take 1 (sph_packetHistory h)) h (retransmitOldestPacket alg h)"
  using assms moved_queueRTO [OF assms]
  by (cases "sph_packetHistory h") (simp_all add: retransmitOldestPacket_def moved_refl)

lemma oldest_history: "sph_packetHistory (retransmitOldestPacket alg h) = drop 1 (sph_packetHistory h)"
  by (cases "sph_packetHistory h") (simp_all add: retransmitOldestPacket_def rto.rm_history)

lemma moved_oldest_two:
  assumes "sph_inv h"
  shows "moved (take 2 (sph_packetHistory h)) h (retransmitOldestTwoPackets alg h)"
proof -
  note first = moved_oldest [OF assms, of alg]
  then have "sph_inv (retransmitOldestPacket alg h)" by (simp add: moved_def)
  note moved_trans [OF first moved_oldest [OF this, of alg, unfolded oldest_history]]
  moreover have "take 1 xs @ take 1 (drop 1 xs) = take 2 xs" for xs :: "Packet list"
    by (cases xs; cases "tl xs") (auto simp: numeral_2_eq_2)
  ultimately show ?thesis by (simp add: retransmitOldestTwoPackets_def onRetransmissionTimeout_def)
qed

lemma moved_TLP:
  assumes "sph_inv h" "sph_packetHistory h \<noteq> []"
  shows "moved [last (sph_packetHistory h)] h (retransmitTLP h)"
  using assms probe.inv_rm [OF assms(1)]
  by (simp add: retransmitTLP_def moved_def probe.rm_queue probe.rm_history probe.rm_sentTime probe.rm_lossTime)

lemma moved_RTO:
  assumes "sph_inv h" "handleRTO alg cb h w = (h', w')"
  shows "\<exists>ps. moved ps h h' \<and> (sph_packetHistory h \<noteq> [] \<longrightarrow> ps \<noteq> [])"
  using assms moved_all [OF assms(1), of alg] moved_oldest_two [OF assms(1), of alg]
  by (auto simp: handleRTO_def Let_def split: option.splits prod.splits if_splits)

section \<open>Runs\<close>

text \<open>
  The ghost state of a run collects the tracked packets that were sent, those that were
  acknowledged, those handed out for retransmission, and those queued by \<^verbatim>\<open>DuplicatePacket\<close>.
  The congestion controller starts in a state of \<open>init\<close>; between the operations it and the world of the callback
  change as \<open>env\<close> allows. The clock shows a time later than 292 years after the zero time of Go, which is the year 1.
\<close>

record ghost =
  g_sent :: "Packet multiset"
  g_acked :: "Packet multiset"
  g_out :: "Packet multiset"
  g_dup :: "Packet multiset"

definition real_clock :: "gotime \<Rightarrow> bool" where
  "real_clock now \<longleftrightarrow> 2 ^ 63 < now"

definition trackedPacket :: "gotime \<Rightarrow> Packet \<Rightarrow> Packet multiset" where
  "trackedPacket now p =
     (let fs = stripNonRetransmittableFrames (pk_Frames p)
      in if fs = [] then {#} else {#p\<lparr>pk_Frames := fs, pk_SendTime := now\<rparr>#})"

inductive sph_run ::
    "'s SendAlgorithm \<Rightarrow> (gotime \<Rightarrow> 'w \<Rightarrow> bool \<times> 'w) option \<Rightarrow> ('s \<Rightarrow> bool) \<Rightarrow> ('s \<Rightarrow> 's \<Rightarrow> bool) \<Rightarrow>
     's sentPacketHandler \<Rightarrow> 'w \<Rightarrow> ghost \<Rightarrow> bool"
  for alg cb init env where
  start: "init c \<Longrightarrow> sph_run alg cb init env (NewSentPacketHandler c) w \<lparr>g_sent = {#}, g_acked = {#}, g_out = {#}, g_dup = {#}\<rparr>"
| send: "sph_run alg cb init env h w g \<Longrightarrow> real_clock now \<Longrightarrow> sph_SentPacket alg now p h = Inr h' \<Longrightarrow>
    sph_run alg cb init env h' w (g\<lparr>g_sent := g_sent g + trackedPacket now p\<rparr>)"
| ack: "sph_run alg cb init env h w g \<Longrightarrow> real_clock now \<Longrightarrow> af_wf a \<Longrightarrow>
    sph_ReceivedAck alg a wpn rcvTime now h = (err, h') \<Longrightarrow>
    sph_run alg cb init env h' w (g\<lparr>g_acked := g_acked g +
      (if ack_effective a wpn h
       then mset (filter (\<lambda>p. af_AcksPacket a (pk_PacketNumber p)) (sph_packetHistory h)) else {#})\<rparr>)"
| close: "sph_run alg cb init env h w g \<Longrightarrow> real_clock now \<Longrightarrow> cpf_wf f \<Longrightarrow>
    sph_ReceivedClosePath alg f wpn rcvTime now h = (err, h') \<Longrightarrow>
    sph_run alg cb init env h' w (g\<lparr>g_acked := g_acked g +
      (if close_effective f wpn h
       then mset (filter (\<lambda>p. cpf_AcksPacket f (pk_PacketNumber p)) (sph_packetHistory h)) else {#})\<rparr>)"
| alarm: "sph_run alg cb init env h w g \<Longrightarrow> real_clock now \<Longrightarrow> sph_OnAlarm alg cb now h w = (h', w') \<Longrightarrow>
    sph_run alg cb init env h' w' g"
| inflight_lost: "sph_run alg cb init env h w g \<Longrightarrow> sph_run alg cb init env (sph_SetInflightAsLost alg h) w g"
| dequeue: "sph_run alg cb init env h w g \<Longrightarrow> DequeuePacketForRetransmission h = (Some p, h') \<Longrightarrow>
    sph_run alg cb init env h' w (g\<lparr>g_out := g_out g + {#p#}\<rparr>)"
| duplicate: "sph_run alg cb init env h w g \<Longrightarrow>
    sph_run alg cb init env (DuplicatePacket p h) w (g\<lparr>g_dup := g_dup g + {#p#}\<rparr>)"
| stop_waiting: "sph_run alg cb init env h w g \<Longrightarrow> sph_GetStopWaitingFrame force h = (swf, h') \<Longrightarrow>
    sph_run alg cb init env h' w g"
| environment: "sph_run alg cb init env h w g \<Longrightarrow> env (sph_congestion h) c \<Longrightarrow> sph_run alg cb init env (h\<lparr>sph_congestion := c\<rparr>) w' g"

definition conserved :: "'s sentPacketHandler \<Rightarrow> ghost \<Rightarrow> bool" where
  "conserved h g \<longleftrightarrow>
     mset (sph_packetHistory h) + mset (sph_retransmissionQueue h) + g_acked g + g_out g =
     g_sent g + g_dup g"

definition timing_ok :: "'s sentPacketHandler \<Rightarrow> bool" where
  "timing_ok h \<longleftrightarrow> (sph_packetHistory h \<noteq> [] \<longrightarrow> real_clock (sph_lastSentTime h)) \<and> 0 \<le> sph_lossTime h"

definition alarmed :: "'s sentPacketHandler \<Rightarrow> bool" where
  "alarmed h \<longleftrightarrow> (hasOutstandingRetransmittablePacket h \<longrightarrow> 0 < sph_alarm h)"

lemma SentPacket_sel:
  assumes "sph_SentPacket alg now p h = Inr h'"
  shows "mset (sph_packetHistory h') = mset (sph_packetHistory h) + trackedPacket now p"
    "sph_retransmissionQueue h' = sph_retransmissionQueue h" "sph_lastSentTime h' = now"
    "sph_lossTime h' = sph_lossTime h"
  using assms
  by (auto simp: sph_SentPacket_def Let_def trackSent_history trackedPacket_def split: if_splits)

text \<open>An effective ACK splits the history.\<close>

lemma mset_compl_union: "mset (filter P xs) + mset (filter (\<lambda>x. \<not> P x) xs) = mset xs"
  by (induction xs) auto

lemma mset_split:
  assumes "L = filter (\<lambda>p. p \<in> set L) xs" "\<forall>p\<in>set L. \<not> P p"
  shows "mset xs = mset (filter P xs) + mset L + mset (filter (\<lambda>p. \<not> P p \<and> p \<notin> set L) xs)"
proof -
  have "filter (\<lambda>p. p \<in> set L) (filter (\<lambda>p. \<not> P p) xs) = L"
    using assms(2) by (subst (2) assms(1)) (auto intro: filter_cong)
  moreover have "filter (\<lambda>p. p \<notin> set L) (filter (\<lambda>p. \<not> P p) xs) = filter (\<lambda>p. \<not> P p \<and> p \<notin> set L) xs"
    by (simp add: conj_commute)
  ultimately show ?thesis
    using mset_compl_union [of P xs] mset_compl_union [of "\<lambda>p. p \<in> set L" "filter (\<lambda>p. \<not> P p) xs"]
    by (metis add.assoc)
qed

lemma OnAlarm_moved:
  assumes "sph_inv h" "sph_OnAlarm alg cb now h w = (h', w')"
  shows "\<exists>ps. sph_inv h' \<and> sph_retransmissionQueue h' = sph_retransmissionQueue h @ ps \<and>
    mset (sph_packetHistory h) = mset ps + mset (sph_packetHistory h') \<and>
    sph_lastSentTime h' = sph_lastSentTime h \<and>
    (hasOutstandingRetransmittablePacket h \<and> sph_lossTime h = 0 \<longrightarrow> ps \<noteq> [])"
proof (cases "hasOutstandingRetransmittablePacket h")
  case False
  then show ?thesis using assms by (auto simp: sph_OnAlarm_def)
next
  case True
  then have ne: "sph_packetHistory h \<noteq> []" by (auto simp: hasOutstandingRetransmittablePacket_def)
  show ?thesis
  proof (cases "sph_lossTime h = 0")
    case loss: False
    define L where "L = filter (\<lambda>p. pk_PacketNumber p \<le> sph_LargestAcked h \<and>
      delayUntilLost (sa_rttStats alg (sph_congestion h)) < time_Sub now (pk_SendTime p)) (sph_packetHistory h)"
    have "h' = updateLossDetectionAlarm alg (detectLostPackets alg now h)"
      using assms(2) True loss by (simp add: sph_OnAlarm_def)
    moreover have "mset L + mset (filter (\<lambda>p. p \<notin> set L) (sph_packetHistory h)) = mset (sph_packetHistory h)"
    proof -
      have "filter (\<lambda>p. p \<in> set L) (sph_packetHistory h) = L" by (auto simp: L_def intro: filter_cong)
      then show ?thesis using mset_compl_union [of "\<lambda>p. p \<in> set L" "sph_packetHistory h"] by simp
    qed
    ultimately show ?thesis
      using detectLostPackets_spec [OF assms(1), of alg now, folded L_def] loss by (auto intro!: exI [of _ L])
  next
    case loss: True
    obtain h1 ps where h1: "moved ps h h1" "ps \<noteq> []" "h' = updateLossDetectionAlarm alg h1"
    proof (cases "sph_tlpCount h < maxTailLossProbes")
      case True
      then show thesis
        using that [of "[last (sph_packetHistory h)]" "(retransmitTLP h)\<lparr>sph_tlpCount := sph_tlpCount (retransmitTLP h) + 1\<rparr>"]
          moved_TLP [OF assms(1) ne] assms(2) \<open>hasOutstandingRetransmittablePacket h\<close> loss
        by (simp add: sph_OnAlarm_def Let_def)
    next
      case False
      obtain h2 w2 where h2: "handleRTO alg cb h w = (h2, w2)" by (cases "handleRTO alg cb h w")
      then show thesis
        using that [of _ h2] moved_RTO [OF assms(1) h2] ne assms(2) True False loss
        by (auto simp: sph_OnAlarm_def)
    qed
    then show ?thesis by (auto simp: moved_def)
  qed
qed

lemma conserved_step:
  assumes "conserved h g"
    and "mset (sph_packetHistory h) + mset (sph_retransmissionQueue h) =
         A + (mset (sph_packetHistory h') + mset (sph_retransmissionQueue h'))"
  shows "conserved h' (g\<lparr>g_acked := g_acked g + A\<rparr>)"
  using assms unfolding conserved_def by (simp add: ac_simps)

lemma conserved_run: "sph_run alg cb init env h w g \<Longrightarrow> sph_inv h \<and> conserved h g"
proof (induction rule: sph_run.induct)
  case (start c w)
  then show ?case
    by (simp add: NewSentPacketHandler_def sph_inv_def tracked_ok_def skipped_ok_def conserved_def)
next
  case (send h w g now p h')
  then show ?case
    using sph_inv_SentPacket [of h alg now p h'] SentPacket_sel [of alg now p h h'] by (auto simp: conserved_def ac_simps)
next
  case (ack h w g now a wpn rcvTime err h')
  show ?case
  proof (cases "ack_effective a wpn h")
    case True
    then obtain L where L: "sph_inv h'" "sph_retransmissionQueue h' = sph_retransmissionQueue h @ L"
       "L = filter (\<lambda>p. p \<in> set L) (sph_packetHistory h)" "\<forall>p\<in>set L. \<not> af_AcksPacket a (pk_PacketNumber p)"
       "sph_packetHistory h' = filter (\<lambda>p. \<not> af_AcksPacket a (pk_PacketNumber p) \<and> p \<notin> set L) (sph_packetHistory h)"
      using ReceivedAck_effective [of h a wpn alg rcvTime now err h'] ack by blast
    have "mset (sph_packetHistory h) + mset (sph_retransmissionQueue h) =
        mset (filter (\<lambda>p. af_AcksPacket a (pk_PacketNumber p)) (sph_packetHistory h)) +
        (mset (sph_packetHistory h') + mset (sph_retransmissionQueue h'))"
      unfolding L(2,5) mset_append by (subst mset_split [OF L(3,4)]) (simp only: ac_simps)
    from conserved_step [OF ack.IH [THEN conjunct2] this] show ?thesis using True L(1) by simp
  next
    case False
    then show ?thesis using ack ReceivedAck_ineffective [of h a wpn alg rcvTime now err h']
      by (auto simp: conserved_def)
  qed
next
  case (close h w g now f wpn rcvTime err h')
  show ?case
  proof (cases "close_effective f wpn h")
    case True
    have inv: "sph_inv h" using close.IH by simp
    note c = ReceivedClosePath_effective [OF inv close(3) True close(4)]
    have "mset (sph_packetHistory h) + mset (sph_retransmissionQueue h) =
        mset (filter (\<lambda>p. cpf_AcksPacket f (pk_PacketNumber p)) (sph_packetHistory h)) +
        (mset (sph_packetHistory h') + mset (sph_retransmissionQueue h'))"
      unfolding c(6,7) mset_append
      by (subst mset_compl_union [of "\<lambda>p. cpf_AcksPacket f (pk_PacketNumber p)", symmetric],
          subst mset_compl_union [of "\<lambda>p. pk_PacketNumber p \<le> sph_LargestAcked h"
            "filter (\<lambda>p. \<not> cpf_AcksPacket f (pk_PacketNumber p)) (sph_packetHistory h)", symmetric])
         (simp only: ac_simps)
    from conserved_step [OF close.IH [THEN conjunct2] this] show ?thesis using True c(2) by simp
  next
    case False
    then show ?thesis using close ReceivedClosePath_ineffective [of h f wpn alg rcvTime now err h']
      by (auto simp: conserved_def)
  qed
next
  case (alarm h w g now h' w')
  obtain ps where "sph_inv h'" "sph_retransmissionQueue h' = sph_retransmissionQueue h @ ps"
      "mset (sph_packetHistory h) = mset ps + mset (sph_packetHistory h')"
    using OnAlarm_moved [OF alarm.IH [THEN conjunct1] alarm(3)] by (elim exE conjE) (rule that)
  then have "mset (sph_packetHistory h) + mset (sph_retransmissionQueue h) =
      {#} + (mset (sph_packetHistory h') + mset (sph_retransmissionQueue h'))" by simp
  from conserved_step [OF alarm.IH [THEN conjunct2] this] \<open>sph_inv h'\<close> show ?case by simp
next
  case (inflight_lost h w g)
  define L where "L = filter (\<lambda>p. pk_PacketNumber p \<le> sph_LargestAcked h) (sph_packetHistory h)"
  have "sph_inv h" using inflight_lost.IH by simp
  note l = SetInflightAsLost_spec [OF this, of alg, folded L_def]
  have "filter (\<lambda>p. p \<in> set L) (sph_packetHistory h) = L" by (auto simp: L_def intro: filter_cong)
  then have "mset L + mset (filter (\<lambda>p. p \<notin> set L) (sph_packetHistory h)) = mset (sph_packetHistory h)"
    using mset_compl_union [of "\<lambda>p. p \<in> set L" "sph_packetHistory h"] by simp
  then have "mset (sph_packetHistory h) + mset (sph_retransmissionQueue h) = {#} +
      (mset (sph_packetHistory (sph_SetInflightAsLost alg h)) + mset (sph_retransmissionQueue (sph_SetInflightAsLost alg h)))"
    unfolding l(2,3) mset_append by (metis add.assoc add.commute add.left_neutral)
  from conserved_step [OF inflight_lost.IH [THEN conjunct2] this] l(1) show ?case by simp
next
  case (dequeue h w g p h')
  then show ?case
    by (auto simp: DequeuePacketForRetransmission_def conserved_def ac_simps split: list.splits)
next
  case (duplicate h w g p)
  then show ?case by (auto simp: DuplicatePacket_def conserved_def ac_simps)
next
  case (stop_waiting h w g force swf h')
  then show ?case by (auto simp: sph_GetStopWaitingFrame_def conserved_def split: prod.splits)
next
  case (environment h w g c w')
  then show ?case by (simp add: conserved_def)
qed

section \<open>The alarm\<close>

lemma int64_add_clock: "real_clock t \<Longrightarrow> - (2 ^ 63) \<le> x \<Longrightarrow> 0 < t + x"
  by (simp add: real_clock_def)

lemma computeTLPTimeout_range: "- (2 ^ 63) \<le> computeTLPTimeout alg h"
  using int64_range(1) by (auto simp: computeTLPTimeout_def Let_def minmax minTailLossProbeTimeout_def le_max_iff_disj)

lemma computeRTO_max: "0 < MaxDuration (computeRTOTimeout alg h) minRetransmissionTime"
  by (simp add: minmax minRetransmissionTime_def less_max_iff_disj)

lemma alarm_set:
  assumes "timing_ok h" "sph_packetHistory h \<noteq> []"
  shows "0 < sph_alarm (updateLossDetectionAlarm alg h)"
proof -
  have t: "real_clock (sph_lastSentTime h)" "0 \<le> sph_lossTime h" using assms by (simp_all add: timing_ok_def)
  moreover have "0 < sph_lastSentTime h + MaxDuration (computeRTOTimeout alg h) minRetransmissionTime"
    using t(1) computeRTO_max [of alg h] by (simp add: real_clock_def)
  ultimately show ?thesis
    using assms(2) int64_add_clock [OF t(1) computeTLPTimeout_range [of alg h]]
    by (simp add: updateLossDetectionAlarm_def)
qed

lemma alarmed_update: "timing_ok h \<Longrightarrow> alarmed (updateLossDetectionAlarm alg h)"
  using alarm_set [of h alg]
  by (cases "sph_packetHistory h = []") (auto simp: alarmed_def hasOutstandingRetransmittablePacket_def)

lemma timing_update [simp]: "timing_ok (updateLossDetectionAlarm alg h) = timing_ok h"
  by (simp add: timing_ok_def)

lemma lostLoop_time: "real_clock now \<Longrightarrow> 0 \<le> t \<Longrightarrow> 0 \<le> snd (lostLoop now d la t ps)"
proof (induction ps arbitrary: t)
  case (Cons p ps)
  have "0 \<le> now + int64 (d - time_Sub now (pk_SendTime p))"
    using int64_add_clock [OF Cons.prems(1) int64_range(1)] by (rule less_imp_le)
  moreover have "snd (lostLoop now d la t (p # ps)) =
      (if pk_PacketNumber p > la then t
       else if time_Sub now (pk_SendTime p) > d then snd (lostLoop now d la t ps)
       else snd (lostLoop now d la (if t = 0 then now + int64 (d - time_Sub now (pk_SendTime p)) else t) ps))"
    by (simp add: Let_def split: prod.split)
  ultimately show ?case using Cons by simp
qed simp

lemma timing_detectLost:
  "sph_inv h \<Longrightarrow> real_clock now \<Longrightarrow> timing_ok h \<Longrightarrow> timing_ok (detectLostPackets alg now h)"
  by (auto simp: timing_ok_def detectLostPackets_spec lostLoop_time)

lemma outstanding_subset:
  "hasOutstandingRetransmittablePacket h' \<Longrightarrow> set (sph_packetHistory h') \<subseteq> set (sph_packetHistory h) \<Longrightarrow>
   hasOutstandingRetransmittablePacket h"
  by (auto simp: hasOutstandingRetransmittablePacket_def list_ex_iff)

text \<open>An operation that only shrinks the history and leaves the times alone.\<close>

lemma alarmed_shrink:
  assumes "timing_ok h" "alarmed h" "set (sph_packetHistory h') \<subseteq> set (sph_packetHistory h)"
    and "sph_alarm h' = sph_alarm h" "sph_lossTime h' = sph_lossTime h" "sph_lastSentTime h' = sph_lastSentTime h"
  shows "timing_ok h' \<and> alarmed h'"
  using assms outstanding_subset [of h' h] by (auto simp: timing_ok_def alarmed_def)

lemma finishAck_timing:
  assumes "sph_inv h" "real_clock now" "timing_ok h"
  shows "timing_ok (finishAck alg now a h) \<and> alarmed (finishAck alg now a h)"
proof -
  have t: "timing_ok (detectLostPackets alg now h)" by (rule timing_detectLost [OF assms])
  define h1 where "h1 = updateLossDetectionAlarm alg (detectLostPackets alg now h)"
  have "timing_ok h1" "alarmed h1" using t alarmed_update [OF t, of alg] by (simp_all add: h1_def)
  then show ?thesis
    by (simp add: finishAck_def Let_def h1_def [symmetric] timing_ok_def alarmed_def
        hasOutstandingRetransmittablePacket_def)
qed

lemma ReceivedAck_timing:
  assumes "sph_inv h" "real_clock now" "timing_ok h" "alarmed h" "af_wf a"
    and "sph_ReceivedAck alg a wpn rcvTime now h = (err, h')"
  shows "timing_ok h' \<and> alarmed h'"
proof (cases "ack_effective a wpn h")
  case True
  define h1 where "h1 = sampleRTT alg a rcvTime now
     (h\<lparr>sph_largestReceivedPacketWithAck := wpn, sph_LargestAcked := af_LargestAcked a\<rparr>)"
  note eq = ReceivedAck_eq [OF assms(1,5) True, of alg rcvTime now, folded h1_def]
  have t1: "timing_ok h1" using assms(3) by (simp add: h1_def timing_ok_def)
  note p = processAcked_spec [OF eq(1), of alg now "\<lambda>p. af_AcksPacket a (pk_PacketNumber p)"]
  have "h' = finishAck alg now a (processAcked alg now
      (filter (\<lambda>p. af_AcksPacket a (pk_PacketNumber p)) (sph_packetHistory h1)) h1)"
    using assms(6) eq(2) by simp
  moreover have "timing_ok (processAcked alg now
      (filter (\<lambda>p. af_AcksPacket a (pk_PacketNumber p)) (sph_packetHistory h1)) h1)"
    using t1 by (auto simp: timing_ok_def p)
  ultimately show ?thesis using finishAck_timing [OF p(1) assms(2)] by simp
next
  case False
  have "sph_lossTime h' = sph_lossTime h \<and> sph_lastSentTime h' = sph_lastSentTime h"
    using False assms(6) by (auto simp: sph_ReceivedAck_def ack_effective_def Let_def not_less not_le split: if_splits)
  then show ?thesis
    using ReceivedAck_ineffective [OF assms(1) False assms(6)] assms(3,4) by (intro alarmed_shrink [of h]) auto
qed

lemma OnAlarm_timing:
  assumes "sph_inv h" "real_clock now" "timing_ok h" "sph_OnAlarm alg cb now h w = (h', w')"
  shows "timing_ok h' \<and> alarmed h'"
proof (cases "hasOutstandingRetransmittablePacket h")
  case False
  then show ?thesis using assms(3,4)
    by (auto simp: sph_OnAlarm_def timing_ok_def alarmed_def hasOutstandingRetransmittablePacket_def)
next
  case True
  then have ne: "sph_packetHistory h \<noteq> []" by (auto simp: hasOutstandingRetransmittablePacket_def)
  have "\<exists>h1. h' = updateLossDetectionAlarm alg h1 \<and> timing_ok h1"
  proof (cases "sph_lossTime h = 0")
    case False
    then show ?thesis using True assms(4) timing_detectLost [OF assms(1-3), of alg]
      by (auto simp: sph_OnAlarm_def)
  next
    case loss: True
    have mv: "timing_ok h1" if "moved ps h h1" for ps h1
      using that ne assms(3) by (auto simp: moved_def timing_ok_def)
    show ?thesis
    proof (cases "sph_tlpCount h < maxTailLossProbes")
      case True
      then show ?thesis
        using \<open>hasOutstandingRetransmittablePacket h\<close> assms(4) loss
          mv [of _ "(retransmitTLP h)\<lparr>sph_tlpCount := sph_tlpCount (retransmitTLP h) + 1\<rparr>"] moved_TLP [OF assms(1) ne]
        by (simp add: sph_OnAlarm_def Let_def) blast
    next
      case False
      obtain h2 w2 where h2: "handleRTO alg cb h w = (h2, w2)" by (cases "handleRTO alg cb h w")
      then show ?thesis
        using \<open>hasOutstandingRetransmittablePacket h\<close> assms(4) loss False moved_RTO [OF assms(1) h2] mv [of _ h2]
        by (auto simp: sph_OnAlarm_def)
    qed
  qed
  then show ?thesis by (auto simp: alarmed_update)
qed

lemma alarmed_run: "sph_run alg cb init env h w g \<Longrightarrow> timing_ok h \<and> alarmed h"
proof (induction rule: sph_run.induct)
  case (start c w)
  then show ?case
    by (simp add: NewSentPacketHandler_def timing_ok_def alarmed_def hasOutstandingRetransmittablePacket_def)
next
  case (send h w g now p h')
  obtain h1 where h1: "h' = updateLossDetectionAlarm alg h1"
    using send(3) by (auto simp: sph_SentPacket_def Let_def split: if_splits)
  have "timing_ok h'" using SentPacket_sel [OF send(3)] send by (auto simp: timing_ok_def)
  then show ?case using h1 alarmed_update [of h1 alg] by simp
next
  case (ack h w g now a wpn rcvTime err h')
  have "sph_inv h" using conserved_run [OF ack(1)] by simp
  then show ?case by (rule ReceivedAck_timing [OF _ ack(2) _ _ ack(3,4)]) (use ack.IH in simp_all)
next
  case (close h w g now f wpn rcvTime err h')
  have inv: "sph_inv h" using conserved_run [OF close(1)] by simp
  show ?case
  proof (cases "close_effective f wpn h")
    case True
    note c = ReceivedClosePath_effective [OF inv close(3) True close(4)]
    show ?thesis by (rule alarmed_shrink [of h]) (use close c in auto)
  next
    case False
    show ?thesis
      by (rule alarmed_shrink [of h]) (use close ReceivedClosePath_ineffective [OF inv False close(4)] in auto)
  qed
next
  case (alarm h w g now h' w')
  have "sph_inv h" using conserved_run [OF alarm(1)] by simp
  then show ?case by (rule OnAlarm_timing [OF _ alarm(2) _ alarm(3)]) (use alarm.IH in simp)
next
  case (inflight_lost h w g)
  have inv: "sph_inv h" using conserved_run [OF inflight_lost(1)] by simp
  show ?case by (rule alarmed_shrink [of h]) (use inflight_lost SetInflightAsLost_spec [OF inv, of alg] in auto)
next
  case (dequeue h w g p h')
  show ?case
    by (rule alarmed_shrink [of h]) (use dequeue in \<open>auto simp: DequeuePacketForRetransmission_def split: list.splits\<close>)
next
  case (duplicate h w g p)
  show ?case by (rule alarmed_shrink [of h]) (use duplicate in \<open>auto simp: DuplicatePacket_def\<close>)
next
  case (stop_waiting h w g force swf h')
  show ?case
    by (rule alarmed_shrink [of h]) (use stop_waiting in \<open>auto simp: sph_GetStopWaitingFrame_def split: prod.splits\<close>)
next
  case (environment h w g c w')
  show ?case by (rule alarmed_shrink [of h]) (use environment in auto)
qed

section \<open>Congestion controllers\<close>

text \<open>
  What a handler relies on of its congestion controller: an invariant, indexed by the number of packets reported
  as acknowledged, that the calls of the handler and the changes by the environment preserve. The handler then
  keeps it in every run.
\<close>

lemma congestion_sel [simp]:
  "sph_congestion (updateLossDetectionAlarm alg h) = sph_congestion h"
  "sph_congestion (garbageCollectSkippedPackets h) = sph_congestion h"
  by (simp_all add: updateLossDetectionAlarm_def garbageCollectSkippedPackets_def)

locale congestion_controller =
  fixes alg :: "'s SendAlgorithm" and inv :: "nat \<Rightarrow> 's \<Rightarrow> bool"
    and init :: "'s \<Rightarrow> bool" and env :: "'s \<Rightarrow> 's \<Rightarrow> bool"
  assumes inv_init: "init c \<Longrightarrow> inv 0 c"
    and inv_env: "inv k c \<Longrightarrow> env c c' \<Longrightarrow> inv k c'"
    and inv_rtt: "inv k c \<Longrightarrow> inv k (sa_setRTTStats alg r c)"
    and inv_sent: "inv k c \<Longrightarrow> inv k (snd (sa_OnPacketSent alg t b n l ret c))"
    and inv_acked: "inv k c \<Longrightarrow> inv (Suc k) (sa_OnPacketAcked alg now n l b c)"
    and inv_lost: "inv k c \<Longrightarrow> inv k (sa_OnPacketLost alg n l b c)"
    and inv_exit: "inv k c \<Longrightarrow> inv k (sa_MaybeExitSlowStart alg c)"
    and inv_timeout: "inv k c \<Longrightarrow> inv k (sa_OnRetransmissionTimeout alg ret c)"
begin

lemma inv_sampleRTT: "inv k (sph_congestion h) \<Longrightarrow> inv k (sph_congestion (sampleRTT alg a rcvTime now h))"
  by (auto simp: sampleRTT_def maybeUpdateRTT_def inv_rtt inv_exit split: option.splits)

lemma inv_lostPackets: "inv k (sph_congestion h) \<Longrightarrow> inv k (sph_congestion (fold (losePacket alg) ps h))"
  by (induction ps arbitrary: h) (auto simp: losePacket_def queuePacketForRetransmission_def Let_def inv_lost)

lemma inv_ackedPackets:
  "inv k (sph_congestion h) \<Longrightarrow> inv (k + length ps) (sph_congestion (processAcked alg now ps h))"
proof (induction ps arbitrary: h k)
  case (Cons p ps)
  have "inv (Suc k) (sph_congestion (ackPacket alg now p h))"
    using Cons.prems by (simp add: ackPacket_def onPacketAcked_def Let_def inv_acked)
  from Cons.IH [OF this] show ?case by (simp add: processAcked_def)
qed (simp add: processAcked_def)

lemma inv_ackedFilter:
  assumes "inv k (sph_congestion h)"
  shows "inv (k + size (filter_mset P (mset ps))) (sph_congestion (processAcked alg now (filter P ps) h))"
  using inv_ackedPackets [OF assms, of "filter P ps" now] by (metis mset_filter size_mset)

lemma inv_detectLost: "inv k (sph_congestion h) \<Longrightarrow> inv k (sph_congestion (detectLostPackets alg now h))"
  by (auto simp: detectLostPackets_def inv_lostPackets split: prod.split)

lemma inv_inflight: "inv k (sph_congestion h) \<Longrightarrow> inv k (sph_congestion (sph_SetInflightAsLost alg h))"
  by (simp add: sph_SetInflightAsLost_def Let_def inv_lostPackets)

lemma inv_queueRTO: "inv k (sph_congestion h) \<Longrightarrow> inv k (sph_congestion (queueRTO alg p h))"
  by (simp add: queueRTO_def queuePacketForRetransmission_def Let_def inv_lost)

lemma inv_allLoop: "inv k (sph_congestion h) \<Longrightarrow> inv k (sph_congestion (retransmitAllLoop alg h))"
proof -
  have "inv k (sph_congestion h) \<Longrightarrow> inv k (sph_congestion (fold (queueRTO alg) ps h))" for ps
    by (induction ps arbitrary: h) (simp_all add: inv_queueRTO)
  then show "inv k (sph_congestion h) \<Longrightarrow> inv k (sph_congestion (retransmitAllLoop alg h))"
    by (simp add: retransmitAllLoop_fold)
qed

lemma inv_handleRTO:
  "inv k (sph_congestion h) \<Longrightarrow> handleRTO alg cb h w = (h', w') \<Longrightarrow> inv k (sph_congestion h')"
  using inv_allLoop [of k h]
  by (auto simp: handleRTO_def Let_def retransmitAllPackets_def retransmitOldestTwoPackets_def retransmitOldestPacket_def
      onRetransmissionTimeout_def inv_queueRTO inv_timeout split: option.splits prod.splits if_splits list.splits)

lemma inv_OnAlarm:
  assumes "inv k (sph_congestion h)" "sph_OnAlarm alg cb now h w = (h', w')"
  shows "inv k (sph_congestion h')"
proof -
  obtain h2 w2 where "handleRTO alg cb h w = (h2, w2)" by fastforce
  then show ?thesis
    using assms inv_handleRTO [OF assms(1)] inv_detectLost [OF assms(1)]
    by (auto simp: sph_OnAlarm_def Let_def retransmitTLP_def queuePacketForRetransmission_def
        split: if_splits)
qed

lemma inv_run: "sph_run alg cb init env h w g \<Longrightarrow> inv (size (g_acked g)) (sph_congestion h)"
proof (induction rule: sph_run.induct)
  case (start c w)
  then show ?case by (simp add: NewSentPacketHandler_def inv_init)
next
  case (send h w g now p h')
  then show ?case by (auto simp: sph_SentPacket_def Let_def trackSent_def inv_sent split: if_splits)
next
  case (ack h w g now a wpn rcvTime err h')
  have i: "sph_inv h" using conserved_run [OF ack(1)] by simp
  show ?case
  proof (cases "ack_effective a wpn h")
    case True
    define h1 where "h1 = sampleRTT alg a rcvTime now
      (h\<lparr>sph_largestReceivedPacketWithAck := wpn, sph_LargestAcked := af_LargestAcked a\<rparr>)"
    have "sph_packetHistory h1 = sph_packetHistory h" "inv (size (g_acked g)) (sph_congestion h1)"
      using ack.IH by (simp_all add: h1_def inv_sampleRTT)
    then show ?thesis
      using ack(4) ReceivedAck_eq(2) [OF i ack(3) True, of alg rcvTime now, folded h1_def] True
      by (auto simp: finishAck_def Let_def intro!: inv_detectLost inv_ackedFilter)
  next
    case False
    then show ?thesis using ack.IH ack(4)
      by (auto simp: sph_ReceivedAck_def ack_effective_def Let_def not_less not_le split: if_splits)
  qed
next
  case (close h w g now f wpn rcvTime err h')
  have i: "sph_inv h" using conserved_run [OF close(1)] by simp
  show ?case
  proof (cases "close_effective f wpn h")
    case True
    then show ?thesis
      using close.IH close(4) ReceivedClosePath_eq [OF i close(3) True, of alg rcvTime now]
      by (auto intro!: inv_inflight inv_ackedFilter)
  next
    case False
    then show ?thesis using close.IH close(4)
      by (auto simp: sph_ReceivedClosePath_def close_effective_def skippedPacketsAckedClosePath_def Let_def
          not_less not_le split: if_splits)
  qed
next
  case (alarm h w g now h' w')
  show ?case by (rule inv_OnAlarm [OF alarm.IH alarm(3)])
next
  case (inflight_lost h w g)
  then show ?case by (simp add: inv_inflight)
next
  case (dequeue h w g p h')
  then show ?case by (auto simp: DequeuePacketForRetransmission_def split: list.splits)
next
  case (duplicate h w g p)
  then show ?case by (simp add: DuplicatePacket_def)
next
  case (stop_waiting h w g force swf h')
  then show ?case by (auto simp: sph_GetStopWaitingFrame_def split: prod.splits)
next
  case (environment h w g c w')
  then show ?case by (simp add: inv_env)
qed

end

end
