(* ===== verification/Slow_Start.thy ===== *)
theory Slow_Start
imports Sent_Runs
begin

text \<open>
  The parts that the congestion controllers share: hybrid slow start
  (\<^verbatim>\<open>congestion/hybrid_slow_start.go\<close>), proportional rate reduction (\<^verbatim>\<open>prr_sender.go\<close>), the loss statistics
  (\<^verbatim>\<open>stats.go\<close>) and bandwidths (\<^verbatim>\<open>bandwidth.go\<close>).
\<close>

section \<open>Definitions\<close>

definition DefaultTCPMSS :: ByteCount where "DefaultTCPMSS = 1460"

definition hybridStartLowWindow :: ByteCount where "hybridStartLowWindow = 16"
definition hybridStartMinSamples :: uint32 where "hybridStartMinSamples = 8"
definition hybridStartDelayFactorExp :: nat where "hybridStartDelayFactorExp = 3"
definition hybridStartDelayMinThresholdUs :: int where "hybridStartDelayMinThresholdUs = 4000"
definition hybridStartDelayMaxThresholdUs :: int where "hybridStartDelayMaxThresholdUs = 16000"

record HybridSlowStart =
  hss_endPacketNumber :: PacketNumber
  hss_lastSentPacketNumber :: PacketNumber
  hss_started :: bool
  hss_currentMinRTT :: duration
  hss_rttSampleCount :: uint32
  hss_hystartFound :: bool

definition newHybridSlowStart :: HybridSlowStart where
  "newHybridSlowStart =
     \<lparr>hss_endPacketNumber = 0, hss_lastSentPacketNumber = 0, hss_started = False,
      hss_currentMinRTT = 0, hss_rttSampleCount = 0, hss_hystartFound = False\<rparr>"

definition StartReceiveRound :: "PacketNumber \<Rightarrow> HybridSlowStart \<Rightarrow> HybridSlowStart" where
  "StartReceiveRound lastSent s =
     s\<lparr>hss_endPacketNumber := lastSent, hss_currentMinRTT := 0, hss_rttSampleCount := 0,
       hss_started := True\<rparr>"

definition IsEndOfRound :: "PacketNumber \<Rightarrow> HybridSlowStart \<Rightarrow> bool" where
  "IsEndOfRound ack s \<longleftrightarrow> hss_endPacketNumber s < ack"

definition minRTTincreaseThreshold :: "duration \<Rightarrow> duration" where
  "minRTTincreaseThreshold minRTT =
     (let us = drop_bit hybridStartDelayFactorExp (minRTT sdiv Microsecond);
          us = MinInt64 us hybridStartDelayMaxThresholdUs
      in int64 (MaxInt64 us hybridStartDelayMinThresholdUs * Microsecond))"

definition takeRTTSample :: "duration \<Rightarrow> HybridSlowStart \<Rightarrow> HybridSlowStart" where
  "takeRTTSample latestRTT s =
     (let s = s\<lparr>hss_rttSampleCount := hss_rttSampleCount s + 1\<rparr>
      in if hss_rttSampleCount s \<le> hybridStartMinSamples \<and>
            (hss_currentMinRTT s = 0 \<or> hss_currentMinRTT s > latestRTT)
         then s\<lparr>hss_currentMinRTT := latestRTT\<rparr> else s)"

definition detectDelayIncrease :: "duration \<Rightarrow> HybridSlowStart \<Rightarrow> HybridSlowStart" where
  "detectDelayIncrease minRTT s =
     (if hss_rttSampleCount s = hybridStartMinSamples \<and>
         hss_currentMinRTT s > int64 (minRTT + minRTTincreaseThreshold minRTT)
      then s\<lparr>hss_hystartFound := True\<rparr> else s)"

definition ShouldExitSlowStart ::
    "duration \<Rightarrow> duration \<Rightarrow> ByteCount \<Rightarrow> HybridSlowStart \<Rightarrow> bool \<times> HybridSlowStart" where
  "ShouldExitSlowStart latestRTT minRTT congestionWindow s =
     (let s = (if \<not> hss_started s then StartReceiveRound (hss_lastSentPacketNumber s) s else s)
      in if hss_hystartFound s then (True, s)
         else let s = detectDelayIncrease minRTT (takeRTTSample latestRTT s)
              in (congestionWindow \<ge> hybridStartLowWindow \<and> hss_hystartFound s, s))"

definition hss_OnPacketSent :: "PacketNumber \<Rightarrow> HybridSlowStart \<Rightarrow> HybridSlowStart" where
  "hss_OnPacketSent packetNumber s = s\<lparr>hss_lastSentPacketNumber := packetNumber\<rparr>"

definition hss_OnPacketAcked :: "PacketNumber \<Rightarrow> HybridSlowStart \<Rightarrow> HybridSlowStart" where
  "hss_OnPacketAcked ackedPacketNumber s =
     (if IsEndOfRound ackedPacketNumber s then s\<lparr>hss_started := False\<rparr> else s)"

definition hss_Restart :: "HybridSlowStart \<Rightarrow> HybridSlowStart" where
  "hss_Restart s = s\<lparr>hss_started := False, hss_hystartFound := False\<rparr>"

record PrrSender =
  prr_bytesSentSinceLoss :: ByteCount
  prr_bytesDeliveredSinceLoss :: ByteCount
  prr_ackCountSinceLoss :: ByteCount
  prr_bytesInFlightBeforeLoss :: ByteCount

definition newPrrSender :: PrrSender where
  "newPrrSender = \<lparr>prr_bytesSentSinceLoss = 0, prr_bytesDeliveredSinceLoss = 0,
     prr_ackCountSinceLoss = 0, prr_bytesInFlightBeforeLoss = 0\<rparr>"

definition prr_OnPacketSent :: "ByteCount \<Rightarrow> PrrSender \<Rightarrow> PrrSender" where
  "prr_OnPacketSent sentBytes p = p\<lparr>prr_bytesSentSinceLoss := prr_bytesSentSinceLoss p + sentBytes\<rparr>"

definition prr_OnPacketLost :: "ByteCount \<Rightarrow> PrrSender \<Rightarrow> PrrSender" where
  "prr_OnPacketLost bytesInFlight p =
     p\<lparr>prr_bytesSentSinceLoss := 0, prr_bytesInFlightBeforeLoss := bytesInFlight,
       prr_bytesDeliveredSinceLoss := 0, prr_ackCountSinceLoss := 0\<rparr>"

definition prr_OnPacketAcked :: "ByteCount \<Rightarrow> PrrSender \<Rightarrow> PrrSender" where
  "prr_OnPacketAcked ackedBytes p =
     p\<lparr>prr_bytesDeliveredSinceLoss := prr_bytesDeliveredSinceLoss p + ackedBytes,
       prr_ackCountSinceLoss := prr_ackCountSinceLoss p + 1\<rparr>"

definition prr_TimeUntilSend :: "ByteCount \<Rightarrow> ByteCount \<Rightarrow> ByteCount \<Rightarrow> PrrSender \<Rightarrow> duration" where
  "prr_TimeUntilSend congestionWindow bytesInFlight slowstartThreshold p =
     (if prr_bytesSentSinceLoss p = 0 \<or> bytesInFlight < DefaultTCPMSS then 0
      else if congestionWindow > bytesInFlight
      then if prr_bytesDeliveredSinceLoss p + prr_ackCountSinceLoss p * DefaultTCPMSS \<le> prr_bytesSentSinceLoss p
           then InfDuration else 0
      else if prr_bytesDeliveredSinceLoss p * slowstartThreshold
              > prr_bytesSentSinceLoss p * prr_bytesInFlightBeforeLoss p
      then 0 else InfDuration)"

record connectionStats =
  st_slowstartPacketsLost :: PacketNumber
  st_slowstartBytesLost :: ByteCount

definition newConnectionStats :: connectionStats where
  "newConnectionStats = \<lparr>st_slowstartPacketsLost = 0, st_slowstartBytesLost = 0\<rparr>"

definition BytesPerSecond :: uint64 where "BytesPerSecond = 8"

definition BandwidthFromDelta :: "ByteCount \<Rightarrow> duration \<Rightarrow> uint64" where
  "BandwidthFromDelta bytes d =
     bytes * word_of_int Second div word_of_int d * BytesPerSecond"

section \<open>Hybrid slow start\<close>

text \<open>The threshold for an increase of the delay is between 4 and 16 milliseconds.\<close>

lemma minRTTincreaseThreshold_range:
  "4 * Millisecond \<le> minRTTincreaseThreshold minRTT" "minRTTincreaseThreshold minRTT \<le> 16 * Millisecond"
proof -
  define us where "us = MaxInt64 (MinInt64 (drop_bit hybridStartDelayFactorExp (minRTT sdiv Microsecond))
      hybridStartDelayMaxThresholdUs) hybridStartDelayMinThresholdUs"
  have us: "4000 \<le> us" "us \<le> 16000"
    by (auto simp: us_def minmax hybridStartDelayMaxThresholdUs_def hybridStartDelayMinThresholdUs_def)
  then have "minRTTincreaseThreshold minRTT = us * 1000"
    by (simp add: minRTTincreaseThreshold_def Let_def us_def [symmetric] int64_id)
  with us show "4 * Millisecond \<le> minRTTincreaseThreshold minRTT" "minRTTincreaseThreshold minRTT \<le> 16 * Millisecond"
    by simp_all
qed

text \<open>
  One round: slow start is left exactly when eight samples were taken and their minimum exceeds the
  minimum of the session by the threshold. Later samples of a round change nothing.
\<close>

lemma ShouldExitSlowStart_found:
  assumes "hss_started s" "\<not> hss_hystartFound s"
  shows "hss_hystartFound (snd (ShouldExitSlowStart rtt minRTT w s)) \<longleftrightarrow>
    hss_rttSampleCount s + 1 = hybridStartMinSamples \<and>
    hss_currentMinRTT (takeRTTSample rtt s) > int64 (minRTT + minRTTincreaseThreshold minRTT)"
  using assms by (simp add: ShouldExitSlowStart_def detectDelayIncrease_def takeRTTSample_def Let_def)

end
