(* ===== verification/Cubic.thy ===== *)
theory Cubic
imports Slow_Start
begin

text \<open>
  The CUBIC window computation (\<^verbatim>\<open>congestion/cubic.go\<close>) and the CUBIC sender that implements the
  interface of congestion controllers with it (\<^verbatim>\<open>cubic_sender.go\<close>). The clock of the code is the
  argument \<open>now\<close>. The estimator of round-trip times, which the sender shares with the sent packet
  handler, is a field of the sender.

  The loop that estimates the window of a TCP Reno flow is given fuel for one step per acknowledged
  packet; a lemma shows that it always ends by its own condition before the fuel is used up.
\<close>

section \<open>Definitions\<close>

definition cubeScale :: nat where "cubeScale = 40"
definition cubeCongestionWindowScale :: int where "cubeCongestionWindowScale = 410"
definition cubeFactor :: PacketNumber where "cubeFactor = 2681735677"
definition defaultNumConnections :: int where "defaultNumConnections = 2"
definition cubicBeta :: rat where "cubicBeta = float32 (7 / 10)"
definition betaLastMax :: rat where "betaLastMax = float32 (85 / 100)"
definition maxCubicTimeInterval :: duration where "maxCubicTimeInterval = 30 * Millisecond"

record Cubic =
  cu_numConnections :: int
  cu_epoch :: gotime
  cu_appLimitedStartTime :: gotime
  cu_lastUpdateTime :: gotime
  cu_lastCongestionWindow :: PacketNumber
  cu_lastMaxCongestionWindow :: PacketNumber
  cu_ackedPacketsCount :: PacketNumber
  cu_estimatedTCPcongestionWindow :: PacketNumber
  cu_originPointCongestionWindow :: PacketNumber
  cu_timeToOriginPoint :: uint32
  cu_lastTargetCongestionWindow :: PacketNumber

definition cubic_Reset :: "Cubic \<Rightarrow> Cubic" where
  "cubic_Reset c =
     c\<lparr>cu_epoch := 0, cu_appLimitedStartTime := 0, cu_lastUpdateTime := 0, cu_lastCongestionWindow := 0,
       cu_lastMaxCongestionWindow := 0, cu_ackedPacketsCount := 0, cu_estimatedTCPcongestionWindow := 0,
       cu_originPointCongestionWindow := 0, cu_timeToOriginPoint := 0, cu_lastTargetCongestionWindow := 0\<rparr>"

definition NewCubic :: Cubic where
  "NewCubic =
     \<lparr>cu_numConnections = defaultNumConnections, cu_epoch = 0, cu_appLimitedStartTime = 0,
      cu_lastUpdateTime = 0, cu_lastCongestionWindow = 0, cu_lastMaxCongestionWindow = 0,
      cu_ackedPacketsCount = 0, cu_estimatedTCPcongestionWindow = 0, cu_originPointCongestionWindow = 0,
      cu_timeToOriginPoint = 0, cu_lastTargetCongestionWindow = 0\<rparr>"

text \<open>The backoff factor of an ensemble of \<open>n\<close> connections, also used by the senders.\<close>

definition ensembleBeta :: "rat \<Rightarrow> int \<Rightarrow> rat" where
  "ensembleBeta b n = float32 (float32 (float32 (float32 (of_int n) - 1) + b) / float32 (of_int n))"

definition cubic_beta :: "Cubic \<Rightarrow> rat" where
  "cubic_beta c = ensembleBeta cubicBeta (cu_numConnections c)"

definition cubic_alpha :: "Cubic \<Rightarrow> rat" where
  "cubic_alpha c =
     (let b = cubic_beta c; n = float32 (of_int (cu_numConnections c))
      in float32 (float32 (float32 (float32 (3 * n) * n) * float32 (1 - b)) / float32 (1 + b)))"

definition OnApplicationLimited :: "gotime \<Rightarrow> Cubic \<Rightarrow> Cubic" where
  "OnApplicationLimited now c =
     (if cu_appLimitedStartTime c = 0 then c\<lparr>cu_appLimitedStartTime := now\<rparr> else c)"

definition windowTimes :: "PacketNumber \<Rightarrow> rat \<Rightarrow> PacketNumber" where
  "windowTimes w x = uint64_of_float (float32 (float32 (of_int (uint w)) * x))"

definition CongestionWindowAfterPacketLoss :: "PacketNumber \<Rightarrow> Cubic \<Rightarrow> PacketNumber \<times> Cubic" where
  "CongestionWindowAfterPacketLoss currentCongestionWindow c =
     (let c = (if currentCongestionWindow < cu_lastMaxCongestionWindow c
               then c\<lparr>cu_lastMaxCongestionWindow := windowTimes currentCongestionWindow betaLastMax\<rparr>
               else c\<lparr>cu_lastMaxCongestionWindow := currentCongestionWindow\<rparr>);
          c = c\<lparr>cu_epoch := 0\<rparr>
      in (windowTimes currentCongestionWindow (cubic_beta c), c))"

text \<open>
  \<^verbatim>\<open>math.Cbrt\<close>: the cube root to 32 binary places, rounded to a \<^verbatim>\<open>float64\<close>. The integer root is
  found bit by bit.
\<close>

fun icbrt_bits :: "nat \<Rightarrow> int \<Rightarrow> int \<Rightarrow> int" where
  "icbrt_bits 0 x r = r"
| "icbrt_bits (Suc k) x r =
     icbrt_bits k x (if (r + 2 ^ k) * (r + 2 ^ k) * (r + 2 ^ k) \<le> x then r + 2 ^ k else r)"

definition Cbrt :: "rat \<Rightarrow> rat" where
  "Cbrt x = float64 (of_int (icbrt_bits 54 (\<lfloor>x\<rfloor> * 2 ^ 96) 0) / 2 ^ 32)"

definition startEpoch :: "gotime \<Rightarrow> PacketNumber \<Rightarrow> Cubic \<Rightarrow> Cubic" where
  "startEpoch currentTime currentCongestionWindow c =
     (let c = c\<lparr>cu_epoch := currentTime, cu_ackedPacketsCount := 1,
                cu_estimatedTCPcongestionWindow := currentCongestionWindow\<rparr>
      in if cu_lastMaxCongestionWindow c \<le> currentCongestionWindow
         then c\<lparr>cu_timeToOriginPoint := 0, cu_originPointCongestionWindow := currentCongestionWindow\<rparr>
         else c\<lparr>cu_timeToOriginPoint := ucast (uint64_of_float (Cbrt (float64 (of_int (uint
                   (cubeFactor * (cu_lastMaxCongestionWindow c - currentCongestionWindow))))))),
                cu_originPointCongestionWindow := cu_lastMaxCongestionWindow c\<rparr>)"

definition shiftEpoch :: "gotime \<Rightarrow> Cubic \<Rightarrow> Cubic" where
  "shiftEpoch currentTime c =
     (if cu_appLimitedStartTime c \<noteq> 0
      then c\<lparr>cu_epoch := cu_epoch c + time_Sub currentTime (cu_appLimitedStartTime c),
             cu_appLimitedStartTime := 0\<rparr>
      else c)"

definition cubicTarget :: "gotime \<Rightarrow> duration \<Rightarrow> Cubic \<Rightarrow> PacketNumber" where
  "cubicTarget currentTime delayMin c =
     (let elapsedTime = int64 (push_bit 10 (time_Sub (currentTime + delayMin) (cu_epoch c) sdiv Microsecond)) sdiv 1000000;
          offset = int64 (uint (cu_timeToOriginPoint c) - elapsedTime);
          offset = (if offset < 0 then int64 (- offset) else offset);
          deltaCongestionWindow = word_of_int (drop_bit cubeScale
            (int64 (int64 (int64 (cubeCongestionWindowScale * offset) * offset) * offset)))
      in if elapsedTime > uint (cu_timeToOriginPoint c)
         then cu_originPointCongestionWindow c + deltaCongestionWindow
         else cu_originPointCongestionWindow c - deltaCongestionWindow)"

definition requiredAckCount :: "rat \<Rightarrow> PacketNumber \<Rightarrow> PacketNumber" where
  "requiredAckCount alpha est = uint64_of_float (float32 (float32 (of_int (uint est)) / alpha))"

fun estimateLoop :: "nat \<Rightarrow> rat \<Rightarrow> PacketNumber \<Rightarrow> PacketNumber \<Rightarrow> PacketNumber \<times> PacketNumber" where
  "estimateLoop 0 alpha est ackedCount = (est, ackedCount)"
| "estimateLoop (Suc fuel) alpha est ackedCount =
     (if ackedCount < requiredAckCount alpha est then (est, ackedCount)
      else estimateLoop fuel alpha (est + 1) (ackedCount - requiredAckCount alpha est))"

definition estimateTCP :: "Cubic \<Rightarrow> Cubic" where
  "estimateTCP c =
     (case estimateLoop (unat (cu_ackedPacketsCount c) + 1) (cubic_alpha c)
             (cu_estimatedTCPcongestionWindow c) (cu_ackedPacketsCount c) of
        (est, ackedCount) \<Rightarrow>
          c\<lparr>cu_estimatedTCPcongestionWindow := est, cu_ackedPacketsCount := ackedCount\<rparr>)"

definition cubic_CongestionWindowAfterAck ::
    "gotime \<Rightarrow> PacketNumber \<Rightarrow> duration \<Rightarrow> Cubic \<Rightarrow> PacketNumber \<times> Cubic" where
  "cubic_CongestionWindowAfterAck currentTime currentCongestionWindow delayMin c =
     (let c = c\<lparr>cu_ackedPacketsCount := cu_ackedPacketsCount c + 1\<rparr>
      in if cu_lastCongestionWindow c = currentCongestionWindow \<and>
            time_Sub currentTime (cu_lastUpdateTime c) \<le> maxCubicTimeInterval
         then (MaxPacketNumber (cu_lastTargetCongestionWindow c) (cu_estimatedTCPcongestionWindow c), c)
         else let c = c\<lparr>cu_lastCongestionWindow := currentCongestionWindow, cu_lastUpdateTime := currentTime\<rparr>;
                  c = (if cu_epoch c = 0 then startEpoch currentTime currentCongestionWindow c
                       else shiftEpoch currentTime c);
                  target = cubicTarget currentTime delayMin c;
                  c = estimateTCP c;
                  c = c\<lparr>cu_lastTargetCongestionWindow := target\<rparr>
              in (if target < cu_estimatedTCPcongestionWindow c then cu_estimatedTCPcongestionWindow c
                  else target, c))"

definition cubic_SetNumConnections :: "int \<Rightarrow> Cubic \<Rightarrow> Cubic" where
  "cubic_SetNumConnections n c = c\<lparr>cu_numConnections := n\<rparr>"

section \<open>The factors\<close>

lemma float32_between:
  assumes "of_int m \<le> x" "x \<le> of_int n" "0 \<le> m" "n \<le> 2 ^ 24"
  shows "of_int m \<le> float32 x \<and> float32 x \<le> of_int n"
proof -
  have "m \<le> n" using assms(1,2) by (metis of_int_le_iff order_trans)
  then show ?thesis using assms fround_ge_int [where n = m and x = x and p = 24] fround_le_int [where n = n and x = x and p = 24]
    by (auto simp: float32_def)
qed

lemma float32_int: "0 \<le> n \<Longrightarrow> n \<le> 2 ^ 24 \<Longrightarrow> float32 (of_int n) = of_int n"
  using fround_int [of n 24] by (simp add: float32_def)

lemma ensembleBeta_range:
  assumes "0 \<le> b" "b \<le> 1" "1 \<le> n" "n \<le> 2 ^ 24"
  shows "0 \<le> ensembleBeta b n \<and> ensembleBeta b n \<le> 1"
proof -
  have "float32 (of_int n - 1) = of_int n - 1" using float32_int [of "n - 1"] assms(3,4) by simp
  moreover define s where "s = float32 (of_int n - 1 + b)"
  moreover have "0 \<le> s \<and> s \<le> of_int n"
    using float32_between [of "n - 1" "of_int n - 1 + b" n] assms by (auto simp: s_def)
  ultimately show ?thesis
    using float32_between [of 0 "s / of_int n" 1] float32_int [of n] assms(3,4)
    by (simp add: ensembleBeta_def)
qed

lemma windowTimes_le:
  assumes "0 \<le> x" "x \<le> 1" "w \<le> 2 ^ 24"
  shows "windowTimes w x \<le> w"
proof -
  define n where "n = uint w"
  define y where "y = float32 (of_int n * x)"
  have n: "n \<le> 2 ^ 24" "0 \<le> n" using assms(3) by (simp_all add: word_le_def n_def)
  have "of_int n * x \<le> of_int n * 1" using assms(2) n(2) by (intro mult_left_mono) auto
  then have y: "0 \<le> y \<and> y \<le> of_int n"
    using float32_between [of 0 "of_int n * x" n] assms(1) n by (simp add: y_def)
  then have f: "\<lfloor>y\<rfloor> \<le> n" "0 \<le> \<lfloor>y\<rfloor>" by linarith+
  have "windowTimes w x = word_of_int \<lfloor>y\<rfloor>"
    unfolding windowTimes_def n_def [symmetric] float32_int [OF n(2,1)] y_def [symmetric]
    using y f n by (simp add: uint64_of_float_def trunc_rat_def)
  moreover have "n < 2 ^ 64" using n(1) by simp
  moreover have "\<lfloor>y\<rfloor> mod 2 ^ 64 = \<lfloor>y\<rfloor>"
    using le_less_trans [OF f(1) \<open>n < 2 ^ 64\<close>] by (rule mod_pos_pos_trivial [OF f(2)])
  ultimately show ?thesis using f by (simp add: word_le_def uint_word_of_int n_def)
qed

section \<open>The estimate of a Reno window\<close>

lemma requiredAckCount_pos:
  assumes "0 < alpha" "alpha \<le> 1" "est \<noteq> 0"
  shows "requiredAckCount alpha est \<noteq> 0"
proof -
  define n where "n = uint est"
  define x where "x = float32 (of_int n)"
  have "1 \<le> n" using assms(3) by (simp add: word_neq_0_conv word_less_def n_def)
  then have "1 \<le> x" using fround_ge_int [where n = 1 and x = "of_int n" and p = 24] by (simp add: x_def float32_def)
  then have "1 \<le> x / alpha" using assms(1,2) by (simp add: field_simps)
  then have "1 \<le> float32 (x / alpha)" using fround_ge_int [where n = 1 and x = "x / alpha" and p = 24] by (simp add: float32_def)
  then have t: "1 \<le> trunc_rat (float32 (x / alpha))" by (simp add: trunc_rat_def)
  show ?thesis
    using t by (auto simp: requiredAckCount_def n_def [symmetric] x_def [symmetric] uint64_of_float_def Let_def word_of_int_eq_0_iff
        dest: zdvd_imp_le)
qed

text \<open>
  The loop of the code ends: with one more step of fuel than packets were acknowledged, it stops by its own
  condition. Every increment of the estimate consumes an acknowledged packet.
\<close>

lemma estimateLoop_ends:
  assumes "0 < alpha" "alpha \<le> 1" "est \<noteq> 0" "unat ackedCount < fuel" "unat est + unat ackedCount < 2 ^ 64"
    and "estimateLoop fuel alpha est ackedCount = (est', acked')"
  shows "acked' < requiredAckCount alpha est' \<and> est \<le> est' \<and>
    unat est' + unat acked' \<le> unat est + unat ackedCount"
  using assms(3-)
proof (induction fuel arbitrary: est ackedCount)
  case (Suc fuel)
  define r where "r = requiredAckCount alpha est"
  show ?case
  proof (cases "ackedCount < r")
    case True
    then show ?thesis using Suc.prems by (simp add: r_def)
  next
    case False
    then have r: "r \<le> ackedCount" "r \<noteq> 0" using requiredAckCount_pos assms(1,2) Suc.prems(1) by (auto simp: r_def)
    then have u: "unat (ackedCount - r) = unat ackedCount - unat r" "0 < unat r" "unat r \<le> unat ackedCount"
      by (simp_all add: unat_sub unat_gt_0 word_le_nat_alt)
    then have e: "unat (est + 1) = unat est + 1" using Suc.prems(3) by (simp add: unat_word_ariths)
    then have "est + 1 \<noteq> 0" "est \<le> est + 1" by (auto simp: word_le_nat_alt)
    moreover have "estimateLoop fuel alpha (est + 1) (ackedCount - r) = (est', acked')"
      using Suc.prems(4) False by (simp add: r_def)
    ultimately have "acked' < requiredAckCount alpha est' \<and> est + 1 \<le> est' \<and>
        unat est' + unat acked' \<le> unat (est + 1) + unat (ackedCount - r)"
      using Suc.IH [of "est + 1" "ackedCount - r"] Suc.prems(2,3) u e by linarith
    then show ?thesis using u e \<open>est \<le> est + 1\<close> by auto
  qed
qed simp

lemma estimateLoop_more:
  "estimateLoop fuel alpha est acked = (est', acked') \<Longrightarrow> acked' < requiredAckCount alpha est' \<Longrightarrow>
   estimateLoop (fuel + extra) alpha est acked = (est', acked')"
proof (induction fuel arbitrary: est acked)
  case 0
  then show ?case by (cases extra) auto
qed (auto split: if_splits)

end
