(* ===== verification/Cubic_Sender.thy ===== *)
theory Cubic_Sender
imports Cubic
begin

text \<open>
  The CUBIC sender (\<^verbatim>\<open>congestion/cubic_sender.go\<close>). Its struct shares all fields but two with the
  OLIA sender of \<^verbatim>\<open>olia_sender.go\<close>, and most methods are the same code: these fields are the record
  \<open>sender\<close>, which both senders extend, and these methods are defined on it once.
\<close>

section \<open>Definitions\<close>

definition maxBurstBytes :: ByteCount where "maxBurstBytes = 3 * DefaultTCPMSS"
definition defaultMinimumCongestionWindow :: PacketNumber where "defaultMinimumCongestionWindow = 2"
definition renoBeta :: rat where "renoBeta = float32 (7 / 10)"
definition InitialCongestionWindow :: PacketNumber where "InitialCongestionWindow = 32"

record sender =
  sd_hybridSlowStart :: HybridSlowStart
  sd_prr :: PrrSender
  sd_rttStats :: RTTStats
  sd_stats :: connectionStats
  sd_largestSentPacketNumber :: PacketNumber
  sd_largestAckedPacketNumber :: PacketNumber
  sd_largestSentAtLastCutback :: PacketNumber
  sd_congestionWindow :: PacketNumber
  sd_slowstartThreshold :: PacketNumber
  sd_lastCutbackExitedSlowstart :: bool
  sd_slowStartLargeReduction :: bool
  sd_minCongestionWindow :: PacketNumber
  sd_maxTCPCongestionWindow :: PacketNumber
  sd_numConnections :: int
  sd_congestionWindowCount :: ByteCount
  sd_initialCongestionWindow :: PacketNumber
  sd_initialMaxCongestionWindow :: PacketNumber

record cubicSender = sender +
  cs_cubic :: Cubic
  cs_reno :: bool

definition NewCubicSender :: "RTTStats \<Rightarrow> bool \<Rightarrow> PacketNumber \<Rightarrow> PacketNumber \<Rightarrow> cubicSender" where
  "NewCubicSender rttStats reno initialCongestionWindow initialMaxCongestionWindow =
     \<lparr>sd_hybridSlowStart = newHybridSlowStart, sd_prr = newPrrSender, sd_rttStats = rttStats,
      sd_stats = newConnectionStats, sd_largestSentPacketNumber = 0, sd_largestAckedPacketNumber = 0,
      sd_largestSentAtLastCutback = 0, sd_congestionWindow = initialCongestionWindow,
      sd_slowstartThreshold = initialMaxCongestionWindow, sd_lastCutbackExitedSlowstart = False,
      sd_slowStartLargeReduction = False, sd_minCongestionWindow = defaultMinimumCongestionWindow,
      sd_maxTCPCongestionWindow = initialMaxCongestionWindow, sd_numConnections = defaultNumConnections,
      sd_congestionWindowCount = 0, sd_initialCongestionWindow = initialCongestionWindow,
      sd_initialMaxCongestionWindow = initialMaxCongestionWindow, cs_cubic = NewCubic, cs_reno = reno\<rparr>"

definition InRecovery :: "'a sender_scheme \<Rightarrow> bool" where
  "InRecovery c \<longleftrightarrow> sd_largestAckedPacketNumber c \<le> sd_largestSentAtLastCutback c \<and>
     sd_largestAckedPacketNumber c \<noteq> 0"

definition GetCongestionWindow :: "'a sender_scheme \<Rightarrow> ByteCount" where
  "GetCongestionWindow c = sd_congestionWindow c * DefaultTCPMSS"

definition GetSlowStartThreshold :: "'a sender_scheme \<Rightarrow> ByteCount" where
  "GetSlowStartThreshold c = sd_slowstartThreshold c * DefaultTCPMSS"

definition InSlowStart :: "'a sender_scheme \<Rightarrow> bool" where
  "InSlowStart c \<longleftrightarrow> GetCongestionWindow c < GetSlowStartThreshold c"

definition TimeUntilSend :: "gotime \<Rightarrow> ByteCount \<Rightarrow> 'a sender_scheme \<Rightarrow> duration" where
  "TimeUntilSend now bytesInFlight c =
     (if InRecovery c
      then prr_TimeUntilSend (GetCongestionWindow c) bytesInFlight (GetSlowStartThreshold c) (sd_prr c)
      else if GetCongestionWindow c > bytesInFlight then 0
      else InfDuration)"

definition OnPacketSent ::
    "gotime \<Rightarrow> ByteCount \<Rightarrow> PacketNumber \<Rightarrow> ByteCount \<Rightarrow> bool \<Rightarrow> 'a sender_scheme \<Rightarrow> bool \<times> 'a sender_scheme" where
  "OnPacketSent sentTime bytesInFlight packetNumber bytes isRetransmittable c =
     (if \<not> isRetransmittable then (False, c)
      else let c = (if InRecovery c then c\<lparr>sd_prr := prr_OnPacketSent bytes (sd_prr c)\<rparr> else c)
           in (True, c\<lparr>sd_largestSentPacketNumber := packetNumber,
                       sd_hybridSlowStart := hss_OnPacketSent packetNumber (sd_hybridSlowStart c)\<rparr>))"

definition ExitSlowstart :: "'a sender_scheme \<Rightarrow> 'a sender_scheme" where
  "ExitSlowstart c = c\<lparr>sd_slowstartThreshold := sd_congestionWindow c\<rparr>"

definition MaybeExitSlowStart :: "'a sender_scheme \<Rightarrow> 'a sender_scheme" where
  "MaybeExitSlowStart c =
     (if InSlowStart c
      then case ShouldExitSlowStart (rtt_latestRTT (sd_rttStats c)) (rtt_minRTT (sd_rttStats c))
                  (GetCongestionWindow c div DefaultTCPMSS) (sd_hybridSlowStart c) of
             (exit, s) \<Rightarrow> let c = c\<lparr>sd_hybridSlowStart := s\<rparr> in if exit then ExitSlowstart c else c
      else c)"

definition isCwndLimited :: "ByteCount \<Rightarrow> 'a sender_scheme \<Rightarrow> bool" where
  "isCwndLimited bytesInFlight c =
     (let congestionWindow = GetCongestionWindow c
      in if bytesInFlight \<ge> congestionWindow then True
         else let availableBytes = congestionWindow - bytesInFlight;
                  slowStartLimited = (InSlowStart c \<and> bytesInFlight > congestionWindow div 2)
              in slowStartLimited \<or> availableBytes \<le> maxBurstBytes)"

definition RenoBeta :: "'a sender_scheme \<Rightarrow> rat" where
  "RenoBeta c = ensembleBeta renoBeta (sd_numConnections c)"

text \<open>A loss in the window that was already cut back, and the first loss of a new one.\<close>

definition lossAfterCutback :: "ByteCount \<Rightarrow> 'a sender_scheme \<Rightarrow> 'a sender_scheme" where
  "lossAfterCutback lostBytes c =
     (if sd_lastCutbackExitedSlowstart c
      then let st = sd_stats c;
               st = st\<lparr>st_slowstartPacketsLost := st_slowstartPacketsLost st + 1,
                       st_slowstartBytesLost := st_slowstartBytesLost st + lostBytes\<rparr>;
               c = c\<lparr>sd_stats := st\<rparr>
           in if sd_slowStartLargeReduction c
              then let c = (if st_slowstartPacketsLost st = 1 \<or>
                               st_slowstartBytesLost st div DefaultTCPMSS
                               > (st_slowstartBytesLost st - lostBytes) div DefaultTCPMSS
                            then c\<lparr>sd_congestionWindow :=
                                     MaxPacketNumber (sd_congestionWindow c - 1) (sd_minCongestionWindow c)\<rparr>
                            else c)
                   in c\<lparr>sd_slowstartThreshold := sd_congestionWindow c\<rparr>
              else c
      else c)"

definition beginCutback :: "ByteCount \<Rightarrow> 'a sender_scheme \<Rightarrow> 'a sender_scheme" where
  "beginCutback bytesInFlight c =
     (let c = c\<lparr>sd_lastCutbackExitedSlowstart := InSlowStart c\<rparr>;
          c = (if InSlowStart c
               then c\<lparr>sd_stats := (sd_stats c)\<lparr>st_slowstartPacketsLost := st_slowstartPacketsLost (sd_stats c) + 1\<rparr>\<rparr>
               else c)
      in c\<lparr>sd_prr := prr_OnPacketLost bytesInFlight (sd_prr c)\<rparr>)"

definition endCutback :: "'a sender_scheme \<Rightarrow> 'a sender_scheme" where
  "endCutback c =
     (let c = (if sd_congestionWindow c < sd_minCongestionWindow c
               then c\<lparr>sd_congestionWindow := sd_minCongestionWindow c\<rparr> else c)
      in c\<lparr>sd_slowstartThreshold := sd_congestionWindow c,
           sd_largestSentAtLastCutback := sd_largestSentPacketNumber c,
           sd_congestionWindowCount := 0\<rparr>)"

definition cs_reduceWindow :: "cubicSender \<Rightarrow> cubicSender" where
  "cs_reduceWindow c =
     (if sd_slowStartLargeReduction c \<and> InSlowStart c
      then c\<lparr>sd_congestionWindow := sd_congestionWindow c - 1\<rparr>
      else if cs_reno c
      then c\<lparr>sd_congestionWindow := windowTimes (sd_congestionWindow c) (RenoBeta c)\<rparr>
      else case CongestionWindowAfterPacketLoss (sd_congestionWindow c) (cs_cubic c) of
             (w, cubic) \<Rightarrow> c\<lparr>sd_congestionWindow := w, cs_cubic := cubic\<rparr>)"

definition cs_OnPacketLost :: "PacketNumber \<Rightarrow> ByteCount \<Rightarrow> ByteCount \<Rightarrow> cubicSender \<Rightarrow> cubicSender" where
  "cs_OnPacketLost packetNumber lostBytes bytesInFlight c =
     (if packetNumber \<le> sd_largestSentAtLastCutback c then lossAfterCutback lostBytes c
      else endCutback (cs_reduceWindow (beginCutback bytesInFlight c)))"

definition cs_maybeIncreaseCwnd :: "gotime \<Rightarrow> ByteCount \<Rightarrow> cubicSender \<Rightarrow> cubicSender" where
  "cs_maybeIncreaseCwnd now bytesInFlight c =
     (if \<not> isCwndLimited bytesInFlight c then c\<lparr>cs_cubic := OnApplicationLimited now (cs_cubic c)\<rparr>
      else if sd_congestionWindow c \<ge> sd_maxTCPCongestionWindow c then c
      else if InSlowStart c then c\<lparr>sd_congestionWindow := sd_congestionWindow c + 1\<rparr>
      else if cs_reno c
      then let c = c\<lparr>sd_congestionWindowCount := sd_congestionWindowCount c + 1\<rparr>
           in if sd_congestionWindowCount c * word_of_int (sd_numConnections c) \<ge> sd_congestionWindow c
              then c\<lparr>sd_congestionWindow := sd_congestionWindow c + 1, sd_congestionWindowCount := 0\<rparr>
              else c
      else case cubic_CongestionWindowAfterAck now (sd_congestionWindow c) (rtt_minRTT (sd_rttStats c)) (cs_cubic c) of
             (w, cubic) \<Rightarrow>
               c\<lparr>sd_congestionWindow := MinPacketNumber (sd_maxTCPCongestionWindow c) w, cs_cubic := cubic\<rparr>)"

definition cs_OnPacketAcked :: "gotime \<Rightarrow> PacketNumber \<Rightarrow> ByteCount \<Rightarrow> ByteCount \<Rightarrow> cubicSender \<Rightarrow> cubicSender" where
  "cs_OnPacketAcked now ackedPacketNumber ackedBytes bytesInFlight c =
     (let c = c\<lparr>sd_largestAckedPacketNumber := MaxPacketNumber ackedPacketNumber (sd_largestAckedPacketNumber c)\<rparr>
      in if InRecovery c then c\<lparr>sd_prr := prr_OnPacketAcked ackedBytes (sd_prr c)\<rparr>
         else let c = cs_maybeIncreaseCwnd now bytesInFlight c
              in if InSlowStart c
                 then c\<lparr>sd_hybridSlowStart := hss_OnPacketAcked ackedPacketNumber (sd_hybridSlowStart c)\<rparr>
                 else c)"

definition BandwidthEstimate :: "'a sender_scheme \<Rightarrow> uint64" where
  "BandwidthEstimate c =
     (let srtt = rtt_smoothedRTT (sd_rttStats c)
      in if srtt = 0 then 0 else BandwidthFromDelta (GetCongestionWindow c) srtt)"

definition cs_SetNumEmulatedConnections :: "int \<Rightarrow> cubicSender \<Rightarrow> cubicSender" where
  "cs_SetNumEmulatedConnections n c =
     (let c = c\<lparr>sd_numConnections := Max_int n 1\<rparr>
      in c\<lparr>cs_cubic := cubic_SetNumConnections (sd_numConnections c) (cs_cubic c)\<rparr>)"

definition halveThreshold :: "'a sender_scheme \<Rightarrow> 'a sender_scheme" where
  "halveThreshold c =
     c\<lparr>sd_slowstartThreshold := sd_congestionWindow c div 2, sd_congestionWindow := sd_minCongestionWindow c\<rparr>"

definition cs_OnRetransmissionTimeout :: "bool \<Rightarrow> cubicSender \<Rightarrow> cubicSender" where
  "cs_OnRetransmissionTimeout packetsRetransmitted c =
     (let c = c\<lparr>sd_largestSentAtLastCutback := 0\<rparr>
      in if \<not> packetsRetransmitted then c
         else halveThreshold (c\<lparr>sd_hybridSlowStart := hss_Restart (sd_hybridSlowStart c),
                                cs_cubic := cubic_Reset (cs_cubic c)\<rparr>))"

definition migrate :: "'a sender_scheme \<Rightarrow> 'a sender_scheme" where
  "migrate c =
     c\<lparr>sd_hybridSlowStart := hss_Restart (sd_hybridSlowStart c), sd_prr := newPrrSender,
       sd_largestSentPacketNumber := 0, sd_largestAckedPacketNumber := 0, sd_largestSentAtLastCutback := 0,
       sd_lastCutbackExitedSlowstart := False, sd_congestionWindowCount := 0,
       sd_congestionWindow := sd_initialCongestionWindow c,
       sd_slowstartThreshold := sd_initialMaxCongestionWindow c,
       sd_maxTCPCongestionWindow := sd_initialMaxCongestionWindow c\<rparr>"

definition cs_OnConnectionMigration :: "cubicSender \<Rightarrow> cubicSender" where
  "cs_OnConnectionMigration c = migrate (c\<lparr>cs_cubic := cubic_Reset (cs_cubic c)\<rparr>)"

definition SetSlowStartLargeReduction :: "bool \<Rightarrow> 'a sender_scheme \<Rightarrow> 'a sender_scheme" where
  "SetSlowStartLargeReduction enabled c = c\<lparr>sd_slowStartLargeReduction := enabled\<rparr>"

definition RetransmissionDelay :: "'a sender_scheme \<Rightarrow> duration" where
  "RetransmissionDelay c =
     (if rtt_smoothedRTT (sd_rttStats c) = 0 then 0
      else int64 (rtt_smoothedRTT (sd_rttStats c) + int64 (rtt_meanDeviation (sd_rttStats c) * 4)))"

definition SmoothedRTT :: "'a sender_scheme \<Rightarrow> duration" where
  "SmoothedRTT c = rtt_smoothedRTT (sd_rttStats c)"

definition cubic_algorithm :: "cubicSender SendAlgorithm" where
  "cubic_algorithm =
     \<lparr>sa_rttStats = sd_rttStats, sa_setRTTStats = \<lambda>r c. c\<lparr>sd_rttStats := r\<rparr>,
      sa_TimeUntilSend = TimeUntilSend, sa_OnPacketSent = OnPacketSent,
      sa_GetCongestionWindow = GetCongestionWindow, sa_MaybeExitSlowStart = MaybeExitSlowStart,
      sa_OnPacketAcked = cs_OnPacketAcked, sa_OnPacketLost = cs_OnPacketLost,
      sa_SetNumEmulatedConnections = cs_SetNumEmulatedConnections,
      sa_OnRetransmissionTimeout = cs_OnRetransmissionTimeout,
      sa_OnConnectionMigration = cs_OnConnectionMigration, sa_RetransmissionDelay = RetransmissionDelay,
      sa_SmoothedRTT = SmoothedRTT, sa_SetSlowStartLargeReduction = SetSlowStartLargeReduction\<rparr>"

section \<open>The window stays within its bounds\<close>

text \<open>
  The invariant of the window computation counts the acknowledgements: the estimate of a Reno window and the
  acknowledged packets that it has yet to consume are at most the largest window plus their number, so no
  addition wraps around within the first \<open>2 ^ 62\<close> acknowledgements.
\<close>

definition cubic_inv :: "nat \<Rightarrow> PacketNumber \<Rightarrow> Cubic \<Rightarrow> bool" where
  "cubic_inv k hi c \<longleftrightarrow> cu_numConnections c = 2 \<and>
     (cu_lastCongestionWindow c \<noteq> 0 \<or> cu_epoch c \<noteq> 0 \<longrightarrow> 2 \<le> cu_estimatedTCPcongestionWindow c) \<and>
     unat (cu_estimatedTCPcongestionWindow c) + unat (cu_ackedPacketsCount c) \<le> unat hi + k"

lemma alpha_two: "cu_numConnections c = 2 \<Longrightarrow> 0 < cubic_alpha c \<and> cubic_alpha c \<le> 1"
  unfolding cubic_alpha_def cubic_beta_def by (simp only:) code_simp

lemma estimateTCP_inv:
  assumes "cubic_inv k hi c" "2 \<le> cu_estimatedTCPcongestionWindow c" "unat hi + k < 2 ^ 64"
  shows "cubic_inv k hi (estimateTCP c) \<and> 2 \<le> cu_estimatedTCPcongestionWindow (estimateTCP c)"
proof -
  obtain est' acked' where e: "estimateLoop (unat (cu_ackedPacketsCount c) + 1) (cubic_alpha c)
      (cu_estimatedTCPcongestionWindow c) (cu_ackedPacketsCount c) = (est', acked')" by fastforce
  have "cu_estimatedTCPcongestionWindow c \<noteq> 0" using assms(2) by auto
  from estimateLoop_ends [OF _ _ this _ _ e] assms alpha_two [of c]
  have "cu_estimatedTCPcongestionWindow c \<le> est' \<and>
      unat est' + unat acked' \<le> unat (cu_estimatedTCPcongestionWindow c) + unat (cu_ackedPacketsCount c)"
    by (auto simp: cubic_inv_def)
  then show ?thesis using e assms by (auto simp: estimateTCP_def cubic_inv_def)
qed

lemma cubic_CongestionWindowAfterAck_inv:
  assumes "cubic_inv k hi c" "2 \<le> cur" "cur \<le> hi" "unat hi + Suc k < 2 ^ 64"
    and "cubic_CongestionWindowAfterAck now cur delayMin c = (w, c')"
  shows "cubic_inv (Suc k) hi c' \<and> 2 \<le> w"
proof -
  define c1 where "c1 = c\<lparr>cu_ackedPacketsCount := cu_ackedPacketsCount c + 1\<rparr>"
  have "unat (cu_ackedPacketsCount c + 1) \<le> unat (cu_ackedPacketsCount c) + 1" by (simp add: unat_word_ariths)
  then have c1: "cubic_inv (Suc k) hi c1" using assms(1) by (simp add: cubic_inv_def c1_def)
  have cur: "cur \<noteq> 0" using assms(2) by auto
  show ?thesis
  proof (cases "cu_lastCongestionWindow c1 = cur \<and> time_Sub now (cu_lastUpdateTime c1) \<le> maxCubicTimeInterval")
    case True
    then have "w = max (cu_lastTargetCongestionWindow c1) (cu_estimatedTCPcongestionWindow c1)" "c' = c1"
      using assms(5) by (auto simp: cubic_CongestionWindowAfterAck_def c1_def minmax)
    then show ?thesis using c1 True cur by (auto simp: cubic_inv_def le_max_iff_disj)
  next
    case False
    define c2 where "c2 = c1\<lparr>cu_lastCongestionWindow := cur, cu_lastUpdateTime := now\<rparr>"
    define c3 where "c3 = (if cu_epoch c2 = 0 then startEpoch now cur c2 else shiftEpoch now c2)"
    have le: "unat cur \<le> unat hi" using assms(3) by (simp add: word_le_nat_alt)
    have c3: "cubic_inv (Suc k) hi c3 \<and> 2 \<le> cu_estimatedTCPcongestionWindow c3"
      using c1 assms(2) le by (auto simp: c3_def c2_def startEpoch_def shiftEpoch_def cubic_inv_def Let_def)
    note e = estimateTCP_inv [OF c3 [THEN conjunct1] c3 [THEN conjunct2] assms(4)]
    have "w = max (cubicTarget now delayMin c3) (cu_estimatedTCPcongestionWindow (estimateTCP c3))"
      "c' = (estimateTCP c3)\<lparr>cu_lastTargetCongestionWindow := cubicTarget now delayMin c3\<rparr>"
      using assms(5) False
      by (auto simp: cubic_CongestionWindowAfterAck_def Let_def c1_def [symmetric] c2_def [symmetric] c3_def [symmetric] max_def)
    then show ?thesis using e by (simp add: cubic_inv_def le_max_iff_disj)
  qed
qed

definition sender_inv :: "PacketNumber \<Rightarrow> 'a sender_scheme \<Rightarrow> bool" where
  "sender_inv hi c \<longleftrightarrow> sd_minCongestionWindow c = 2 \<and> sd_numConnections c = 2 \<and>
     2 \<le> sd_congestionWindow c \<and> sd_congestionWindow c \<le> sd_maxTCPCongestionWindow c \<and>
     sd_maxTCPCongestionWindow c = sd_initialMaxCongestionWindow c \<and>
     2 \<le> sd_initialCongestionWindow c \<and> sd_initialCongestionWindow c \<le> hi \<and>
     sd_initialMaxCongestionWindow c = hi \<and> hi \<le> 2 ^ 24"

definition cs_inv :: "PacketNumber \<Rightarrow> nat \<Rightarrow> cubicSender \<Rightarrow> bool" where
  "cs_inv hi k c \<longleftrightarrow> sender_inv hi c \<and> cubic_inv k (sd_maxTCPCongestionWindow c) (cs_cubic c)"

lemma sender_inv_fields [simp]:
  "sender_inv hi (c\<lparr>sd_hybridSlowStart := x1\<rparr>) = sender_inv hi c"
  "sender_inv hi (c\<lparr>sd_prr := x2\<rparr>) = sender_inv hi c"
  "sender_inv hi (c\<lparr>sd_rttStats := x3\<rparr>) = sender_inv hi c"
  "sender_inv hi (c\<lparr>sd_stats := x4\<rparr>) = sender_inv hi c"
  "sender_inv hi (c\<lparr>sd_largestSentPacketNumber := x5\<rparr>) = sender_inv hi c"
  "sender_inv hi (c\<lparr>sd_largestAckedPacketNumber := x6\<rparr>) = sender_inv hi c"
  "sender_inv hi (c\<lparr>sd_largestSentAtLastCutback := x7\<rparr>) = sender_inv hi c"
  "sender_inv hi (c\<lparr>sd_slowstartThreshold := x8\<rparr>) = sender_inv hi c"
  "sender_inv hi (c\<lparr>sd_lastCutbackExitedSlowstart := x9\<rparr>) = sender_inv hi c"
  "sender_inv hi (c\<lparr>sd_congestionWindowCount := x10\<rparr>) = sender_inv hi c"
  "sender_inv hi (c\<lparr>sd_slowStartLargeReduction := x11\<rparr>) = sender_inv hi c"
  by (simp_all add: sender_inv_def)

lemma sender_inv_cubic [simp]: "sender_inv hi (c\<lparr>cs_cubic := x\<rparr>) = sender_inv hi c" for c :: cubicSender
  by (simp add: sender_inv_def)

lemma cubic_inv_limited [simp]: "cubic_inv k hi (OnApplicationLimited now c) = cubic_inv k hi c"
  by (simp add: cubic_inv_def OnApplicationLimited_def)

text \<open>The methods shared by both senders, with the fields of the window they leave alone.\<close>

lemma sender_inv_ops:
  assumes "sender_inv hi c"
  shows "sender_inv hi (snd (OnPacketSent t b n l r c))" "sender_inv hi (MaybeExitSlowStart c)"
    "sender_inv hi (beginCutback b c)" "sender_inv hi (lossAfterCutback b c)" "sender_inv hi (halveThreshold c)" "sender_inv hi (migrate c)"
proof -
  show "sender_inv hi (snd (OnPacketSent t b n l r c))" using assms by (simp add: OnPacketSent_def Let_def)
  show "sender_inv hi (MaybeExitSlowStart c)"
    using assms by (simp add: MaybeExitSlowStart_def ExitSlowstart_def Let_def split: prod.split)
  show "sender_inv hi (beginCutback b c)" using assms by (simp add: beginCutback_def Let_def)
  show "sender_inv hi (halveThreshold c)" "sender_inv hi (migrate c)"
    using assms by (auto simp: halveThreshold_def migrate_def sender_inv_def)
  have "2 \<le> sd_congestionWindow c" "sd_congestionWindow c \<le> sd_maxTCPCongestionWindow c"
    using assms by (auto simp: sender_inv_def)
  then have "sd_congestionWindow c - 1 \<le> sd_maxTCPCongestionWindow c" "2 \<le> sd_maxTCPCongestionWindow c"
    by (unat_arith | auto)+
  then show "sender_inv hi (lossAfterCutback b c)"
    using assms by (auto simp: lossAfterCutback_def Let_def sender_inv_def minmax le_max_iff_disj)
qed

lemma sender_sel [simp]:
  "sd_maxTCPCongestionWindow (snd (OnPacketSent t b n l r c)) = sd_maxTCPCongestionWindow c"
  "sd_maxTCPCongestionWindow (MaybeExitSlowStart c) = sd_maxTCPCongestionWindow c"
  "sd_maxTCPCongestionWindow (beginCutback b c) = sd_maxTCPCongestionWindow c"
  "sd_maxTCPCongestionWindow (lossAfterCutback b c) = sd_maxTCPCongestionWindow c"
  "sd_maxTCPCongestionWindow (endCutback c) = sd_maxTCPCongestionWindow c"
  "sd_maxTCPCongestionWindow (halveThreshold c) = sd_maxTCPCongestionWindow c"
  by (simp_all add: OnPacketSent_def MaybeExitSlowStart_def ExitSlowstart_def beginCutback_def lossAfterCutback_def
      endCutback_def halveThreshold_def Let_def split: prod.split)

lemma cubic_sel [simp]:
  "cs_cubic (snd (OnPacketSent t b n l r c)) = cs_cubic c" "cs_cubic (MaybeExitSlowStart c) = cs_cubic c"
  "cs_cubic (beginCutback b c) = cs_cubic c" "cs_cubic (lossAfterCutback b c) = cs_cubic c"
  "cs_cubic (endCutback c) = cs_cubic c" "cs_cubic (halveThreshold c) = cs_cubic c"
  by (simp_all add: OnPacketSent_def MaybeExitSlowStart_def ExitSlowstart_def beginCutback_def lossAfterCutback_def
      endCutback_def halveThreshold_def Let_def split: prod.split)

lemma cs_inv_start:
  assumes "2 \<le> initial" "initial \<le> hi" "hi \<le> 2 ^ 24"
  shows "cs_inv hi 0 (NewCubicSender r reno initial hi)"
  using assms by (simp add: cs_inv_def sender_inv_def cubic_inv_def NewCubicSender_def NewCubic_def
      defaultNumConnections_def defaultMinimumCongestionWindow_def)

lemma cubicBeta_range: "0 \<le> cubicBeta \<and> cubicBeta \<le> 1" "0 \<le> renoBeta \<and> renoBeta \<le> 1"
  unfolding cubicBeta_def renoBeta_def using float32_between [of 0 "7 / 10" 1] by simp_all

lemma AfterPacketLoss_sel:
  assumes "CongestionWindowAfterPacketLoss cur c = (w, c')"
  shows "w = windowTimes cur (cubic_beta c)" "cubic_inv k hi c \<Longrightarrow> cubic_inv k hi c'"
proof -
  obtain m where "c' = c\<lparr>cu_lastMaxCongestionWindow := m, cu_epoch := 0\<rparr>" "w = windowTimes cur (cubic_beta c')"
    using assms by (auto simp: CongestionWindowAfterPacketLoss_def Let_def split: if_splits)
  then show "w = windowTimes cur (cubic_beta c)" "cubic_inv k hi c \<Longrightarrow> cubic_inv k hi c'"
    by (simp_all add: cubic_beta_def cubic_inv_def)
qed

lemma cs_reduceWindow_inv:
  assumes "cs_inv hi k c" "cs_reduceWindow c = c'"
  shows "cs_inv hi k (endCutback c')"
proof -
  have i: "sender_inv hi c" "2 \<le> sd_congestionWindow c" "sd_congestionWindow c \<le> sd_maxTCPCongestionWindow c"
    "sd_congestionWindow c \<le> 2 ^ 24" "sd_numConnections c = 2" "cu_numConnections (cs_cubic c) = 2"
    using assms(1) by (auto simp: cs_inv_def sender_inv_def cubic_inv_def)
  have b: "windowTimes (sd_congestionWindow c) (ensembleBeta cubicBeta 2) \<le> sd_congestionWindow c"
      "windowTimes (sd_congestionWindow c) (ensembleBeta renoBeta 2) \<le> sd_congestionWindow c"
      "sd_congestionWindow c - 1 \<le> sd_congestionWindow c"
    using i(4) cubicBeta_range ensembleBeta_range [of cubicBeta 2] ensembleBeta_range [of renoBeta 2]
    by (auto intro!: windowTimes_le) (use i(2) in unat_arith)
  have "sd_congestionWindow c' \<le> sd_congestionWindow c"
    using assms(2) b i(5,6)
    by (auto simp: cs_reduceWindow_def RenoBeta_def cubic_beta_def dest!: AfterPacketLoss_sel(1)
        split: prod.splits if_splits)
  moreover have "sender_inv hi (c'\<lparr>sd_congestionWindow := sd_congestionWindow c\<rparr>)"
    using assms(2) i(1) by (auto simp: cs_reduceWindow_def sender_inv_def split: prod.splits if_splits)
  moreover have "cubic_inv k (sd_maxTCPCongestionWindow c') (cs_cubic c')"
    using assms by (auto simp: cs_reduceWindow_def cs_inv_def intro: AfterPacketLoss_sel(2) split: prod.splits if_splits)
  ultimately show ?thesis by (auto simp: endCutback_def Let_def cs_inv_def sender_inv_def)
qed

lemma cs_OnPacketLost_inv: "cs_inv hi k c \<Longrightarrow> cs_inv hi k (cs_OnPacketLost n l b c)"
  using cs_reduceWindow_inv [of hi k "beginCutback b c"] sender_inv_ops [of hi c]
  by (simp add: cs_OnPacketLost_def cs_inv_def)

lemma cs_maybeIncreaseCwnd_inv:
  assumes "cs_inv hi k c" "Suc k < 2 ^ 62"
  shows "cs_inv hi (Suc k) (cs_maybeIncreaseCwnd now b c)"
proof -
  have i: "sender_inv hi c" "2 \<le> sd_congestionWindow c" "sd_congestionWindow c \<le> sd_maxTCPCongestionWindow c"
    "cubic_inv k (sd_maxTCPCongestionWindow c) (cs_cubic c)" "sd_maxTCPCongestionWindow c \<le> 2 ^ 24"
    using assms(1) by (auto simp: cs_inv_def sender_inv_def)
  have k: "unat (sd_maxTCPCongestionWindow c) + Suc k < 2 ^ 64"
    using i(5) assms(2) by (simp add: word_le_nat_alt)
  obtain w cubic where w: "cubic_CongestionWindowAfterAck now (sd_congestionWindow c) (rtt_minRTT (sd_rttStats c)) (cs_cubic c)
      = (w, cubic)" by fastforce
  note a = cubic_CongestionWindowAfterAck_inv [OF i(4,2,3) k w]
  have c: "cubic_inv (Suc k) (sd_maxTCPCongestionWindow c) (cs_cubic c)" using i(4) by (auto simp: cubic_inv_def)
  have grow: "sender_inv hi (c\<lparr>sd_congestionWindow := sd_congestionWindow c + 1\<rparr>)"
    if "\<not> sd_maxTCPCongestionWindow c \<le> sd_congestionWindow c"
  proof -
    have "sd_congestionWindow c + 1 \<le> sd_maxTCPCongestionWindow c" "2 \<le> sd_congestionWindow c + 1"
      using that i(2) by unat_arith+
    then show ?thesis using i(1) by (auto simp: sender_inv_def)
  qed
  have "sender_inv hi (c\<lparr>sd_congestionWindow := min (sd_maxTCPCongestionWindow c) w\<rparr>)"
    using i(1) a by (auto simp: sender_inv_def min_le_iff_disj)
  with a c i(1) grow show ?thesis
    by (simp add: cs_maybeIncreaseCwnd_def Let_def cs_inv_def minmax w)
qed

lemma cs_OnPacketAcked_inv:
  assumes "cs_inv hi k c" "Suc k < 2 ^ 62"
  shows "cs_inv hi (Suc k) (cs_OnPacketAcked now n l b c)"
proof -
  define c1 where "c1 = c\<lparr>sd_largestAckedPacketNumber := MaxPacketNumber n (sd_largestAckedPacketNumber c)\<rparr>"
  have "cs_inv hi k c1" using assms(1) by (simp add: c1_def cs_inv_def)
  then have "cs_inv hi (Suc k) c1" "cs_inv hi (Suc k) (cs_maybeIncreaseCwnd now b c1)"
    using cs_maybeIncreaseCwnd_inv [OF _ assms(2)] by (auto simp: cs_inv_def cubic_inv_def)
  then show ?thesis by (simp add: cs_OnPacketAcked_def Let_def c1_def [symmetric] cs_inv_def)
qed

lemma cs_OnRetransmissionTimeout_inv: "cs_inv hi k c \<Longrightarrow> cs_inv hi k (cs_OnRetransmissionTimeout r c)"
  by (auto simp: cs_OnRetransmissionTimeout_def cs_inv_def Let_def cubic_Reset_def cubic_inv_def intro!: sender_inv_ops)

text \<open>
  A sender as a path creates it; the round-trip time estimator is shared with the path. The invariant speaks of
  the first \<open>2 ^ 62\<close> acknowledged packets.
\<close>

definition cubic_start :: "cubicSender \<Rightarrow> bool" where
  "cubic_start c \<longleftrightarrow> (\<exists>r reno. c = NewCubicSender r reno InitialCongestionWindow (of_nat DefaultMaxCongestionWindow))"

definition rtt_changed :: "'a sender_scheme \<Rightarrow> 'a sender_scheme \<Rightarrow> bool" where
  "rtt_changed c c' \<longleftrightarrow> (\<exists>r. c' = c\<lparr>sd_rttStats := r\<rparr>)"

interpretation cubic: congestion_controller cubic_algorithm "\<lambda>k c. k < 2 ^ 62 \<longrightarrow> cs_inv 2500 k c" cubic_start rtt_changed
proof
  show "cubic_start c \<Longrightarrow> 0 < 2 ^ 62 \<longrightarrow> cs_inv 2500 0 c" for c
    by (auto simp: cubic_start_def InitialCongestionWindow_def DefaultMaxCongestionWindow_def intro!: cs_inv_start)
qed (auto simp: cubic_algorithm_def rtt_changed_def cs_OnPacketAcked_inv cs_OnPacketLost_inv
      cs_OnRetransmissionTimeout_inv, auto simp: cs_inv_def sender_inv_ops)

end
