(* ===== verification/Loss_Recovery.thy ===== *)
theory Loss_Recovery
imports Cubic_Sender
begin

text \<open>
  Properties of loss recovery: runs of the sent packet handler of \<open>Sent_Handler\<close> with any congestion controller,
  and with the CUBIC sender of \<open>Cubic_Sender\<close>.
\<close>

section \<open>A concrete run\<close>

text \<open>A handler with a CUBIC sender that sends one packet with a \<^verbatim>\<open>PING\<close> frame.\<close>

definition first_handler :: "cubicSender sentPacketHandler" where
  "first_handler = NewSentPacketHandler
     (NewCubicSender NewRTTStats False InitialCongestionWindow (of_nat DefaultMaxCongestionWindow))"

definition first_time :: gotime where "first_time = 2 ^ 63 + 1"

definition first_packet :: Packet where
  "first_packet = \<lparr>pk_PacketNumber = 1, pk_Frames = [PingF PingFrame], pk_Length = 1200,
     pk_EncryptionLevel = EncryptionForwardSecure, pk_SendTime = 0\<rparr>"

definition second_handler :: "cubicSender sentPacketHandler" where
  "second_handler = (case sph_SentPacket cubic_algorithm first_time first_packet first_handler of Inr h \<Rightarrow> h | Inl _ \<Rightarrow> first_handler)"

definition first_ghost :: ghost where
  "first_ghost = \<lparr>g_sent = {#} + trackedPacket first_time first_packet, g_acked = {#}, g_out = {#}, g_dup = {#}\<rparr>"

lemma first_SentPacket: "sph_SentPacket cubic_algorithm first_time first_packet first_handler = Inr second_handler"
proof -
  have "\<not> isl (sph_SentPacket cubic_algorithm first_time first_packet first_handler)" by code_simp
  then show ?thesis by (auto simp: second_handler_def split: sum.splits)
qed

lemma first_run: "sph_run cubic_algorithm None cubic_start rtt_changed second_handler () first_ghost"
proof -
  have "cubic_start (sph_congestion first_handler)"
    by (auto simp: cubic_start_def first_handler_def NewSentPacketHandler_def)
  then have "sph_run cubic_algorithm None cubic_start rtt_changed first_handler ()
      \<lparr>g_sent = {#}, g_acked = {#}, g_out = {#}, g_dup = {#}\<rparr>"
    using sph_run.start [of cubic_start "sph_congestion first_handler"]
    by (simp add: first_handler_def NewSentPacketHandler_def)
  from sph_run.send [OF this _ first_SentPacket] show ?thesis
    by (simp add: first_ghost_def real_clock_def first_time_def)
qed

section \<open>Properties of runs\<close>

text \<open>
  (C7) No packet is forgotten. In every run of the sent packet handler, with any congestion
  controller, the packets with retransmittable frames that were sent, and those queued as duplicates,
  are exactly those that are still outstanding, queued for retransmission, acknowledged, or already
  handed out for retransmission; and the bytes in flight are the sum of the lengths of the
  outstanding packets.
\<close>

theorem no_packet_forgotten:
  assumes "sph_run alg cb init env h w g"
  shows "mset (sph_packetHistory h) + mset (sph_retransmissionQueue h) + g_acked g + g_out g = g_sent g + g_dup g \<and>
    sph_bytesInFlight h = sum_list (map pk_Length (sph_packetHistory h))"
  using conserved_run [OF assms] by (simp add: conserved_def sph_inv_def tracked_ok_def)

lemma second_state:
  "(let h = second_handler
    in sph_packetHistory h = [first_packet\<lparr>pk_SendTime := first_time\<rparr>] \<and> sph_retransmissionQueue h = [] \<and>
       sph_lossTime h = 0 \<and> hasOutstandingRetransmittablePacket h \<and> sph_lastSentPacketNumber h = 1 \<and>
       sph_largestReceivedPacketWithAck h = 0 \<and> sph_skippedPackets h = [])"
  by code_simp

lemmas second_history = second_state [unfolded Let_def, THEN conjunct1]
  second_state [unfolded Let_def, THEN conjunct2, THEN conjunct1]
  second_state [unfolded Let_def, THEN conjunct2, THEN conjunct2, THEN conjunct1]
  second_state [unfolded Let_def, THEN conjunct2, THEN conjunct2, THEN conjunct2, THEN conjunct1]

theorem no_packet_forgotten_witness:
  "mset (sph_packetHistory second_handler) = g_sent first_ghost \<and> sph_bytesInFlight second_handler = 1200"
  using no_packet_forgotten [OF first_run] by (simp add: second_history first_ghost_def first_packet_def)



text \<open>
  (C12) An ACK that is new, for packets that were sent, and not for skipped packet numbers removes exactly the packets it
  acknowledges. Of the other outstanding packets, those declared lost were sent before the largest
  acknowledged one and move to the retransmission queue in order; the rest stay outstanding.
\<close>

theorem ReceivedAck_removes_acked:
  assumes "sph_run alg cb init env h w g" "af_wf a"
    and "af_LargestAcked a \<le> sph_lastSentPacketNumber h" "sph_largestReceivedPacketWithAck h < wpn"
    and "largestInOrderAcked h < af_LargestAcked a"
    and "list_all (\<lambda>p. \<not> af_AcksPacket a p) (sph_skippedPackets h)"
    and "sph_ReceivedAck alg a wpn rcvTime now h = (err, h')"
  shows "err = None \<and>
    (\<exists>lost. sph_retransmissionQueue h' = sph_retransmissionQueue h @ lost \<and>
       lost = filter (\<lambda>p. p \<in> set lost) (sph_packetHistory h) \<and>
       list_all (\<lambda>p. \<not> af_AcksPacket a (pk_PacketNumber p) \<and> pk_PacketNumber p < af_LargestAcked a) lost \<and>
       sph_packetHistory h' =
         filter (\<lambda>p. \<not> af_AcksPacket a (pk_PacketNumber p) \<and> p \<notin> set lost) (sph_packetHistory h))"
proof -
  have "ack_effective a wpn h"
    using assms(3-6) by (auto simp: ack_effective_def skippedPacketsAcked_def list_all_iff list_ex_iff)
  from ReceivedAck_effective [OF _ assms(2) this assms(7)] conserved_run [OF assms(1)]
  show ?thesis by (auto simp: list_all_iff)
qed

definition first_ack :: AckFrame where
  "first_ack = \<lparr>af_PathID = 0, af_LargestAcked = 1, af_LowestAcked = 1, af_AckRanges = [], af_PacketReceivedTime = 0,
     af_DelayTime = 0\<rparr>"

theorem ReceivedAck_removes_acked_witness:
  "sph_packetHistory (snd (sph_ReceivedAck cubic_algorithm first_ack 1 first_time first_time second_handler)) = []"
proof -
  obtain err h' where e: "sph_ReceivedAck cubic_algorithm first_ack 1 first_time first_time second_handler = (err, h')"
    by fastforce
  have c: "af_wf first_ack" "af_LargestAcked first_ack \<le> sph_lastSentPacketNumber second_handler"
    "sph_largestReceivedPacketWithAck second_handler < 1" "largestInOrderAcked second_handler < af_LargestAcked first_ack"
    "list_all (\<lambda>p. \<not> af_AcksPacket first_ack p) (sph_skippedPackets second_handler)"
    using second_state
    by (simp_all add: af_wf_def ack_wf_def first_ack_def largestInOrderAcked_def first_packet_def Let_def)
  have "af_AcksPacket first_ack 1" by (simp add: af_AcksPacket_def acksPacket_def first_ack_def)
  then show ?thesis
    using ReceivedAck_removes_acked [OF first_run c e] e by (auto simp: second_history first_packet_def)
qed

section \<open>Timeouts\<close>



text \<open>
  The shift is not bounded, though: after 35 timeouts in a row it overflows, the timeout becomes negative, and the alarm
  falls back to the minimal retransmission time of 200 ms.
\<close>

lemma rto_shift_overflow:
  "(let t = computeRTOTimeout cubic_algorithm (first_handler\<lparr>sph_rtoCount := 35\<rparr>)
    in t < 0 \<and> MaxDuration t minRetransmissionTime = 200 * Millisecond)"
  by code_simp

section \<open>The CUBIC window\<close>

text \<open>
  (C13) In every run of the sent packet handler with the CUBIC sender, up to \<open>2 ^ 62\<close> acknowledged packets, the congestion
  window stays between 2 packets and the configured maximum of 2500 packets.
\<close>

theorem cubic_window_bounds:
  assumes "sph_run cubic_algorithm cb cubic_start rtt_changed h w g" "size (g_acked g) < 2 ^ 62"
  shows "2 \<le> sd_congestionWindow (sph_congestion h) \<and> sd_congestionWindow (sph_congestion h) \<le> 2500"
  using cubic.inv_run [OF assms(1)] assms(2) by (auto simp: cs_inv_def sender_inv_def)

theorem cubic_window_bounds_witness:
  "2 \<le> sd_congestionWindow (sph_congestion second_handler)"
  using cubic_window_bounds [OF first_run] by (simp add: first_ghost_def)



text \<open>
  (C15) One cutback per window. The first loss of a window multiplies the congestion window by the CUBIC factor, but never
  below the minimum, and makes it the slow start threshold. It leaves the sender in a state where the loss of any packet
  sent so far changes neither of them, unless the experiment with large reductions in slow start is enabled.
\<close>

theorem one_cutback_per_window:
  assumes "\<not> sd_slowStartLargeReduction c" "\<not> cs_reno c" "sd_largestSentAtLastCutback c < n"
    and "c1 = cs_OnPacketLost n lost inFlight c" "m \<le> sd_largestSentPacketNumber c"
  shows "sd_congestionWindow c1 =
      max (sd_minCongestionWindow c) (windowTimes (sd_congestionWindow c) (cubic_beta (cs_cubic c))) \<and>
    sd_slowstartThreshold c1 = sd_congestionWindow c1 \<and>
    sd_congestionWindow (cs_OnPacketLost m lost' inFlight' c1) = sd_congestionWindow c1 \<and>
    sd_slowstartThreshold (cs_OnPacketLost m lost' inFlight' c1) = sd_slowstartThreshold c1"
proof -
  have n: "\<not> n \<le> sd_largestSentAtLastCutback c" using assms(3) by simp
  obtain w cubic where w: "CongestionWindowAfterPacketLoss (sd_congestionWindow c) (cs_cubic c) = (w, cubic)" by fastforce
  have c1: "c1 = endCutback ((beginCutback inFlight c)\<lparr>sd_congestionWindow := w, cs_cubic := cubic\<rparr>)"
    using assms(1,2,4) n w by (simp add: cs_OnPacketLost_def cs_reduceWindow_def beginCutback_def Let_def)
  then have "sd_congestionWindow c1 = max (sd_minCongestionWindow c) w" "sd_slowstartThreshold c1 = sd_congestionWindow c1"
    "sd_largestSentAtLastCutback c1 = sd_largestSentPacketNumber c" "\<not> sd_slowStartLargeReduction c1"
    using assms(1) by (auto simp: endCutback_def beginCutback_def Let_def max_def)
  then show ?thesis
    using AfterPacketLoss_sel(1) [OF w] assms(5) by (simp add: cs_OnPacketLost_def lossAfterCutback_def Let_def)
qed

definition sender_after_20 :: cubicSender where
  "sender_after_20 = (NewCubicSender NewRTTStats False InitialCongestionWindow 2500)\<lparr>sd_largestSentPacketNumber := 20\<rparr>"

theorem one_cutback_per_window_witness:
  "sd_congestionWindow (cs_OnPacketLost 18 1200 20000 (cs_OnPacketLost 17 1200 21200 sender_after_20)) = 27"
proof -
  have "max (sd_minCongestionWindow sender_after_20)
      (windowTimes (sd_congestionWindow sender_after_20) (cubic_beta (cs_cubic sender_after_20))) = 27" by code_simp
  moreover have "\<not> sd_slowStartLargeReduction sender_after_20" "\<not> cs_reno sender_after_20"
    "sd_largestSentAtLastCutback sender_after_20 < 17" "18 \<le> sd_largestSentPacketNumber sender_after_20"
    by (simp_all add: sender_after_20_def NewCubicSender_def)
  ultimately show ?thesis
    using one_cutback_per_window [of sender_after_20 17 _ 1200 21200 18 1200 20000] by simp
qed

definition limited_sender :: cubicSender where
  "limited_sender = cs_OnPacketAcked first_time 1 1200 0
     (NewCubicSender NewRTTStats False InitialCongestionWindow (of_nat DefaultMaxCongestionWindow))
       \<lparr>sd_largestSentPacketNumber := 20\<rparr>"

definition recovering_sender :: cubicSender where
  "recovering_sender = cs_OnPacketAcked (first_time + 60 * Second) 21 1200 50000
     (snd (OnPacketSent (first_time + 59 * Second) 50000 21 1200 True (cs_OnPacketLost 17 1200 50000 limited_sender)))"


end
