(* ===== verification/Linked_List.thy ===== *)
theory Linked_List
imports Prelude
begin

text \<open>
  The doubly linked list that \<^verbatim>\<open>gen\<close> generates for packet intervals, byte intervals and packets
  (\<^verbatim>\<open>internal/utils/packetinterval_linkedlist.go\<close>, \<^verbatim>\<open>byteinterval_linkedlist.go\<close> and
  \<^verbatim>\<open>ackhandler/packet_linkedlist.go\<close>; the three files differ in the element type alone). The
  model is at the level of pointers: a heap maps addresses to elements, a nil pointer is
  \<open>None\<close>, and following a nil pointer is a panic. A list is named by the address of its root.

  The lemmas show that the operations implement operations on the sequence of addresses of
  the ring, so that the components that use such a list can be modelled with HOL lists.
\<close>

section \<open>The heap\<close>

type_synonym addr = nat
type_synonym ptr = "addr option"

record 'v Element =
  el_next :: ptr
  el_prev :: ptr
  el_list :: ptr
  el_Value :: 'v

record 'v heap =
  elems :: "addr \<Rightarrow> 'v Element option"
  lens :: "addr \<Rightarrow> int"
  fresh :: addr

definition nilDereference :: error where
  "nilDereference = Panic ''invalid memory address or nil pointer dereference''"

definition deref :: "ptr \<Rightarrow> 'v heap \<Rightarrow> 'v Element result" where
  "deref p h = (case p of None \<Rightarrow> Inl nilDereference
     | Some a \<Rightarrow> (case elems h a of None \<Rightarrow> Inl nilDereference | Some e \<Rightarrow> Inr e))"

definition modify :: "ptr \<Rightarrow> ('v Element \<Rightarrow> 'v Element) \<Rightarrow> 'v heap \<Rightarrow> 'v heap result" where
  "modify p f h = bindE (deref p h) (\<lambda>e. Inr (h\<lparr>elems := (elems h)(the p \<mapsto> f e)\<rparr>))"

definition alloc :: "'v Element \<Rightarrow> 'v heap \<Rightarrow> addr \<times> 'v heap" where
  "alloc e h = (fresh h, h\<lparr>elems := (elems h)(fresh h \<mapsto> e), fresh := fresh h + 1\<rparr>)"

section \<open>The operations\<close>

definition el_Next :: "ptr \<Rightarrow> 'v heap \<Rightarrow> ptr result" where
  "el_Next e h =
     bindE (deref e h) (\<lambda>x.
     Inr (if el_list x \<noteq> None \<and> el_next x \<noteq> el_list x then el_next x else None))"

definition el_Prev :: "ptr \<Rightarrow> 'v heap \<Rightarrow> ptr result" where
  "el_Prev e h =
     bindE (deref e h) (\<lambda>x.
     Inr (if el_list x \<noteq> None \<and> el_prev x \<noteq> el_list x then el_prev x else None))"

definition list_Init :: "addr \<Rightarrow> 'v heap \<Rightarrow> 'v heap result" where
  "list_Init l h =
     bindE (modify (Some l) (\<lambda>x. x\<lparr>el_next := Some l\<rparr>) h) (\<lambda>h.
     bindE (modify (Some l) (\<lambda>x. x\<lparr>el_prev := Some l\<rparr>) h) (\<lambda>h.
     Inr (h\<lparr>lens := (lens h)(l := 0)\<rparr>)))"

definition NewList :: "'v \<Rightarrow> 'v heap \<Rightarrow> (addr \<times> 'v heap) result" where
  "NewList zero h =
     (case alloc \<lparr>el_next = None, el_prev = None, el_list = None, el_Value = zero\<rparr> h of
        (l, h) \<Rightarrow> bindE (list_Init l (h\<lparr>lens := (lens h)(l := 0)\<rparr>)) (\<lambda>h. Inr (l, h)))"

definition list_Len :: "addr \<Rightarrow> 'v heap \<Rightarrow> int" where
  "list_Len l h = lens h l"

definition list_Front :: "addr \<Rightarrow> 'v heap \<Rightarrow> ptr result" where
  "list_Front l h = (if lens h l = 0 then Inr None else bindE (deref (Some l) h) (\<lambda>x. Inr (el_next x)))"

definition list_Back :: "addr \<Rightarrow> 'v heap \<Rightarrow> ptr result" where
  "list_Back l h = (if lens h l = 0 then Inr None else bindE (deref (Some l) h) (\<lambda>x. Inr (el_prev x)))"

definition lazyInit :: "addr \<Rightarrow> 'v heap \<Rightarrow> 'v heap result" where
  "lazyInit l h =
     bindE (deref (Some l) h) (\<lambda>x. if el_next x = None then list_Init l h else Inr h)"

definition list_insert :: "addr \<Rightarrow> ptr \<Rightarrow> ptr \<Rightarrow> 'v heap \<Rightarrow> (ptr \<times> 'v heap) result" where
  "list_insert l e at h =
     bindE (deref at h) (\<lambda>x. let n = el_next x in
     bindE (modify at (\<lambda>x. x\<lparr>el_next := e\<rparr>) h) (\<lambda>h.
     bindE (modify e (\<lambda>x. x\<lparr>el_prev := at\<rparr>) h) (\<lambda>h.
     bindE (modify e (\<lambda>x. x\<lparr>el_next := n\<rparr>) h) (\<lambda>h.
     bindE (modify n (\<lambda>x. x\<lparr>el_prev := e\<rparr>) h) (\<lambda>h.
     bindE (modify e (\<lambda>x. x\<lparr>el_list := Some l\<rparr>) h) (\<lambda>h.
     Inr (e, h\<lparr>lens := (lens h)(l := lens h l + 1)\<rparr>)))))))"

definition insertValue :: "addr \<Rightarrow> 'v \<Rightarrow> ptr \<Rightarrow> 'v heap \<Rightarrow> (ptr \<times> 'v heap) result" where
  "insertValue l v at h =
     (case alloc \<lparr>el_next = None, el_prev = None, el_list = None, el_Value = v\<rparr> h of
        (e, h) \<Rightarrow> list_insert l (Some e) at h)"

definition list_remove :: "addr \<Rightarrow> ptr \<Rightarrow> 'v heap \<Rightarrow> (ptr \<times> 'v heap) result" where
  "list_remove l e h =
     bindE (deref e h) (\<lambda>x.
     bindE (modify (el_prev x) (\<lambda>y. y\<lparr>el_next := el_next x\<rparr>) h) (\<lambda>h.
     bindE (deref e h) (\<lambda>x.
     bindE (modify (el_next x) (\<lambda>y. y\<lparr>el_prev := el_prev x\<rparr>) h) (\<lambda>h.
     bindE (modify e (\<lambda>x. x\<lparr>el_next := None\<rparr>) h) (\<lambda>h.
     bindE (modify e (\<lambda>x. x\<lparr>el_prev := None\<rparr>) h) (\<lambda>h.
     bindE (modify e (\<lambda>x. x\<lparr>el_list := None\<rparr>) h) (\<lambda>h.
     Inr (e, h\<lparr>lens := (lens h)(l := lens h l - 1)\<rparr>))))))))"

definition list_Remove :: "addr \<Rightarrow> ptr \<Rightarrow> 'v heap \<Rightarrow> ('v \<times> 'v heap) result" where
  "list_Remove l e h =
     bindE (deref e h) (\<lambda>x.
     bindE (if el_list x = Some l then bindE (list_remove l e h) (\<lambda>(_, h). Inr h) else Inr h) (\<lambda>h.
     bindE (deref e h) (\<lambda>x. Inr (el_Value x, h))))"

definition list_PushFront :: "addr \<Rightarrow> 'v \<Rightarrow> 'v heap \<Rightarrow> (ptr \<times> 'v heap) result" where
  "list_PushFront l v h = bindE (lazyInit l h) (\<lambda>h. insertValue l v (Some l) h)"

definition list_PushBack :: "addr \<Rightarrow> 'v \<Rightarrow> 'v heap \<Rightarrow> (ptr \<times> 'v heap) result" where
  "list_PushBack l v h =
     bindE (lazyInit l h) (\<lambda>h. bindE (deref (Some l) h) (\<lambda>x. insertValue l v (el_prev x) h))"

definition list_InsertBefore :: "addr \<Rightarrow> 'v \<Rightarrow> ptr \<Rightarrow> 'v heap \<Rightarrow> (ptr \<times> 'v heap) result" where
  "list_InsertBefore l v mark h =
     bindE (deref mark h) (\<lambda>x. if el_list x \<noteq> Some l then Inr (None, h)
       else insertValue l v (el_prev x) h)"

definition list_InsertAfter :: "addr \<Rightarrow> 'v \<Rightarrow> ptr \<Rightarrow> 'v heap \<Rightarrow> (ptr \<times> 'v heap) result" where
  "list_InsertAfter l v mark h =
     bindE (deref mark h) (\<lambda>x. if el_list x \<noteq> Some l then Inr (None, h)
       else insertValue l v mark h)"

text \<open>The moves take an element out of its ring and put it back in elsewhere.\<close>

definition list_MoveToFront :: "addr \<Rightarrow> ptr \<Rightarrow> 'v heap \<Rightarrow> 'v heap result" where
  "list_MoveToFront l e h =
     bindE (deref e h) (\<lambda>x. bindE (deref (Some l) h) (\<lambda>root.
     if el_list x \<noteq> Some l \<or> el_next root = e then Inr h
     else bindE (list_remove l e h) (\<lambda>(e, h). bindE (list_insert l e (Some l) h) (\<lambda>(_, h). Inr h))))"

definition list_MoveToBack :: "addr \<Rightarrow> ptr \<Rightarrow> 'v heap \<Rightarrow> 'v heap result" where
  "list_MoveToBack l e h =
     bindE (deref e h) (\<lambda>x. bindE (deref (Some l) h) (\<lambda>root.
     if el_list x \<noteq> Some l \<or> el_prev root = e then Inr h
     else bindE (list_remove l e h) (\<lambda>(e, h).
          bindE (deref (Some l) h) (\<lambda>root. bindE (list_insert l e (el_prev root) h) (\<lambda>(_, h). Inr h)))))"

definition list_MoveBefore :: "addr \<Rightarrow> ptr \<Rightarrow> ptr \<Rightarrow> 'v heap \<Rightarrow> 'v heap result" where
  "list_MoveBefore l e mark h =
     bindE (deref e h) (\<lambda>x. if el_list x \<noteq> Some l \<or> e = mark then Inr h
     else bindE (deref mark h) (\<lambda>y. if el_list y \<noteq> Some l then Inr h
     else bindE (list_remove l e h) (\<lambda>(e, h).
          bindE (deref mark h) (\<lambda>y. bindE (list_insert l e (el_prev y) h) (\<lambda>(_, h). Inr h)))))"

definition list_MoveAfter :: "addr \<Rightarrow> ptr \<Rightarrow> ptr \<Rightarrow> 'v heap \<Rightarrow> 'v heap result" where
  "list_MoveAfter l e mark h =
     bindE (deref e h) (\<lambda>x. if el_list x \<noteq> Some l \<or> e = mark then Inr h
     else bindE (deref mark h) (\<lambda>y. if el_list y \<noteq> Some l then Inr h
     else bindE (list_remove l e h) (\<lambda>(e, h). bindE (list_insert l e mark h) (\<lambda>(_, h). Inr h))))"

text \<open>
  Pushing a copy of another list. The number of copies is fixed before the loop, so that the
  list may be pushed onto itself.
\<close>

fun pushBackLoop :: "nat \<Rightarrow> addr \<Rightarrow> ptr \<Rightarrow> 'v heap \<Rightarrow> 'v heap result" where
  "pushBackLoop 0 l e h = Inr h"
| "pushBackLoop (Suc i) l e h =
     bindE (deref e h) (\<lambda>x. bindE (deref (Some l) h) (\<lambda>root.
     bindE (insertValue l (el_Value x) (el_prev root) h) (\<lambda>(_, h).
     bindE (el_Next e h) (\<lambda>e. pushBackLoop i l e h))))"

definition list_PushBackList :: "addr \<Rightarrow> addr \<Rightarrow> 'v heap \<Rightarrow> 'v heap result" where
  "list_PushBackList l other h =
     bindE (lazyInit l h) (\<lambda>h. bindE (list_Front other h) (\<lambda>e.
     pushBackLoop (nat (list_Len other h)) l e h))"

fun pushFrontLoop :: "nat \<Rightarrow> addr \<Rightarrow> ptr \<Rightarrow> 'v heap \<Rightarrow> 'v heap result" where
  "pushFrontLoop 0 l e h = Inr h"
| "pushFrontLoop (Suc i) l e h =
     bindE (deref e h) (\<lambda>x.
     bindE (insertValue l (el_Value x) (Some l) h) (\<lambda>(_, h).
     bindE (el_Prev e h) (\<lambda>e. pushFrontLoop i l e h)))"

definition list_PushFrontList :: "addr \<Rightarrow> addr \<Rightarrow> 'v heap \<Rightarrow> 'v heap result" where
  "list_PushFrontList l other h =
     bindE (lazyInit l h) (\<lambda>h. bindE (list_Back other h) (\<lambda>e.
     pushFrontLoop (nat (list_Len other h)) l e h))"

section \<open>Rings\<close>

definition nxt :: "'v heap \<Rightarrow> addr \<Rightarrow> ptr" where
  "nxt h a = Option.bind (elems h a) el_next"

definition prv :: "'v heap \<Rightarrow> addr \<Rightarrow> ptr" where
  "prv h a = Option.bind (elems h a) el_prev"

definition own :: "'v heap \<Rightarrow> addr \<Rightarrow> ptr" where
  "own h a = Option.bind (elems h a) el_list"

definition val :: "'v heap \<Rightarrow> addr \<Rightarrow> 'v option" where
  "val h a = map_option el_Value (elems h a)"

lemmas heap_views = nxt_def prv_def own_def val_def

text \<open>The next and previous pointers along a sequence of addresses.\<close>

fun links :: "'v heap \<Rightarrow> addr list \<Rightarrow> bool" where
  "links h (a # b # as) \<longleftrightarrow> nxt h a = Some b \<and> prv h b = Some a \<and> links h (b # as)"
| "links h _ \<longleftrightarrow> True"

text \<open>
  \<open>dll h l ps\<close>: in the heap \<open>h\<close>, the list with root \<open>l\<close> is the ring through the elements at
  \<open>ps\<close>. The addresses from \<open>fresh\<close> on are unused.
\<close>

definition dll :: "'v heap \<Rightarrow> addr \<Rightarrow> addr list \<Rightarrow> bool" where
  "dll h l ps \<longleftrightarrow>
     distinct (l # ps) \<and> set (l # ps) \<subseteq> dom (elems h) \<and> links h (l # ps @ [l]) \<and>
     (\<forall>p\<in>set ps. own h p = Some l) \<and> lens h l = int (length ps)"

definition heap_wf :: "'v heap \<Rightarrow> bool" where
  "heap_wf h \<longleftrightarrow> (\<forall>a\<in>dom (elems h). a < fresh h)"

lemma links_Cons: "links h (a # as) \<longleftrightarrow> as = [] \<or> (nxt h a = Some (hd as) \<and> prv h (hd as) = Some a \<and> links h as)"
  by (cases as) simp_all

lemma links_append:
  assumes "bs \<noteq> []"
  shows "as \<noteq> [] \<Longrightarrow> links h (as @ bs) \<longleftrightarrow>
    links h as \<and> nxt h (last as) = Some (hd bs) \<and> prv h (hd bs) = Some (last as) \<and> links h bs"
proof (induction as)
  case (Cons a as)
  show ?case
  proof (cases "as = []")
    case True
    then show ?thesis using assms by (simp add: links_Cons)
  next
    case False
    then show ?thesis using Cons.IH assms by (auto simp: links_Cons)
  qed
qed simp

lemma links_cong:
  assumes "\<And>a. a \<in> set (butlast as) \<Longrightarrow> nxt h' a = nxt h a" "\<And>a. a \<in> set (tl as) \<Longrightarrow> prv h' a = prv h a"
  shows "links h' as = links h as"
  using assms
proof (induction as)
  case (Cons a as)
  show ?case
  proof (cases "as = []")
    case False
    have "links h' as = links h as"
    proof (rule Cons.IH)
      fix c
      show "nxt h' c = nxt h c" if "c \<in> set (butlast as)" using Cons.prems(1) [of c] that False by simp
      show "prv h' c = prv h c" if "c \<in> set (tl as)" using Cons.prems(2) [of c] list.set_sel(2) [OF False that] by simp
    qed
    moreover have "nxt h' a = nxt h a" "prv h' (hd as) = prv h (hd as)"
      using Cons.prems(1) [of a] Cons.prems(2) [of "hd as"] False by simp_all
    ultimately show ?thesis by (simp add: links_Cons)
  qed simp
qed simp

lemma deref_Some: "elems h a = Some x \<Longrightarrow> deref (Some a) h = Inr x"
  by (simp add: deref_def)

lemma modify_Some: "elems h a = Some x \<Longrightarrow> modify (Some a) f h = Inr (h\<lparr>elems := (elems h)(a \<mapsto> f x)\<rparr>)"
  by (simp add: modify_def deref_def)

lemmas heap_steps = deref_Some modify_Some

lemma list_insert_views:
  assumes "elems h at = Some x" "elems h e = Some y" "nxt h at = Some n" "elems h n = Some z"
    "e \<noteq> at" "e \<noteq> n"
  obtains h' where "list_insert l (Some e) (Some at) h = Inr (Some e, h')"
    "nxt h' = (nxt h)(at := Some e, e := Some n)" "prv h' = (prv h)(e := Some at, n := Some e)"
    "own h' = (own h)(e := Some l)" "val h' = val h" "dom (elems h') = dom (elems h)"
    "fresh h' = fresh h" "lens h' = (lens h)(l := lens h l + 1)"
    "\<forall>a. a \<notin> {at, e, n} \<longrightarrow> elems h' a = elems h a"
proof -
  let ?y = "y\<lparr>el_prev := Some at, el_next := Some n, el_list := Some l\<rparr>"
  define z' where "z' = (if at = n then z\<lparr>el_next := Some e, el_prev := Some e\<rparr> else z\<lparr>el_prev := Some e\<rparr>)"
  define h' where "h' = h\<lparr>elems := (elems h)(at \<mapsto> x\<lparr>el_next := Some e\<rparr>, n \<mapsto> z', e \<mapsto> ?y),
    lens := (lens h)(l := lens h l + 1)\<rparr>"
  have n: "el_next x = Some n" using assms by (simp add: nxt_def)
  have 1: "list_insert l (Some e) (Some at) h = Inr (Some e, h')"
    using assms(1,2,4-) n
    by (cases "at = n") (simp_all add: list_insert_def heap_steps Let_def h'_def z'_def)
  show ?thesis
  proof (rule that [OF 1])
    show "nxt h' = (nxt h)(at := Some e, e := Some n)" "prv h' = (prv h)(e := Some at, n := Some e)"
      "own h' = (own h)(e := Some l)" "val h' = val h" "dom (elems h') = dom (elems h)"
      "fresh h' = fresh h" "lens h' = (lens h)(l := lens h l + 1)"
      "\<forall>a. a \<notin> {at, e, n} \<longrightarrow> elems h' a = elems h a"
      using assms by (auto simp: h'_def z'_def heap_views fun_eq_iff)
  qed
qed

lemma list_remove_views:
  assumes "elems h e = Some x" "nxt h e = Some n" "prv h e = Some p" "elems h p = Some y" "elems h n = Some z"
    "e \<noteq> p" "e \<noteq> n"
  obtains h' where "list_remove l (Some e) h = Inr (Some e, h')"
    "nxt h' = (nxt h)(p := Some n, e := None)" "prv h' = (prv h)(n := Some p, e := None)"
    "own h' = (own h)(e := None)" "val h' = val h" "dom (elems h') = dom (elems h)"
    "fresh h' = fresh h" "lens h' = (lens h)(l := lens h l - 1)"
    "\<forall>a. a \<notin> {p, e, n} \<longrightarrow> elems h' a = elems h a"
proof -
  let ?x = "x\<lparr>el_next := None, el_prev := None, el_list := None\<rparr>"
  define z' where "z' = (if p = n then z\<lparr>el_next := Some n, el_prev := Some p\<rparr> else z\<lparr>el_prev := Some p\<rparr>)"
  define h' where "h' = h\<lparr>elems := (elems h)(p \<mapsto> y\<lparr>el_next := Some n\<rparr>, n \<mapsto> z', e \<mapsto> ?x),
    lens := (lens h)(l := lens h l - 1)\<rparr>"
  have n: "el_next x = Some n" "el_prev x = Some p" using assms by (simp_all add: nxt_def prv_def)
  have 1: "list_remove l (Some e) h = Inr (Some e, h')"
    using assms(1,4-) n
    by (cases "p = n") (simp_all add: list_remove_def heap_steps h'_def z'_def)
  show ?thesis
  proof (rule that [OF 1])
    show "nxt h' = (nxt h)(p := Some n, e := None)" "prv h' = (prv h)(n := Some p, e := None)"
      "own h' = (own h)(e := None)" "val h' = val h" "dom (elems h') = dom (elems h)"
      "fresh h' = fresh h" "lens h' = (lens h)(l := lens h l - 1)"
      "\<forall>a. a \<notin> {p, e, n} \<longrightarrow> elems h' a = elems h a"
      using assms by (auto simp: h'_def z'_def heap_views fun_eq_iff)
  qed
qed

text \<open>What an operation on list \<open>l\<close> leaves alone: the values, and everything outside of \<open>A\<close>.\<close>

definition keeps :: "addr set \<Rightarrow> addr \<Rightarrow> 'v heap \<Rightarrow> 'v heap \<Rightarrow> bool" where
  "keeps A l h h' \<longleftrightarrow>
     (\<forall>a\<in>dom (elems h). val h' a = val h a) \<and>
     (\<forall>a. a \<notin> A \<longrightarrow> elems h' a = elems h a) \<and> (\<forall>k. k \<noteq> l \<longrightarrow> lens h' k = lens h k)"

lemma keepsI:
  "val h' = val h \<Longrightarrow> lens h' = (lens h)(l := k) \<Longrightarrow> \<forall>a. a \<notin> B \<longrightarrow> elems h' a = elems h a \<Longrightarrow> B \<subseteq> A \<Longrightarrow>
   keeps A l h h'"
  by (auto simp: keeps_def)

lemma dll_links:
  "dll h l (xs @ ys) \<Longrightarrow>
   links h (l # xs) \<and> nxt h (last (l # xs)) = Some (hd (ys @ [l])) \<and>
   prv h (hd (ys @ [l])) = Some (last (l # xs)) \<and> links h (ys @ [l])"
  using links_append [of "ys @ [l]" "l # xs" h] by (simp add: dll_def)

lemma ring_dom:
  "set (l # xs @ ys) \<subseteq> D \<Longrightarrow> last (l # xs) \<in> D" "set (l # xs @ ys) \<subseteq> D \<Longrightarrow> hd (ys @ [l]) \<in> D"
  by (auto simp: hd_append)

lemma ring_distinct:
  assumes "distinct (l # xs @ ys)"
  shows "last (l # xs) \<notin> set (butlast (l # xs))" "last (l # xs) \<notin> set ys"
    "hd (ys @ [l]) \<notin> set xs" "hd (ys @ [l]) \<notin> set (tl (ys @ [l]))"
proof -
  have "distinct (butlast (l # xs) @ [last (l # xs)])"
    using assms by (subst append_butlast_last_id) simp_all
  then show "last (l # xs) \<notin> set (butlast (l # xs))"
    unfolding distinct_append list.set by blast
  show "last (l # xs) \<notin> set ys" using assms by (cases "xs = []") (auto dest: last_in_set)
  show "hd (ys @ [l]) \<notin> set xs" "hd (ys @ [l]) \<notin> set (tl (ys @ [l]))" using assms by (cases ys; auto)+
qed

lemma list_insert_dll:
  assumes d: "dll h l (xs @ ys)" and e: "e \<in> dom (elems h)" "e \<notin> set (l # xs @ ys)"
  obtains h' where "list_insert l (Some e) (Some (last (l # xs))) h = Inr (Some e, h')"
    "dll h' l (xs @ e # ys)" "fresh h' = fresh h" "dom (elems h') = dom (elems h)"
    "keeps (set (l # xs @ e # ys)) l h h'"
proof -
  let ?at = "last (l # xs)" and ?n = "hd (ys @ [l])"
  note D = dll_links [OF d]
  have dom: "set (l # xs @ ys) \<subseteq> dom (elems h)" and dist: "distinct (l # xs @ ys)"
    using d by (simp_all add: dll_def)
  obtain x y z where "elems h ?at = Some x" "elems h e = Some y" "elems h ?n = Some z"
    using ring_dom [OF dom] e by blast
  moreover have ne: "e \<noteq> ?at" "e \<noteq> ?n" using e ring_dom [of l xs ys "set (l # xs @ ys)"] by auto
  ultimately obtain h' where h': "list_insert l (Some e) (Some ?at) h = Inr (Some e, h')"
    "nxt h' = (nxt h)(?at := Some e, e := Some ?n)" "prv h' = (prv h)(e := Some ?at, ?n := Some e)"
    "own h' = (own h)(e := Some l)" "val h' = val h" "dom (elems h') = dom (elems h)"
    "fresh h' = fresh h" "lens h' = (lens h)(l := lens h l + 1)"
    "\<forall>a. a \<notin> {?at, e, ?n} \<longrightarrow> elems h' a = elems h a"
    using list_insert_views [of h ?at x e y ?n z l] D by blast
  have "links h' (l # xs)"
  proof -
    have "links h' (l # xs) = links h (l # xs)"
      using ring_distinct [OF dist] e by (intro links_cong) (auto simp: h' dest: in_set_butlastD)
    then show ?thesis using D by simp
  qed
  moreover have "links h' (ys @ [l])"
  proof -
    have "links h' (ys @ [l]) = links h (ys @ [l])"
      using ring_distinct [OF dist] e
      by (intro links_cong) (auto simp: h' dest: list.set_sel(2) [rotated])
    then show ?thesis using D by simp
  qed
  ultimately have "links h' ((l # xs) @ e # ys @ [l])"
    using ne by (subst links_append) (auto simp: links_Cons h')
  then have "dll h' l (xs @ e # ys)"
    using d e dom by (auto simp: dll_def h')
  moreover have "keeps (set (l # xs @ e # ys)) l h h'"
  proof -
    have "{?at, e, ?n} \<subseteq> set (l # xs @ e # ys)"
      using ring_dom [of l xs ys "set (l # xs @ ys)"] by auto
    then show ?thesis by (rule keepsI [OF h'(5,8,9)])
  qed
  ultimately show ?thesis using that h' by blast
qed

lemma list_remove_dll:
  assumes d: "dll h l (xs @ e # ys)"
  obtains h' where "list_remove l (Some e) h = Inr (Some e, h')"
    "dll h' l (xs @ ys)" "fresh h' = fresh h" "dom (elems h') = dom (elems h)"
    "keeps (set (l # xs @ e # ys)) l h h'"
proof -
  let ?p = "last (l # xs)" and ?n = "hd (ys @ [l])"
  have D: "links h (l # xs)" "prv h e = Some ?p" "nxt h e = Some ?n" "links h (ys @ [l])"
    using dll_links [of h l xs "e # ys"] dll_links [of h l "xs @ [e]" ys] d by simp_all
  have dom: "set (l # xs @ ys) \<subseteq> dom (elems h)" and dist: "distinct (l # xs @ ys)"
    and e: "e \<in> dom (elems h)" "e \<notin> set (l # xs @ ys)"
    using d by (auto simp: dll_def)
  obtain x y z where "elems h e = Some x" "elems h ?p = Some y" "elems h ?n = Some z"
    using ring_dom [OF dom] e by blast
  moreover have ne: "e \<noteq> ?p" "e \<noteq> ?n" using e ring_dom [of l xs ys "set (l # xs @ ys)"] by auto
  ultimately obtain h' where h': "list_remove l (Some e) h = Inr (Some e, h')"
    "nxt h' = (nxt h)(?p := Some ?n, e := None)" "prv h' = (prv h)(?n := Some ?p, e := None)"
    "own h' = (own h)(e := None)" "val h' = val h" "dom (elems h') = dom (elems h)"
    "fresh h' = fresh h" "lens h' = (lens h)(l := lens h l - 1)"
    "\<forall>a. a \<notin> {?p, e, ?n} \<longrightarrow> elems h' a = elems h a"
    using list_remove_views [of h e x ?n ?p y z l] D by blast
  have "links h' (l # xs) = links h (l # xs)"
    using ring_distinct [OF dist] e by (intro links_cong) (auto simp: h' dest: in_set_butlastD)
  moreover have "links h' (ys @ [l]) = links h (ys @ [l])"
    using ring_distinct [OF dist] e
    by (intro links_cong) (auto simp: h' dest: list.set_sel(2) [rotated])
  ultimately have "links h' ((l # xs) @ ys @ [l])"
    using ne D by (subst links_append) (simp_all add: h')
  then have "dll h' l (xs @ ys)"
    using d e by (auto simp: dll_def h')
  moreover have "keeps (set (l # xs @ e # ys)) l h h'"
  proof -
    have "{?p, e, ?n} \<subseteq> set (l # xs @ e # ys)"
      using ring_dom [of l xs ys "set (l # xs @ ys)"] by auto
    then show ?thesis by (rule keepsI [OF h'(5,8,9)])
  qed
  ultimately show ?thesis using that h' by blast
qed


section \<open>The operations on rings\<close>

lemma keeps_trans: "keeps A l h h' \<Longrightarrow> dom (elems h) \<subseteq> dom (elems h') \<Longrightarrow> keeps A l h' h'' \<Longrightarrow> keeps A l h h''"
  unfolding keeps_def by (metis subsetD)

lemma keeps_mono: "keeps A l h h' \<Longrightarrow> A \<subseteq> B \<Longrightarrow> keeps B l h h'"
  by (auto simp: keeps_def)

text \<open>Another list is not affected.\<close>

lemma keeps_dll:
  assumes "keeps A l h h'" "dll h k qs" "set (k # qs) \<inter> A = {}" "k \<noteq> l"
  shows "dll h' k qs"
proof -
  have same: "elems h' a = elems h a" if "a \<in> set (k # qs)" for a
    using assms that by (auto simp: keeps_def)
  have "links h' (k # qs @ [k]) = links h (k # qs @ [k])"
    using same by (intro links_cong) (auto simp: nxt_def prv_def dest: in_set_butlastD)
  moreover have "own h' p = own h p" if "p \<in> set qs" for p using same that by (simp add: own_def)
  moreover have "set (k # qs) \<subseteq> dom (elems h')"
    using same assms(2) by (auto simp: dll_def domIff)
  ultimately show ?thesis using assms(1,2,4) by (simp add: dll_def keeps_def)
qed

definition contents :: "'v heap \<Rightarrow> addr list \<Rightarrow> 'v list" where
  "contents h ps = map (\<lambda>a. the (val h a)) ps"

lemma keeps_contents:
  "keeps A l h h' \<Longrightarrow> set ps \<subseteq> dom (elems h) \<Longrightarrow> contents h' ps = contents h ps"
  by (simp add: keeps_def contents_def subset_eq)

lemma alloc_dll:
  assumes "heap_wf h" "alloc x h = (e, h1)"
  shows "heap_wf h1" "e \<notin> dom (elems h)" "dom (elems h1) = insert e (dom (elems h))"
    "val h1 e = Some (el_Value x)" "fresh h1 = fresh h + 1"
    "keeps {e} l h h1" "dll h l ps \<Longrightarrow> dll h1 l ps"
proof -
  have e: "e = fresh h" "e \<notin> dom (elems h)" using assms by (auto simp: alloc_def heap_wf_def)
  then show "heap_wf h1" "e \<notin> dom (elems h)" "dom (elems h1) = insert e (dom (elems h))"
    "val h1 e = Some (el_Value x)" "fresh h1 = fresh h + 1"
    using assms by (auto simp: alloc_def heap_wf_def val_def less_Suc_eq split: if_splits)
  show k: "keeps {e} l h h1" for l using assms e by (auto simp: keeps_def alloc_def val_def)
  show "dll h1 l ps" if "dll h l ps"
  proof (rule keeps_dll [OF k that])
    show "set (l # ps) \<inter> {e} = {}" using that e by (auto simp: dll_def)
    show "l \<noteq> Suc l" by simp
  qed
qed

text \<open>
  Inserting a value: a fresh element takes its place after the element at \<open>last (l # xs)\<close>.
\<close>

lemma insertValue_dll:
  assumes "heap_wf h" "dll h l (xs @ ys)"
  obtains e h' where "insertValue l v (Some (last (l # xs))) h = Inr (Some e, h')"
    "dll h' l (xs @ e # ys)" "heap_wf h'" "e \<notin> dom (elems h)" "val h' e = Some v"
    "keeps (set (l # xs @ e # ys)) l h h'" "dom (elems h) \<subseteq> dom (elems h')"
proof -
  obtain e h1 where a: "alloc \<lparr>el_next = None, el_prev = None, el_list = None, el_Value = v\<rparr> h = (e, h1)"
    by fastforce
  note A = alloc_dll [OF assms(1) a]
  have "e \<notin> set (l # xs @ ys)" using A(2) assms(2) by (auto simp: dll_def)
  then obtain h' where h': "list_insert l (Some e) (Some (last (l # xs))) h1 = Inr (Some e, h')"
    "dll h' l (xs @ e # ys)" "fresh h' = fresh h1" "dom (elems h') = dom (elems h1)"
    "keeps (set (l # xs @ e # ys)) l h1 h'"
    using list_insert_dll [OF A(7) [OF assms(2)], of e] A(3) by blast
  have "keeps (set (l # xs @ e # ys)) l h h'"
    using keeps_trans [OF keeps_mono [OF A(6)] _ h'(5)] A(3) by auto
  moreover have "val h' e = Some v" using h'(5) A(3,4) by (auto simp: keeps_def)
  moreover have "heap_wf h'" using A(1) h'(3,4) by (simp add: heap_wf_def)
  ultimately show ?thesis using that a h' A by (auto simp: insertValue_def)
qed

text \<open>The start of an empty list, and reading along a ring.\<close>

lemma NewList_dll:
  assumes "heap_wf h"
  obtains l h' where "NewList zero h = Inr (l, h')" "dll h' l []" "heap_wf h'" "l \<notin> dom (elems h)"
    "\<forall>a\<in>dom (elems h). elems h' a = elems h a"
proof -
  obtain l h1 where a: "alloc \<lparr>el_next = None, el_prev = None, el_list = None, el_Value = zero\<rparr> h = (l, h1)"
    by fastforce
  then have l: "l = fresh h" and h1: "elems h1 = (elems h)
      (l \<mapsto> \<lparr>el_next = None, el_prev = None, el_list = None, el_Value = zero\<rparr>)"
    by (auto simp: alloc_def)
  then obtain h' where h': "NewList zero h = Inr (l, h')" "fresh h' = fresh h1" "lens h' l = 0"
      "elems h' = (elems h)(l \<mapsto> \<lparr>el_next = Some l, el_prev = Some l, el_list = None, el_Value = zero\<rparr>)"
    using a by (simp add: NewList_def list_Init_def modify_def deref_def)
  moreover have "dll h' l []" using h' by (simp add: dll_def nxt_def prv_def)
  moreover have "heap_wf h'" "l \<notin> dom (elems h)"
    using alloc_dll(1,2) [OF assms a] h'(2,4) h1 by (auto simp: heap_wf_def)
  ultimately show ?thesis using that by (auto simp: l)
qed

lemma el_Next_dll:
  assumes "dll h l (xs @ p # ys)"
  shows "el_Next (Some p) h = Inr (case ys of [] \<Rightarrow> None | q # _ \<Rightarrow> Some q)"
proof -
  obtain x where x: "elems h p = Some x" using assms by (auto simp: dll_def)
  moreover have "el_list x = Some l" using assms x by (auto simp: dll_def own_def)
  moreover have "el_next x = Some (hd (ys @ [l]))"
    using dll_links [of h l "xs @ [p]" ys] assms x by (simp add: nxt_def)
  moreover have "l \<notin> set ys" using assms by (auto simp: dll_def)
  ultimately show ?thesis by (cases ys) (auto simp: el_Next_def deref_def)
qed

lemma el_Prev_dll:
  assumes "dll h l (xs @ p # ys)"
  shows "el_Prev (Some p) h = Inr (if xs = [] then None else Some (last xs))"
proof -
  obtain x where x: "elems h p = Some x" using assms by (auto simp: dll_def)
  moreover have "el_list x = Some l" using assms x by (auto simp: dll_def own_def)
  moreover have "el_prev x = Some (last (l # xs))"
    using dll_links [of h l xs "p # ys"] assms x by (simp add: prv_def)
  moreover have "last xs \<noteq> l" if "xs \<noteq> []" using assms last_in_set [OF that] by (auto simp: dll_def)
  ultimately show ?thesis by (auto simp: el_Prev_def deref_def)
qed

lemma dll_root:
  assumes "dll h l ps"
  obtains x where "elems h l = Some x" "el_next x = Some (hd (ps @ [l]))" "el_prev x = Some (last (l # ps))"
proof -
  obtain x where x: "elems h l = Some x" using assms by (auto simp: dll_def)
  have "nxt h l = Some (hd (ps @ [l]))" using dll_links [of h l "[]" ps] assms by simp
  moreover have "prv h l = Some (last (l # ps))" using dll_links [of h l ps "[]"] assms by simp
  ultimately show ?thesis using that x by (simp add: nxt_def prv_def)
qed

lemma list_ends_dll:
  assumes "dll h l ps"
  shows "list_Len l h = int (length ps)"
    "list_Front l h = Inr (case ps of [] \<Rightarrow> None | p # _ \<Rightarrow> Some p)"
    "list_Back l h = Inr (if ps = [] then None else Some (last ps))"
proof -
  have len: "lens h l = int (length ps)" using assms by (simp add: dll_def)
  then show "list_Len l h = int (length ps)" by (simp add: list_Len_def)
  obtain x where "elems h l = Some x" "el_next x = Some (hd (ps @ [l]))" "el_prev x = Some (last (l # ps))"
    using dll_root [OF assms] by blast
  then show "list_Front l h = Inr (case ps of [] \<Rightarrow> None | p # _ \<Rightarrow> Some p)"
    "list_Back l h = Inr (if ps = [] then None else Some (last ps))"
    using len by (auto simp: list_Front_def list_Back_def deref_def split: list.splits)
qed

lemma lazyInit_dll:
  assumes "dll h l ps"
  shows "lazyInit l h = Inr h"
proof -
  obtain x where "elems h l = Some x" "el_next x = Some (hd (ps @ [l]))"
    using dll_root [OF assms] by blast
  then show ?thesis by (simp add: lazyInit_def deref_Some)
qed

text \<open>One lemma for all insertions: where the new element goes, and that nothing else changes.\<close>

definition inserted :: "'v heap \<Rightarrow> addr \<Rightarrow> 'v \<Rightarrow> addr list \<Rightarrow> addr list \<Rightarrow> (ptr \<times> 'v heap) result \<Rightarrow> bool" where
  "inserted h l v xs ys r \<longleftrightarrow>
     (\<exists>e h'. r = Inr (Some e, h') \<and> dll h' l (xs @ e # ys) \<and> heap_wf h' \<and> e \<notin> dom (elems h) \<and>
        contents h' (xs @ e # ys) = contents h xs @ v # contents h ys \<and>
        keeps (set (l # xs @ e # ys)) l h h' \<and> dom (elems h) \<subseteq> dom (elems h'))"

lemma insertValue_inserted:
  assumes "heap_wf h" "dll h l (xs @ ys)"
  shows "inserted h l v xs ys (insertValue l v (Some (last (l # xs))) h)"
proof -
  obtain e h' where h': "insertValue l v (Some (last (l # xs))) h = Inr (Some e, h')"
    "dll h' l (xs @ e # ys)" "heap_wf h'" "e \<notin> dom (elems h)" "val h' e = Some v"
    "keeps (set (l # xs @ e # ys)) l h h'" "dom (elems h) \<subseteq> dom (elems h')"
    using insertValue_dll [OF assms] by blast
  have "set xs \<subseteq> dom (elems h)" "set ys \<subseteq> dom (elems h)" using assms(2) by (auto simp: dll_def)
  then have "contents h' (xs @ e # ys) = contents h xs @ v # contents h ys"
    using h'(5) keeps_contents [OF h'(6), of xs] keeps_contents [OF h'(6), of ys] by (simp add: contents_def)
  then show ?thesis using h' by (auto simp: inserted_def)
qed

lemma list_Push_dll:
  assumes "heap_wf h" "dll h l ps"
  shows "inserted h l v [] ps (list_PushFront l v h)" "inserted h l v ps [] (list_PushBack l v h)"
proof -
  obtain x where x: "elems h l = Some x" "el_prev x = Some (last (l # ps))"
    using dll_root [OF assms(2)] by blast
  show "inserted h l v [] ps (list_PushFront l v h)" "inserted h l v ps [] (list_PushBack l v h)"
    using insertValue_inserted [of h l "[]" ps v] insertValue_inserted [of h l ps "[]" v] assms x
    by (simp_all add: list_PushFront_def list_PushBack_def lazyInit_dll [OF assms(2)] deref_Some)
qed

lemma list_Insert_dll:
  assumes "heap_wf h" "dll h l (xs @ p # ys)"
  shows "inserted h l v (xs @ [p]) ys (list_InsertAfter l v (Some p) h)"
    "inserted h l v xs (p # ys) (list_InsertBefore l v (Some p) h)"
proof -
  obtain x where x: "elems h p = Some x" using assms by (auto simp: dll_def)
  have "el_list x = Some l" using assms x by (auto simp: dll_def own_def)
  moreover have "el_prev x = Some (last (l # xs))"
    using dll_links [of h l xs "p # ys"] assms x by (simp add: prv_def)
  ultimately show "inserted h l v (xs @ [p]) ys (list_InsertAfter l v (Some p) h)"
    "inserted h l v xs (p # ys) (list_InsertBefore l v (Some p) h)"
    using insertValue_inserted [of h l "xs @ [p]" ys v] insertValue_inserted [of h l xs "p # ys" v] assms x
    by (simp_all add: list_InsertAfter_def list_InsertBefore_def deref_Some)
qed

lemma list_Remove_dll:
  assumes "heap_wf h" "dll h l (xs @ p # ys)"
  shows "\<exists>h'. list_Remove l (Some p) h = Inr (the (val h p), h') \<and> dll h' l (xs @ ys) \<and> heap_wf h' \<and>
    contents h' (xs @ ys) = contents h xs @ contents h ys \<and> keeps (set (l # xs @ p # ys)) l h h'"
proof -
  obtain h' where h': "list_remove l (Some p) h = Inr (Some p, h')"
    "dll h' l (xs @ ys)" "fresh h' = fresh h" "dom (elems h') = dom (elems h)"
    "keeps (set (l # xs @ p # ys)) l h h'"
    using list_remove_dll [OF assms(2)] by blast
  obtain x where x: "elems h p = Some x" using assms by (auto simp: dll_def)
  then obtain x' where x': "elems h' p = Some x'" using h'(4) by blast
  have "el_list x = Some l" using assms x by (auto simp: dll_def own_def)
  moreover have "val h' p = val h p" using h'(5) x by (auto simp: keeps_def)
  then have "el_Value x' = the (val h p)" using x x' by (simp add: val_def)
  moreover have "heap_wf h'" using assms(1) h'(3,4) by (simp add: heap_wf_def)
  moreover have "contents h' (xs @ ys) = contents h xs @ contents h ys"
    using keeps_contents [OF h'(5), of "xs @ ys"] assms(2) by (auto simp: dll_def contents_def)
  ultimately show ?thesis using x x' h' by (simp add: list_Remove_def deref_Some)
qed

text \<open>A move takes the element at \<open>p\<close> to its new place and keeps all values.\<close>

definition moved :: "'v heap \<Rightarrow> addr \<Rightarrow> addr list \<Rightarrow> 'v heap result \<Rightarrow> bool" where
  "moved h l ps r \<longleftrightarrow> (\<exists>h'. r = Inr h' \<and> dll h' l ps \<and> heap_wf h' \<and> keeps (set (l # ps)) l h h')"

lemma remove_insert_moved:
  assumes "heap_wf h" "dll h l (xs @ p # ys)" "xs @ ys = as @ bs"
  obtains h1 where "list_remove l (Some p) h = Inr (Some p, h1)" "dll h1 l (as @ bs)"
    "moved h l (as @ p # bs)
       (bindE (list_insert l (Some p) (Some (last (l # as))) h1) (\<lambda>(_, h). Inr h))"
proof -
  obtain h1 where h1: "list_remove l (Some p) h = Inr (Some p, h1)"
    "dll h1 l (as @ bs)" "fresh h1 = fresh h" "dom (elems h1) = dom (elems h)"
    "keeps (set (l # xs @ p # ys)) l h h1"
    using list_remove_dll [OF assms(2), unfolded assms(3)] by blast
  have p: "p \<in> dom (elems h1)" "p \<notin> set (l # as @ bs)"
    using assms(2) unfolding assms(3) [symmetric] by (auto simp: dll_def h1(4))
  obtain h2 where h2: "list_insert l (Some p) (Some (last (l # as))) h1 = Inr (Some p, h2)"
    "dll h2 l (as @ p # bs)" "fresh h2 = fresh h1" "dom (elems h2) = dom (elems h1)"
    "keeps (set (l # as @ p # bs)) l h1 h2"
    using list_insert_dll [OF h1(2) p] by blast
  have "set (l # xs @ p # ys) = set (l # as @ p # bs)"
    using arg_cong [OF assms(3), of set] by auto
  then have "keeps (set (l # as @ p # bs)) l h h2"
    using keeps_trans [OF h1(5) _ _, of h2] h1(4) h2(5) by simp
  moreover have "heap_wf h2" using assms(1) h1(3,4) h2(3,4) by (simp add: heap_wf_def)
  ultimately show ?thesis using that [OF h1(1,2)] h2 by (simp add: moved_def)
qed

lemma dll_element:
  assumes "dll h l (xs @ p # ys)"
  obtains x where "elems h p = Some x" "el_list x = Some l" "el_prev x = Some (last (l # xs))"
    "el_next x = Some (hd (ys @ [l]))"
proof -
  obtain x where "elems h p = Some x" using assms by (auto simp: dll_def)
  then show ?thesis
    using that dll_links [of h l xs "p # ys"] dll_links [of h l "xs @ [p]" ys] assms
    by (auto simp: dll_def nxt_def prv_def own_def)
qed

lemma dll_moved_self: "heap_wf h \<Longrightarrow> dll h l ps \<Longrightarrow> moved h l ps (Inr h)"
  by (simp add: moved_def keeps_def)

lemma list_MoveToFront_dll:
  assumes "heap_wf h" "dll h l (xs @ p # ys)"
  shows "moved h l (p # xs @ ys) (list_MoveToFront l (Some p) h)"
proof -
  obtain x where x: "elems h p = Some x" "el_list x = Some l" using dll_element [OF assms(2)] by blast
  obtain r where r: "elems h l = Some r" "el_next r = Some (hd ((xs @ p # ys) @ [l]))"
    using dll_root [OF assms(2)] by blast
  show ?thesis
  proof (cases "xs = []")
    case True
    then show ?thesis
      using x r dll_moved_self [OF assms] by (simp add: list_MoveToFront_def deref_Some)
  next
    case False
    then have "hd xs \<noteq> p" using assms(2) hd_in_set [of xs] by (auto simp: dll_def)
    moreover obtain h1 where "list_remove l (Some p) h = Inr (Some p, h1)"
      "moved h l ([] @ p # xs @ ys) (bindE (list_insert l (Some p) (Some (last [l])) h1) (\<lambda>(_, h). Inr h))"
      by (rule remove_insert_moved [OF assms, of "[]" "xs @ ys"]) simp_all
    ultimately show ?thesis
      using x r False by (simp add: list_MoveToFront_def deref_Some)
  qed
qed

lemma list_MoveToBack_dll:
  assumes "heap_wf h" "dll h l (xs @ p # ys)"
  shows "moved h l (xs @ ys @ [p]) (list_MoveToBack l (Some p) h)"
proof -
  obtain x where x: "elems h p = Some x" "el_list x = Some l" using dll_element [OF assms(2)] by blast
  obtain r where r: "elems h l = Some r" "el_prev r = Some (last (l # xs @ p # ys))"
    using dll_root [OF assms(2)] by blast
  show ?thesis
  proof (cases "ys = []")
    case True
    then show ?thesis
      using x r dll_moved_self [OF assms] by (simp add: list_MoveToBack_def deref_Some)
  next
    case False
    then have ne: "last ys \<noteq> p" using assms(2) last_in_set [of ys] by (auto simp: dll_def)
    obtain h1 where h1: "list_remove l (Some p) h = Inr (Some p, h1)" "dll h1 l (xs @ ys)"
      "moved h l (xs @ ys @ [p]) (bindE (list_insert l (Some p) (Some (last (l # xs @ ys))) h1) (\<lambda>(_, h). Inr h))"
      by (rule remove_insert_moved [OF assms, of "xs @ ys" "[]"]) simp_all
    obtain r1 where "elems h1 l = Some r1" "el_prev r1 = Some (last (l # xs @ ys))"
      using dll_root [OF h1(2)] by blast
    then show ?thesis using x r ne False h1 by (simp add: list_MoveToBack_def deref_Some)
  qed
qed

lemma list_Move_dll:
  assumes "heap_wf h" "dll h l (xs @ p # ys)" "xs @ ys = as @ q # bs"
  shows "moved h l (as @ p # q # bs) (list_MoveBefore l (Some p) (Some q) h)"
    "moved h l (as @ q # p # bs) (list_MoveAfter l (Some p) (Some q) h)"
proof -
  obtain x where x: "elems h p = Some x" "el_list x = Some l" using dll_element [OF assms(2)] by blast
  have "q \<in> set (xs @ ys)" unfolding assms(3) by simp
  then have q: "q \<in> set (xs @ p # ys)" "p \<noteq> q" using assms(2) by (auto simp: dll_def)
  then obtain cs ds where "xs @ p # ys = cs @ q # ds" by (meson split_list)
  then obtain y where y: "elems h q = Some y" "el_list y = Some l"
    using dll_element [of h l cs q ds] assms(2) by auto
  obtain h1 where h1: "list_remove l (Some p) h = Inr (Some p, h1)" "dll h1 l (as @ q # bs)"
    "moved h l (as @ p # q # bs) (bindE (list_insert l (Some p) (Some (last (l # as))) h1) (\<lambda>(_, h). Inr h))"
    by (rule remove_insert_moved [OF assms])
  obtain y1 where "elems h1 q = Some y1" "el_prev y1 = Some (last (l # as))"
    using dll_element [OF h1(2)] by blast
  then show "moved h l (as @ p # q # bs) (list_MoveBefore l (Some p) (Some q) h)"
    using x y q h1 by (simp add: list_MoveBefore_def deref_Some)
  show "moved h l (as @ q # p # bs) (list_MoveAfter l (Some p) (Some q) h)"
  proof -
    obtain h2 where "list_remove l (Some p) h = Inr (Some p, h2)"
      "moved h l ((as @ [q]) @ p # bs)
         (bindE (list_insert l (Some p) (Some (last (l # as @ [q]))) h2) (\<lambda>(_, h). Inr h))"
      using assms(3) by (auto intro: remove_insert_moved [OF assms(1,2), of "as @ [q]" bs])
    then show ?thesis using x y q by (simp add: list_MoveAfter_def deref_Some)
  qed
qed

text \<open>Pushing a list onto another one.\<close>

lemma inserted_other:
  assumes "inserted h l v xs ys r" "dll h k qs" "k \<noteq> l" "set (k # qs) \<inter> set (l # xs @ ys) = {}"
  obtains e h' where "r = Inr (Some e, h')" "dll h' l (xs @ e # ys)" "heap_wf h'" "dll h' k qs"
    "contents h' (xs @ e # ys) = contents h xs @ v # contents h ys" "contents h' qs = contents h qs"
    "set (k # qs) \<inter> set (l # xs @ e # ys) = {}"
proof -
  obtain e h' where h': "r = Inr (Some e, h')" "dll h' l (xs @ e # ys)" "heap_wf h'" "e \<notin> dom (elems h)"
    "contents h' (xs @ e # ys) = contents h xs @ v # contents h ys"
    "keeps (set (l # xs @ e # ys)) l h h'"
    using assms(1) unfolding inserted_def by blast
  have sub: "set (k # qs) \<subseteq> dom (elems h)" using assms(2) by (simp add: dll_def)
  then have d: "set (k # qs) \<inter> set (l # xs @ e # ys) = {}" using assms(4) h'(4) by auto
  have "contents h' qs = contents h qs" using keeps_contents [OF h'(6)] sub by simp
  then show ?thesis using that h' keeps_dll [OF h'(6) assms(2) d assms(3)] d by blast
qed

lemma pushBackLoop_dll:
  assumes "heap_wf h" "dll h k (as @ bs)" "dll h l ps" "k \<noteq> l" "set (k # as @ bs) \<inter> set (l # ps) = {}"
  shows "\<exists>h' es. pushBackLoop (length bs) l (case bs of [] \<Rightarrow> None | q # _ \<Rightarrow> Some q) h = Inr h' \<and>
    heap_wf h' \<and> dll h' l (ps @ es) \<and> contents h' (ps @ es) = contents h ps @ contents h bs \<and> dll h' k (as @ bs)"
  using assms
proof (induction bs arbitrary: as ps h)
  case Nil
  then show ?case by (intro exI [of _ h] exI [of _ "[]"]) (simp add: contents_def)
next
  case (Cons q bs)
  obtain x where x: "elems h q = Some x" using dll_element [OF Cons.prems(2)] by blast
  obtain root where root: "elems h l = Some root" "el_prev root = Some (last (l # ps))"
    using dll_root [OF Cons.prems(3)] by blast
  have "inserted h l (el_Value x) ps [] (insertValue l (el_Value x) (Some (last (l # ps))) h)"
    using insertValue_inserted [of h l ps "[]"] Cons.prems(1,3) by simp
  then obtain e h1 where h1: "insertValue l (el_Value x) (Some (last (l # ps))) h = Inr (Some e, h1)"
    "dll h1 l (ps @ [e])" "heap_wf h1" "dll h1 k (as @ q # bs)"
    "contents h1 (ps @ [e]) = contents h ps @ [el_Value x]"
    "contents h1 (as @ q # bs) = contents h (as @ q # bs)" "set (k # as @ q # bs) \<inter> set (l # ps @ [e]) = {}"
    using inserted_other [of h l "el_Value x" ps "[]" _ k "as @ q # bs"] Cons.prems
    by (auto simp: contents_def)
  obtain h' es where h': "pushBackLoop (length bs) l (case bs of [] \<Rightarrow> None | q # _ \<Rightarrow> Some q) h1 = Inr h'"
    "heap_wf h'" "dll h' l ((ps @ [e]) @ es)"
    "contents h' ((ps @ [e]) @ es) = contents h1 (ps @ [e]) @ contents h1 bs" "dll h' k ((as @ [q]) @ bs)"
    using Cons.IH [of h1 "as @ [q]" "ps @ [e]"] h1 Cons.prems(4) by auto
  have "contents h1 bs = contents h bs" using h1(6) by (simp add: contents_def)
  moreover have "contents h (q # bs) = el_Value x # contents h bs" using x by (simp add: contents_def val_def)
  ultimately show ?case
    using h' h1 x root el_Next_dll [OF h1(4)]
    by (intro exI [of _ h'] exI [of _ "e # es"]) (simp add: deref_Some)
qed

lemma list_PushBackList_dll:
  assumes "heap_wf h" "dll h k qs" "dll h l ps" "k \<noteq> l" "set (k # qs) \<inter> set (l # ps) = {}"
  shows "\<exists>h' es. list_PushBackList l k h = Inr h' \<and> heap_wf h' \<and> dll h' l (ps @ es) \<and>
    contents h' (ps @ es) = contents h ps @ contents h qs \<and> dll h' k qs"
  using pushBackLoop_dll [of h k "[]" qs l ps] assms
  by (simp add: list_PushBackList_def lazyInit_dll [OF assms(3)] list_ends_dll [OF assms(2)])

lemma pushFrontLoop_dll:
  assumes "heap_wf h" "dll h k (as @ bs)" "dll h l ps" "k \<noteq> l" "set (k # as @ bs) \<inter> set (l # ps) = {}"
  shows "\<exists>h' es. pushFrontLoop (length as) l (if as = [] then None else Some (last as)) h = Inr h' \<and>
    heap_wf h' \<and> dll h' l (es @ ps) \<and> contents h' (es @ ps) = contents h as @ contents h ps \<and> dll h' k (as @ bs)"
  using assms
proof (induction as arbitrary: bs ps h rule: rev_induct)
  case Nil
  then show ?case by (intro exI [of _ h] exI [of _ "[]"]) (simp add: contents_def)
next
  case (snoc q as)
  have q: "dll h k (as @ q # bs)" using snoc.prems(2) by simp
  obtain x where x: "elems h q = Some x" using dll_element [OF q] by blast
  have "inserted h l (el_Value x) [] ps (insertValue l (el_Value x) (Some l) h)"
    using insertValue_inserted [of h l "[]" ps] snoc.prems(1,3) by simp
  then obtain e h1 where h1: "insertValue l (el_Value x) (Some l) h = Inr (Some e, h1)"
    "dll h1 l (e # ps)" "heap_wf h1" "dll h1 k (as @ q # bs)"
    "contents h1 (e # ps) = el_Value x # contents h ps"
    "contents h1 (as @ q # bs) = contents h (as @ q # bs)" "set (k # as @ q # bs) \<inter> set (l # e # ps) = {}"
    using inserted_other [of h l "el_Value x" "[]" ps _ k "as @ q # bs"] snoc.prems q
    by (auto simp: contents_def)
  obtain h' es where h': "pushFrontLoop (length as) l (if as = [] then None else Some (last as)) h1 = Inr h'"
    "heap_wf h'" "dll h' l (es @ e # ps)"
    "contents h' (es @ e # ps) = contents h1 as @ contents h1 (e # ps)" "dll h' k (as @ q # bs)"
    using snoc.IH [of h1 "q # bs" "e # ps"] h1 snoc.prems(4) by auto
  have "contents h1 as = contents h as" using h1(6) by (simp add: contents_def)
  moreover have "contents h (as @ [q]) = contents h as @ [el_Value x]" using x by (simp add: contents_def val_def)
  ultimately show ?case
    using h' h1 x el_Prev_dll [OF h1(4)]
    by (intro exI [of _ h'] exI [of _ "es @ [e]"]) (simp add: deref_Some)
qed

lemma list_PushFrontList_dll:
  assumes "heap_wf h" "dll h k qs" "dll h l ps" "k \<noteq> l" "set (k # qs) \<inter> set (l # ps) = {}"
  shows "\<exists>h' es. list_PushFrontList l k h = Inr h' \<and> heap_wf h' \<and> dll h' l (es @ ps) \<and>
    contents h' (es @ ps) = contents h qs @ contents h ps \<and> dll h' k qs"
  using pushFrontLoop_dll [of h k qs "[]" l ps] assms
  by (simp add: list_PushFrontList_def lazyInit_dll [OF assms(3)] list_ends_dll [OF assms(2)])



end
