(* ===== verification/Frame_Sorter.thy ===== *)
theory Frame_Sorter
imports Stream_Frame
begin

text \<open>
  Reassembly of a stream from its frames (\<^verbatim>\<open>stream_frame_sorter.go\<close>) and its variant
  \<^verbatim>\<open>StreamFrameBuffer.go\<close>. The code keeps the gaps of the received data as a linked list of intervals and the
  frames in a map from their offsets. The list of gaps is modelled by the sequence it implements
  (\<open>Linked_List\<close>); the element \<open>gap\<close> that the code holds by a pointer is the one between
  the prefix \<open>pre\<close> and the rest of the sequence. The fields and the loops that the two structs have in common are
  defined once, on the record \<open>streamFrameBuffer\<close>, which the sorter extends. Its fields \<^verbatim>\<open>sess\<close> and
  \<^verbatim>\<open>SID\<close> are not used by its methods.

  An operation that fails may have changed the buffer before, so it returns both the error and the buffer. The
  clock is the argument \<open>now\<close>. \<^verbatim>\<open>make\<close> panics for sizes beyond the address space, \<open>2 ^ 48\<close> bytes on amd64.
\<close>

section \<open>Definitions\<close>

record ByteInterval =
  bi_Start :: ByteCount
  bi_End :: ByteCount

record streamFrameBuffer =
  fb_queuedFrames :: "ByteCount \<rightharpoonup> StreamFrame"
  fb_readPosition :: ByteCount
  fb_gaps :: "ByteInterval list"
  fb_unreliableMarker :: bool

record streamFrameSorter = streamFrameBuffer +
  sfs_maxOffset :: ByteCount
  sfs_queuedTime :: "ByteCount \<rightharpoonup> gotime"
  sfs_sortedOffset :: "ByteCount list"
  sfs_cnt :: ByteCount
  sfs_cntZero :: ByteCount

definition errTooManyGapsInReceivedStreamData :: error where
  "errTooManyGapsInReceivedStreamData = GoErr ''Too many gaps in received StreamFrame data''"
definition errDuplicateStreamData :: error where "errDuplicateStreamData = GoErr ''Duplicate Stream Data''"
definition errEmptyStreamData :: error where "errEmptyStreamData = GoErr ''Stream Data empty''"

definition newStreamFrameSorter :: streamFrameSorter where
  "newStreamFrameSorter =
     \<lparr>fb_queuedFrames = Map.empty, fb_readPosition = 0,
      fb_gaps = [\<lparr>bi_Start = 0, bi_End = MaxByteCount\<rparr>], fb_unreliableMarker = False,
      sfs_maxOffset = 0, sfs_queuedTime = Map.empty, sfs_sortedOffset = [], sfs_cnt = 0, sfs_cntZero = 0\<rparr>"

definition newStreamFrameBuffer :: streamFrameBuffer where
  "newStreamFrameBuffer =
     \<lparr>fb_queuedFrames = Map.empty, fb_readPosition = 0,
      fb_gaps = [\<lparr>bi_Start = 0, bi_End = MaxByteCount\<rparr>], fb_unreliableMarker = False\<rparr>"

text \<open>The parts of \<^verbatim>\<open>Push\<close>: cutting off what a queued frame at the same offset has already.\<close>

definition dropFront :: "ByteCount \<Rightarrow> StreamFrame \<Rightarrow> StreamFrame" where
  "dropFront n frame = frame\<lparr>sf_Data := drop (unat n) (sf_Data frame), sf_Offset := sf_Offset frame + n\<rparr>"

definition cutOldFrame :: "(ByteCount \<rightharpoonup> StreamFrame) \<Rightarrow> StreamFrame \<Rightarrow> StreamFrame result" where
  "cutOldFrame q frame =
     (case q (sf_Offset frame) of
        None \<Rightarrow> Inr frame
      | Some oldFrame \<Rightarrow>
          if sf_DataLen frame \<le> sf_DataLen oldFrame then Inl errDuplicateStreamData
          else Inr (dropFront (sf_DataLen oldFrame) frame))"

text \<open>Skipping all gaps before the frame.\<close>

fun findGap ::
    "string \<Rightarrow> ByteCount \<Rightarrow> ByteCount \<Rightarrow> ByteInterval list \<Rightarrow> ByteInterval list \<Rightarrow>
     (ByteInterval list \<times> ByteInterval \<times> ByteInterval list) result" where
  "findGap bug start end pre [] = Inl (GoErr (bug @ '' BUG: no gap found''))"
| "findGap bug start end pre (gap # gaps) =
     (if end \<le> bi_Start gap then Inl errDuplicateStreamData
      else if end > bi_Start gap \<and> start \<le> bi_End gap then Inr (pre, gap, gaps)
      else findGap bug start end (pre @ [gap]) gaps)"

text \<open>
  Finding the highest gap whose start lies before the end of the frame. The result tells whether it is still the
  first gap, whether it is still in the list, the gaps after it, and the frames that are left.
\<close>

fun endGapLoop ::
    "string \<Rightarrow> ByteCount \<Rightarrow> bool \<Rightarrow> ByteInterval \<Rightarrow> ByteInterval list \<Rightarrow> (ByteCount \<rightharpoonup> StreamFrame) \<Rightarrow>
     error option \<times> bool \<times> bool \<times> ByteInterval \<times> ByteInterval list \<times> (ByteCount \<rightharpoonup> StreamFrame)" where
  "endGapLoop bug end isGap endGap [] q =
     (if end \<ge> bi_End endGap
      then (Some (GoErr (bug @ '' BUG: no end gap found'')), isGap, True, endGap, [], q)
      else (None, isGap, True, endGap, [], q))"
| "endGapLoop bug end isGap endGap (nextEndGap # gaps) q =
     (if end \<ge> bi_End endGap
      then if end \<le> bi_Start nextEndGap then (None, isGap, isGap, endGap, nextEndGap # gaps, q)
           else endGapLoop bug end False nextEndGap gaps (q(bi_End endGap := None))
      else (None, isGap, True, endGap, nextEndGap # gaps, q))"

definition adjustGaps ::
    "ByteCount \<Rightarrow> ByteCount \<Rightarrow> ByteInterval list \<Rightarrow> ByteInterval \<Rightarrow> bool \<Rightarrow> bool \<Rightarrow> ByteInterval \<Rightarrow>
     ByteInterval list \<Rightarrow> ByteInterval list" where
  "adjustGaps start end pre gap isGap listed endGap rest =
     (if start = bi_Start gap
      then let gapRemoved = (end \<ge> bi_End gap);
               endGap = (if end < bi_End endGap then endGap\<lparr>bi_Start := end\<rparr> else endGap)
           in pre @ (if gapRemoved then [] else [if isGap then endGap else gap])
                  @ (if \<not> isGap \<and> listed then [endGap] else []) @ rest
      else if end = bi_End endGap
      then pre @ [gap\<lparr>bi_End := start\<rparr>] @ (if \<not> isGap \<and> listed then [endGap] else []) @ rest
      else if isGap then pre @ [gap\<lparr>bi_End := start\<rparr>, \<lparr>bi_Start = end, bi_End = bi_End gap\<rparr>] @ rest
      else pre @ [gap\<lparr>bi_End := start\<rparr>] @ (if listed then [endGap\<lparr>bi_Start := end\<rparr>] else []) @ rest)"

definition cutEnd :: "ByteCount \<Rightarrow> ByteInterval \<Rightarrow> StreamFrame \<Rightarrow> StreamFrame \<times> ByteCount" where
  "cutEnd end endGap frame =
     (if end > bi_End endGap
      then let cutLen = end - bi_End endGap; len = sf_DataLen frame - cutLen
           in (frame\<lparr>sf_Data := take (unat len) (sf_Data frame)\<rparr>, end - cutLen)
      else (frame, end))"

definition insertFrame ::
    "string \<Rightarrow> StreamFrame \<Rightarrow> 'a streamFrameBuffer_scheme \<Rightarrow> (error + StreamFrame) \<times> 'a streamFrameBuffer_scheme" where
  "insertFrame bug frame s =
     (let start = sf_Offset frame; end = sf_Offset frame + sf_DataLen frame
      in case findGap bug start end [] (fb_gaps s) of
           Inl err \<Rightarrow> (Inl err, s)
         | Inr (pre, gap, gaps) \<Rightarrow>
             let frame = (if start < bi_Start gap then dropFront (bi_Start gap - start) frame else frame);
                 start = (if start < bi_Start gap then bi_Start gap else start)
             in case endGapLoop bug end True gap gaps (fb_queuedFrames s) of
                  (err, isGap, listed, endGap, rest, q) \<Rightarrow>
                    case err of
                      Some e \<Rightarrow> (Inl e, s\<lparr>fb_queuedFrames := q,
                                       fb_gaps := pre @ gap # (if isGap then [] else [endGap]) @ rest\<rparr>)
                    | None \<Rightarrow>
                        case cutEnd end endGap frame of (frame, end) \<Rightarrow>
                          let s = s\<lparr>fb_queuedFrames := q,
                                    fb_gaps := adjustGaps start end pre gap isGap listed endGap rest\<rparr>
                          in if length (fb_gaps s) > MaxStreamFrameSorterGaps
                             then (Inl errTooManyGapsInReceivedStreamData, s)
                             else (Inr frame, s\<lparr>fb_queuedFrames := (fb_queuedFrames s)(sf_Offset frame \<mapsto> frame)\<rparr>))"

text \<open>Both \<^verbatim>\<open>Push\<close> methods; \<open>Inl\<close> of the result is the error, \<open>Inr None\<close> an empty frame with a FIN bit.\<close>

definition pushFrame ::
    "string \<Rightarrow> StreamFrame \<Rightarrow> 'a streamFrameBuffer_scheme \<Rightarrow>
     (error + StreamFrame option) \<times> 'a streamFrameBuffer_scheme" where
  "pushFrame bug frame s =
     (if sf_DataLen frame = 0
      then if sf_FinBit frame
           then (Inr None, s\<lparr>fb_queuedFrames := (fb_queuedFrames s)(sf_Offset frame \<mapsto> frame)\<rparr>)
           else (Inl errEmptyStreamData, s)
      else case cutOldFrame (fb_queuedFrames s) frame of
             Inl err \<Rightarrow> (Inl err, s)
           | Inr frame \<Rightarrow>
               case insertFrame bug frame s of
                 (Inl err, s) \<Rightarrow> (Inl err, s)
               | (Inr frame, s) \<Rightarrow> (Inr (Some frame), s))"

definition sfs_Push ::
    "gotime \<Rightarrow> StreamFrame \<Rightarrow> bool \<Rightarrow> streamFrameSorter \<Rightarrow> error option \<times> streamFrameSorter" where
  "sfs_Push now frame flag s =
     (case pushFrame ''StreamFrameSorter'' frame s of
        (Inl err, s) \<Rightarrow> (Some err, s)
      | (Inr None, s) \<Rightarrow> (None, s)
      | (Inr (Some frame), s) \<Rightarrow>
          let s = s\<lparr>sfs_cnt := sfs_cnt s + sf_DataLen frame\<rparr>
          in (None, if flag \<and> sf_Offset frame \<ge> sfs_maxOffset s
                    then s\<lparr>sfs_maxOffset := sf_Offset frame,
                           sfs_sortedOffset := sfs_sortedOffset s @ [sf_Offset frame],
                           sfs_queuedTime := (sfs_queuedTime s)(sf_Offset frame \<mapsto> now)\<rparr>
                    else s))"

definition fb_Push :: "StreamFrame \<Rightarrow> streamFrameBuffer \<Rightarrow> error option \<times> streamFrameBuffer" where
  "fb_Push frame s =
     (case pushFrame ''StreamFrameBuffer'' frame s of
        (Inl err, s) \<Rightarrow> (Some err, s)
      | (Inr _, s) \<Rightarrow> (None, s))"

text \<open>Reading. A frame of zeros stands in for the first gap of an unreliable stream.\<close>

definition zeroFrame :: "ByteCount \<Rightarrow> ByteCount \<Rightarrow> StreamFrame" where
  "zeroFrame offset n =
     \<lparr>sf_StreamID = 0, sf_UnreliableMarker = False, sf_FinBit = False, sf_DataLenPresent = False,
      sf_Offset = offset, sf_Data = replicate (unat n) 0\<rparr>"

definition queuedTimeAt :: "streamFrameSorter \<Rightarrow> ByteCount \<Rightarrow> gotime" where
  "queuedTimeAt s offset = (case sfs_queuedTime s offset of None \<Rightarrow> 0 | Some t \<Rightarrow> t)"

definition sfs_Head :: "gotime \<Rightarrow> streamFrameSorter \<Rightarrow> (StreamFrame option \<times> streamFrameSorter) result" where
  "sfs_Head now s =
     (case fb_queuedFrames s (fb_readPosition s) of
        Some frame \<Rightarrow> Inr (Some frame, s)
      | None \<Rightarrow>
          if fb_unreliableMarker s
          then if length (sfs_sortedOffset s) \<ge> 2
               then if time_Sub (queuedTimeAt s (last (sfs_sortedOffset s)))
                         (queuedTimeAt s (hd (sfs_sortedOffset s))) \<le> 70 * Millisecond
                    then Inr (None, s)
                    else case fb_gaps s of
                           [] \<Rightarrow> Inl (Panic ''nil pointer dereference'')
                         | elem # _ \<Rightarrow>
                             let n = - bi_Start elem + bi_End elem + 1
                             in if n \<ge> 2 ^ 48 then Inl (Panic ''makeslice: len out of range'')
                                else let s = s\<lparr>sfs_cntZero := sfs_cntZero s + n\<rparr>;
                                         s = snd (sfs_Push now (zeroFrame (bi_Start elem) n) False s)
                                     in Inr (fb_queuedFrames s (fb_readPosition s), s)
               else Inr (None, s)
          else Inr (None, s))"

definition sfs_Pop :: "gotime \<Rightarrow> streamFrameSorter \<Rightarrow> (StreamFrame option \<times> streamFrameSorter) result" where
  "sfs_Pop now s =
     bindE (sfs_Head now s) (\<lambda>(res, s).
       case res of
         None \<Rightarrow> Inr (None, s)
       | Some frame \<Rightarrow>
           let s = s\<lparr>fb_readPosition := fb_readPosition s + sf_DataLen frame,
                     sfs_cnt := sfs_cnt s - sf_DataLen frame,
                     fb_queuedFrames := (fb_queuedFrames s)(sf_Offset frame := None)\<rparr>
           in Inr (Some frame,
                if length (sfs_sortedOffset s) \<ge> 1 \<and> hd (sfs_sortedOffset s) = sf_Offset frame
                then s\<lparr>sfs_queuedTime := (sfs_queuedTime s)(hd (sfs_sortedOffset s) := None),
                       sfs_sortedOffset := tl (sfs_sortedOffset s)\<rparr>
                else s))"

definition fb_Head :: "streamFrameBuffer \<Rightarrow> (StreamFrame option \<times> streamFrameBuffer) result" where
  "fb_Head s =
     (case fb_queuedFrames s (fb_readPosition s) of
        Some frame \<Rightarrow> Inr (Some frame, s)
      | None \<Rightarrow>
          if fb_unreliableMarker s
          then case fb_gaps s of
                 [] \<Rightarrow> Inl (Panic ''nil pointer dereference'')
               | elem # _ \<Rightarrow>
                   let s = snd (fb_Push (zeroFrame (bi_Start elem) 100) s)
                   in Inr (fb_queuedFrames s (fb_readPosition s), s)
          else Inr (None, s))"

definition fb_Pop :: "streamFrameBuffer \<Rightarrow> (StreamFrame option \<times> streamFrameBuffer) result" where
  "fb_Pop s =
     bindE (fb_Head s) (\<lambda>(res, s).
       case res of
         None \<Rightarrow> Inr (None, s)
       | Some frame \<Rightarrow>
           Inr (Some frame, s\<lparr>fb_readPosition := fb_readPosition s + sf_DataLen frame,
                              fb_queuedFrames := (fb_queuedFrames s)(sf_Offset frame := None)\<rparr>))"

section \<open>Gaps\<close>

definition bi_set :: "ByteInterval \<Rightarrow> nat set" where
  "bi_set g = {unat (bi_Start g)..<unat (bi_End g)}"

definition gapset :: "ByteInterval list \<Rightarrow> nat set" where
  "gapset gs = (\<Union>g\<in>set gs. bi_set g)"

definition gaps_sorted :: "ByteInterval list \<Rightarrow> bool" where
  "gaps_sorted gs \<longleftrightarrow> sorted_wrt (\<lambda>g h. bi_End g < bi_Start h) gs \<and> (\<forall>g\<in>set gs. bi_Start g < bi_End g)"

lemma gapset_simps [simp]:
  "gapset [] = {}" "gapset (g # gs) = bi_set g \<union> gapset gs" "gapset (gs @ hs) = gapset gs \<union> gapset hs"
  by (auto simp: gapset_def)

lemma gaps_sorted_simps [simp]:
  "gaps_sorted []"
  "gaps_sorted (g # gs) \<longleftrightarrow> bi_Start g < bi_End g \<and> (\<forall>h\<in>set gs. bi_End g < bi_Start h) \<and> gaps_sorted gs"
  "gaps_sorted (gs @ hs) \<longleftrightarrow> gaps_sorted gs \<and> gaps_sorted hs \<and> (\<forall>g\<in>set gs. \<forall>h\<in>set hs. bi_End g < bi_Start h)"
  by (auto simp: gaps_sorted_def sorted_wrt_append)

lemma bi_set_iff: "x \<in> bi_set g \<longleftrightarrow> unat (bi_Start g) \<le> x \<and> x < unat (bi_End g)"
  by (auto simp: bi_set_def)

lemma restrict_UNIV [simp]: "q |` UNIV = q"
  by (simp add: restrict_map_def)

lemma findGap_spec:
  assumes "gaps_sorted gs" "start < end" "\<forall>g\<in>set gs. start \<noteq> bi_End g" "\<exists>g\<in>set gs. end \<le> bi_End g"
  shows "case findGap bug start end pre gs of
      Inl err \<Rightarrow> err = errDuplicateStreamData \<and> gapset gs \<inter> {unat start..<unat end} = {}
    | Inr (pre', g, after) \<Rightarrow> (\<exists>before. pre' = pre @ before \<and> gs = before @ g # after \<and>
       (\<forall>h\<in>set before. bi_End h < start) \<and> bi_Start g < end \<and> start < bi_End g)"
  using assms
proof (induction gs arbitrary: pre)
  case (Cons g gs)
  consider (dup) "end \<le> bi_Start g" | (hit) "bi_Start g < end" "start \<le> bi_End g" | (skip) "bi_Start g < end" "bi_End g < start"
    by fastforce
  then show ?case
  proof cases
    case dup
    have "\<forall>h\<in>set (g # gs). end \<le> bi_Start h"
      using dup Cons.prems(1) by (auto intro: order.trans less_imp_le)
    then have "gapset (g # gs) \<inter> {unat start..<unat end} = {}"
      by (fastforce simp: gapset_def bi_set_def word_le_nat_alt)
    then show ?thesis using dup by simp
  next
    case hit
    then have "start < bi_End g" "\<not> end \<le> bi_Start g" using Cons.prems(3) by (auto simp: order.order_iff_strict)
    then show ?thesis using hit by simp
  next
    case skip
    have e: "\<exists>h\<in>set gs. end \<le> bi_End h"
      using Cons.prems(2,4) skip by (auto dest: less_trans leD)
    have "\<not> end \<le> bi_Start g" "\<not> start \<le> bi_End g" using skip by auto
    then have eq: "findGap bug start end pre (g # gs) = findGap bug start end (pre @ [g]) gs" by simp
    have g: "bi_set g \<inter> {unat start..<unat end} = {}" using skip(2) by (auto simp: bi_set_def word_less_nat_alt)
    have "gaps_sorted gs" "\<forall>g\<in>set gs. start \<noteq> bi_End g" using Cons.prems(1,3) by auto
    from Cons.IH [OF this(1) Cons.prems(2) this(2) e, of "pre @ [g]"]
    show ?thesis unfolding eq using g skip(2) by (auto split: sum.splits prod.splits)
  qed
qed simp

text \<open>The loop passes over \<open>mid\<close> and stops in or right after \<open>endGap\<close>.\<close>

lemma endGapLoop_spec:
  assumes "gaps_sorted (g # gs)" "bi_Start g < end" "\<exists>h\<in>set (g # gs). end < bi_End h"
  shows "case endGapLoop bug end isGap g gs q of (err, isGap', listed, endGap, rest, q') \<Rightarrow>
    err = None \<and> (\<exists>mid. g # gs = mid @ endGap # rest \<and> (\<forall>h\<in>set mid. bi_End h < end) \<and> bi_Start endGap < end \<and>
    isGap' = (isGap \<and> mid = []) \<and> q' = q |` (- bi_End ` set mid) \<and>
    (end < bi_End endGap \<and> listed \<or> bi_End endGap \<le> end \<and> listed = isGap' \<and> (\<forall>h\<in>set rest. end \<le> bi_Start h)))"
  using assms
proof (induction gs arbitrary: g isGap q)
  case Nil
  then show ?case by auto
next
  case (Cons h gs)
  consider (stop) "end < bi_End g" | (gap) "bi_End g \<le> end" "end \<le> bi_Start h" | (cont) "bi_End g \<le> end" "bi_Start h < end"
    by fastforce
  then show ?case
  proof cases
    case stop
    then have "\<not> bi_End g \<le> end" by simp
    then show ?thesis using stop Cons.prems(2) by simp
  next
    case gap
    then have "\<forall>k\<in>set (h # gs). end \<le> bi_Start k"
      using Cons.prems(1) by (auto intro: order.trans less_imp_le)
    then show ?thesis using gap Cons.prems(2) by simp
  next
    case cont
    then have ne: "\<not> end \<le> bi_Start h" by simp
    have "gaps_sorted (h # gs)" "\<exists>k\<in>set (h # gs). end < bi_End k" using Cons.prems(1,3) cont(1) by auto
    note IH = Cons.IH [OF this(1) cont(2) this(2), of False "q(bi_End g := None)"]
    obtain listed endGap rest mid where m:
      "endGapLoop bug end False h gs (q(bi_End g := None)) =
         (None, False, listed, endGap, rest, (q(bi_End g := None)) |` (- bi_End ` set mid))"
      "h # gs = mid @ endGap # rest" "\<forall>h\<in>set mid. bi_End h < end" "bi_Start endGap < end"
      "end < bi_End endGap \<and> listed \<or> bi_End endGap \<le> end \<and> \<not> listed \<and> (\<forall>h\<in>set rest. end \<le> bi_Start h)"
      using IH by (cases "endGapLoop bug end False h gs (q(bi_End g := None))") (auto simp del: fun_upd_restrict fun_upd_apply)
    have q: "(q(bi_End g := None)) |` (- bi_End ` set mid) = q |` (- bi_End ` set (g # mid))"
      by (auto simp: restrict_map_def fun_eq_iff)
    have g: "bi_End g < end" using Cons.prems(1) cont(2) by auto
    have "endGapLoop bug end isGap g (h # gs) q = (None, False, listed, endGap, rest, q |` (- bi_End ` set (g # mid)))"
      using cont(1) ne m(1) q by simp
    moreover have "g # h # gs = (g # mid) @ endGap # rest" "\<forall>h\<in>set (g # mid). bi_End h < end" using m(2,3) g by auto
    ultimately show ?thesis using m(4,5) by (simp only: prod.case) blast
  qed
qed

text \<open>What is left of the gaps \<open>[lo, \<dots>)\<close> to \<open>[\<dots>, hi)\<close> when \<open>[start, end)\<close> arrives.\<close>

definition splitGap :: "ByteCount \<Rightarrow> ByteCount \<Rightarrow> ByteCount \<Rightarrow> ByteCount \<Rightarrow> ByteInterval list" where
  "splitGap lo start end hi =
     (if lo < start then [\<lparr>bi_Start = lo, bi_End = start\<rparr>] else []) @
     (if end < hi then [\<lparr>bi_Start = end, bi_End = hi\<rparr>] else [])"

lemma adjustGaps_eq:
  assumes "gaps_sorted (pre @ gap # gaps)" "gap # gaps = mid @ endGap # rest" "isGap = (mid = [])"
    and "bi_Start gap \<le> start" "end \<le> bi_End endGap" "bi_Start endGap < end"
    and "end < bi_End endGap \<Longrightarrow> listed" "end = bi_End endGap \<Longrightarrow> listed = isGap"
  shows "adjustGaps start end pre gap isGap listed endGap rest =
    pre @ splitGap (bi_Start gap) start end (bi_End endGap) @ rest"
proof (cases mid)
  case Nil
  then have "gap = endGap" using assms(2) by simp
  moreover have "end < bi_End gap \<Longrightarrow> \<not> bi_End gap \<le> end" by simp
  ultimately show ?thesis using assms Nil
    by (cases gap) (auto simp: adjustGaps_def splitGap_def order.order_iff_strict)
next
  case (Cons g mid')
  then have "gap = g" "bi_End g < bi_Start endGap" using assms(1,2) by auto
  moreover then have "bi_End gap \<le> end" using assms(6) by simp
  ultimately show ?thesis using assms Cons
    by (cases gap; cases endGap) (auto simp: adjustGaps_def splitGap_def order.order_iff_strict)
qed

lemma splitGap_props:
  assumes "lo \<le> start" "start < end" "end \<le> hi"
  shows "gapset (splitGap lo start end hi) = {unat lo..<unat hi} - {unat start..<unat end}"
    and "gaps_sorted (splitGap lo start end hi)"
    and "\<forall>g\<in>set (splitGap lo start end hi). lo \<le> bi_Start g \<and> bi_End g \<le> hi"
  using assms by (auto simp: splitGap_def bi_set_def word_le_nat_alt word_less_nat_alt)

lemma in_gapset: "x \<in> gapset gs \<longleftrightarrow> (\<exists>g\<in>set gs. unat (bi_Start g) \<le> x \<and> x < unat (bi_End g))"
  by (auto simp: gapset_def bi_set_iff)

lemma gapset_between:
  assumes "gaps_sorted (mid @ [endGap])" "gap = hd (mid @ [endGap])"
    and "start < bi_End gap" "bi_Start endGap < end" "\<forall>h\<in>set mid. bi_End h < end"
  shows "gapset (mid @ [endGap]) - {unat start..<unat end} =
    {unat (bi_Start gap)..<unat (bi_End endGap)} -
    {unat (max start (bi_Start gap))..<unat (min end (bi_End endGap))}"
proof -
  have le: "\<forall>h\<in>set (mid @ [endGap]). unat (bi_Start gap) \<le> unat (bi_Start h) \<and> unat (bi_End h) \<le> unat (bi_End endGap)"
    using assms(1,2) by (cases mid) (auto simp: word_less_nat_alt)
  have g: "gap \<in> set (mid @ [endGap])" using assms(2) by (metis append_is_Nil_conv hd_in_set list.distinct(1))
  note n = word_less_nat_alt word_le_nat_alt
  show ?thesis (is "?A = ?B")
  proof
    have "x \<in> ?B" if x: "x \<in> ?A" for x
    proof -
      obtain h where "h \<in> set (mid @ [endGap])" "unat (bi_Start h) \<le> x" "x < unat (bi_End h)"
        using x unfolding Diff_iff in_gapset by blast
      then have "unat (bi_Start gap) \<le> x" "x < unat (bi_End endGap)"
        using le by (blast intro: order.trans less_le_trans)+
      then show ?thesis using x by (auto simp: max_def min_def n)
    qed
    then show "?A \<subseteq> ?B" by blast
    have "x \<in> ?A" if x: "x \<in> ?B" for x
    proof (cases "x < unat start")
      case True
      then have "x < unat (bi_End gap)" using assms(3) by (simp add: n)
      then show ?thesis using x True g unfolding Diff_iff in_gapset by (intro conjI bexI [of _ gap]) auto
    next
      case False
      then have "unat end \<le> x" using x by (auto simp: max_def min_def n split: if_splits)
      then show ?thesis using x assms(4) unfolding Diff_iff in_gapset
        by (intro conjI bexI [of _ endGap]) (auto simp: n)
    qed
    then show "?B \<subseteq> ?A" by blast
  qed
qed

text \<open>The bytes from \<open>start\<close> to \<open>end\<close> meet the gaps from the first of \<open>mid @ [endGap]\<close> to \<open>endGap\<close>.\<close>

definition meets ::
    "ByteInterval list \<Rightarrow> ByteCount \<Rightarrow> ByteCount \<Rightarrow> ByteInterval list \<Rightarrow> ByteInterval list \<Rightarrow> ByteInterval \<Rightarrow> ByteInterval list \<Rightarrow> bool"
where
  "meets gs start end pre mid endGap rest \<longleftrightarrow>
     gs = pre @ mid @ endGap # rest \<and> start < end \<and> (\<forall>h\<in>set pre. bi_End h < start) \<and>
     bi_Start (hd (mid @ [endGap])) < end \<and> start < bi_End (hd (mid @ [endGap])) \<and>
     (\<forall>h\<in>set mid. bi_End h < end) \<and> bi_Start endGap < end \<and>
     (end < bi_End endGap \<or> (\<forall>h\<in>set rest. end \<le> bi_Start h))"

lemma fill_gaps:
  assumes sorted: "gaps_sorted gs" and meets: "meets gs start end pre mid endGap rest"
    and gap: "gap = hd (mid @ [endGap])"
    and start': "start' = max start (bi_Start gap)" and end': "end' = min end (bi_End endGap)"
    and gs': "gs' = pre @ splitGap (bi_Start gap) start' end' (bi_End endGap) @ rest"
  shows "start' < end'" "end' \<le> bi_End endGap" "gapset gs' = gapset gs - {unat start..<unat end}" "gaps_sorted gs'"
proof -
  have gs: "gaps_sorted gs" "gs = pre @ mid @ endGap # rest" using sorted meets by (simp_all add: meets_def)
  have m: "start < end" "\<forall>h\<in>set pre. bi_End h < start" "bi_Start gap < end" "start < bi_End gap"
    "\<forall>h\<in>set mid. bi_End h < end" "bi_Start endGap < end" "end < bi_End endGap \<or> (\<forall>h\<in>set rest. end \<le> bi_Start h)"
    using meets gap by (simp_all add: meets_def)
  have me: "gaps_sorted (mid @ [endGap])" using gs by simp
  have "bi_Start gap < bi_End gap" "bi_End gap \<le> bi_End endGap" "bi_Start gap \<le> bi_Start endGap"
    using me gap by (cases mid; force)+
  then show lt: "start' < end'" using m start' end' by (auto simp: max_def min_def)
  show le: "end' \<le> bi_End endGap" using end' by simp
  have lo: "bi_Start gap \<le> start'" using start' by simp
  note split = splitGap_props [OF lo lt le]
  have "x \<notin> {unat start..<unat end}" if "x \<in> gapset pre" for x
    using that m(2) by (fastforce simp: in_gapset word_less_nat_alt)
  moreover have "x \<notin> {unat start..<unat end}" if x: "x \<in> gapset rest" for x
  proof -
    obtain h where h: "h \<in> set rest" "unat (bi_Start h) \<le> x" using x unfolding in_gapset by blast
    then have "end \<le> bi_Start h" using m(7) gs by (auto intro: less_imp_le less_trans)
    then show ?thesis using h by (simp add: word_le_nat_alt)
  qed
  moreover have "gapset (mid @ [endGap]) - {unat start..<unat end} = gapset (splitGap (bi_Start gap) start' end' (bi_End endGap))"
    using gapset_between [OF me gap m(4,6,5)] split(1) by (simp add: start' end')
  ultimately show "gapset gs' = gapset gs - {unat start..<unat end}" by (auto simp: gs' gs(2))
  have "\<forall>g\<in>set pre. bi_End g < bi_Start gap" "\<forall>g\<in>set rest. bi_End endGap < bi_Start g"
    using gs gap by (cases mid; auto)+
  then show "gaps_sorted gs'" using gs split(2,3) by (auto simp: gs' intro: less_le_trans le_less_trans)
qed

section \<open>The frames\<close>

text \<open>
  The peer sends a stream: byte \<open>n\<close> is \<open>\<sigma> n\<close>, and there are \<open>F\<close> bytes at most. A position is tiled when the queued frames
  lead from it to the start of a gap, each frame beginning where the one before ends.
\<close>

definition frame_set :: "StreamFrame \<Rightarrow> nat set" where
  "frame_set f = {unat (sf_Offset f)..<unat (sf_Offset f) + length (sf_Data f)}"

definition frame_of :: "(nat \<Rightarrow> uint8) \<Rightarrow> nat \<Rightarrow> StreamFrame \<Rightarrow> bool" where
  "frame_of \<sigma> F f \<longleftrightarrow> unat (sf_Offset f) + length (sf_Data f) \<le> F \<and>
     sf_Data f = map \<sigma> [unat (sf_Offset f)..<unat (sf_Offset f) + length (sf_Data f)]"

definition queue_ok :: "(nat \<Rightarrow> uint8) \<Rightarrow> nat \<Rightarrow> (ByteCount \<rightharpoonup> StreamFrame) \<Rightarrow> ByteInterval list \<Rightarrow> bool" where
  "queue_ok \<sigma> F q gs \<longleftrightarrow> (\<forall>p f. q p = Some f \<longrightarrow> sf_Offset f = p \<and> frame_of \<sigma> F f \<and> frame_set f \<inter> gapset gs = {})"

inductive tiled :: "(ByteCount \<rightharpoonup> StreamFrame) \<Rightarrow> ByteInterval list \<Rightarrow> ByteCount \<Rightarrow> bool" for q gs where
  gap: "g \<in> set gs \<Longrightarrow> tiled q gs (bi_Start g)"
| frame: "q p = Some f \<Longrightarrow> sf_Data f \<noteq> [] \<Longrightarrow> tiled q gs (p + sf_DataLen f) \<Longrightarrow> tiled q gs p"

definition reassembly_inv :: "(nat \<Rightarrow> uint8) \<Rightarrow> nat \<Rightarrow> 'a streamFrameBuffer_scheme \<Rightarrow> bool" where
  "reassembly_inv \<sigma> F s \<longleftrightarrow>
     F < unat MaxByteCount \<and> gaps_sorted (fb_gaps s) \<and>
     (\<exists>g\<in>set (fb_gaps s). bi_End g = MaxByteCount) \<and>
     (\<forall>g\<in>set (fb_gaps s). fb_readPosition s \<le> bi_Start g \<and> unat (bi_Start g) \<le> F) \<and>
     queue_ok \<sigma> F (fb_queuedFrames s) (fb_gaps s) \<and>
     tiled (fb_queuedFrames s) (fb_gaps s) (fb_readPosition s) \<and>
     (\<forall>g\<in>set (fb_gaps s). bi_End g \<noteq> MaxByteCount \<longrightarrow> tiled (fb_queuedFrames s) (fb_gaps s) (bi_End g))"

lemma frame_end:
  assumes "frame_of \<sigma> F f" "F < unat MaxByteCount"
  shows "unat (sf_DataLen f) = length (sf_Data f)" "unat (sf_Offset f + sf_DataLen f) = unat (sf_Offset f) + length (sf_Data f)"
proof -
  have l: "unat (sf_Offset f) + length (sf_Data f) < 2 ^ 64"
    using assms by (simp add: frame_of_def MaxByteCount_def unsigned_minus_1_eq_mask mask_eq_exp_minus_1)
  then show d: "unat (sf_DataLen f) = length (sf_Data f)" by (simp add: sf_DataLen_def unat_of_nat)
  show "unat (sf_Offset f + sf_DataLen f) = unat (sf_Offset f) + length (sf_Data f)"
    using l d by (subst unat_add_lem [THEN iffD1]) simp_all
qed

lemma tiled_upper:
  assumes "tiled q gs p" "queue_ok \<sigma> F q gs" "F < unat MaxByteCount" "hi \<le> p"
    and "\<And>r. hi \<le> r \<Longrightarrow> q' r = q r" "\<And>g. g \<in> set gs \<Longrightarrow> hi \<le> bi_Start g \<Longrightarrow> g \<in> set gs'"
  shows "tiled q' gs' p"
  using assms(1,4)
proof induction
  case (gap g)
  then show ?case using assms(6) by (auto intro: tiled.gap)
next
  case (frame p f)
  then have f: "sf_Offset f = p" "frame_of \<sigma> F f" using assms(2) by (auto simp: queue_ok_def)
  then have "p \<le> p + sf_DataLen f" using frame_end(2) [OF f(2) assms(3)] by (simp add: word_le_nat_alt)
  then have "tiled q' gs' (p + sf_DataLen f)" using frame.IH frame.prems by simp
  then show ?case using frame assms(5) by (auto intro: tiled.frame)
qed

lemma tiled_lower:
  assumes "tiled q gs p" "queue_ok \<sigma> F q gs" "F < unat MaxByteCount" "p \<le> lo" "unat lo \<in> gapset gs"
    and "\<And>r. r < lo \<Longrightarrow> q' r = q r" "\<And>g. g \<in> set gs \<Longrightarrow> bi_Start g < lo \<Longrightarrow> g \<in> set gs'" "tiled q' gs' lo"
  shows "tiled q' gs' p"
  using assms(1,4)
proof induction
  case (gap g)
  then show ?case using assms(7,8) by (cases "bi_Start g = lo") (auto intro: tiled.gap)
next
  case (frame p f)
  then have f: "sf_Offset f = p" "frame_of \<sigma> F f" "frame_set f \<inter> gapset gs = {}" using assms(2) by (auto simp: queue_ok_def)
  then have "unat lo \<notin> frame_set f" using assms(5) by auto
  moreover have "unat p \<in> frame_set f" using f(1) frame.hyps(2) by (simp add: frame_set_def)
  moreover have "0 < length (sf_Data f)" using frame.hyps(2) by simp
  ultimately have lt: "p < lo" "p + sf_DataLen f \<le> lo"
    using f(1,2) frame.prems frame_end(2) [OF f(2) assms(3)] 
    by (auto simp: frame_set_def word_le_nat_alt word_less_nat_alt linorder_not_less simp del: length_greater_0_conv)
  then have "tiled q' gs' (p + sf_DataLen f)" using frame.IH by simp
  then show ?case using frame.hyps lt assms(6) by (auto intro: tiled.frame)
qed

lemma queue_fill:
  assumes "queue_ok \<sigma> F q gs" "gapset gs' = gapset gs - {a..<b}" "unat start \<ge> a" "unat end \<le> b" "unat end \<le> F"
    and "start < end" "sf_Offset f = start" "sf_Data f = map \<sigma> [unat start..<unat end]"
  shows "queue_ok \<sigma> F ((q |` A)(start \<mapsto> f)) gs'"
proof -
  have "length (sf_Data f) = unat end - unat start" "unat start \<le> unat end" using assms by (simp_all add: word_less_nat_alt)
  then have "frame_of \<sigma> F f" "frame_set f \<inter> gapset gs' = {}"
    using assms by (auto simp: frame_of_def frame_set_def)
  then show ?thesis using assms by (auto simp: queue_ok_def restrict_map_def split: if_splits)
qed

lemma gaps_nonempty: "gaps_sorted gs \<Longrightarrow> g \<in> set gs \<Longrightarrow> bi_Start g < bi_End g"
  by (auto simp: gaps_sorted_def)

lemma gaps_order:
  assumes "gaps_sorted (pre @ mid @ endGap # rest)" "gap = hd (mid @ [endGap])"
  shows "\<forall>h\<in>set pre. bi_End h < bi_Start gap" "\<forall>h\<in>set rest. bi_End endGap < bi_Start h"
    "\<forall>h\<in>set mid. bi_Start gap < bi_End h \<and> bi_End h < bi_End endGap" "bi_Start gap < bi_End endGap"
    "bi_Start gap \<le> bi_Start endGap"
proof -
  show "\<forall>h\<in>set pre. bi_End h < bi_Start gap" "\<forall>h\<in>set rest. bi_End endGap < bi_Start h"
    using assms by (cases mid; auto)+
  have *: "bi_Start endGap < bi_End endGap" "\<forall>h\<in>set mid. bi_End h < bi_Start endGap" using assms(1) by auto
  have **: "\<forall>h\<in>set mid. bi_Start gap < bi_End h"
  proof
    fix h assume h: "h \<in> set mid"
    then obtain l where l: "mid = gap # l" using assms(2) by (cases mid) auto
    then have "bi_Start gap < bi_End gap" "h = gap \<or> bi_End gap < bi_Start h" using assms(1) h by auto
    moreover have "bi_Start h < bi_End h" using gaps_nonempty [OF assms(1)] h by simp
    ultimately show "bi_Start gap < bi_End h" by (auto intro: less_trans)
  qed
  show "\<forall>h\<in>set mid. bi_Start gap < bi_End h \<and> bi_End h < bi_End endGap" using * ** by (blast intro: less_trans)
  show "bi_Start gap \<le> bi_Start endGap" 
    using assms * ** by (cases mid) (auto intro!: less_imp_le intro: less_trans)
  then show "bi_Start gap < bi_End endGap" using * by (blast intro: le_less_trans)
qed

lemma fill_tiled:
  assumes inv: "reassembly_inv \<sigma> F s" and meets: "meets (fb_gaps s) start end pre mid endGap rest"
    and gap: "gap = hd (mid @ [endGap])" and F: "unat end \<le> F"
    and start': "start' = max start (bi_Start gap)" and end': "end' = min end (bi_End endGap)"
    and gs': "gs' = pre @ splitGap (bi_Start gap) start' end' (bi_End endGap) @ rest"
    and f': "sf_Offset f' = start'" "sf_Data f' = map \<sigma> [unat start'..<unat end']"
    and q': "q' = (fb_queuedFrames s |` (- bi_End ` set mid))(start' \<mapsto> f')"
  shows "tiled q' gs' start'"
    and "tiled (fb_queuedFrames s) (fb_gaps s) p \<Longrightarrow> p \<le> bi_Start gap \<or> bi_End endGap \<le> p \<Longrightarrow> tiled q' gs' p"
proof -
  have sorted: "gaps_sorted (fb_gaps s)" and FM: "F < unat MaxByteCount" and ok: "queue_ok \<sigma> F (fb_queuedFrames s) (fb_gaps s)"
    and r: "\<And>g. g \<in> set (fb_gaps s) \<Longrightarrow> fb_readPosition s \<le> bi_Start g \<and> unat (bi_Start g) \<le> F"
    and tr: "tiled (fb_queuedFrames s) (fb_gaps s) (fb_readPosition s)"
    and te: "\<And>g. g \<in> set (fb_gaps s) \<Longrightarrow> bi_End g \<noteq> MaxByteCount \<Longrightarrow> tiled (fb_queuedFrames s) (fb_gaps s) (bi_End g)"
    using inv by (simp_all add: reassembly_inv_def)
  note fill = fill_gaps [OF sorted meets gap start' end' gs']
  have gs: "fb_gaps s = pre @ mid @ endGap # rest" using meets by (simp add: meets_def)
  have gin: "gap \<in> set (fb_gaps s)" using gs gap by (cases mid) auto
  have ein: "endGap \<in> set (fb_gaps s)" using gs by simp
  note order = gaps_order [OF sorted [unfolded gs] gap]
  let ?q = "fb_queuedFrames s" and ?lo = "bi_Start gap" and ?hi = "bi_End endGap"
  have le: "?lo \<le> start'" "start' < end'" "end' \<le> end" "end' \<le> ?hi" "start \<le> start'"
    using fill(1) start' end' by simp_all
  have F': "unat end' \<le> F" using le(3) F by (simp add: word_le_nat_alt)
  have split: "g \<in> set (splitGap ?lo start' end' ?hi) \<longleftrightarrow>
      ?lo < start' \<and> g = \<lparr>bi_Start = ?lo, bi_End = start'\<rparr> \<or> end' < ?hi \<and> g = \<lparr>bi_Start = end', bi_End = ?hi\<rparr>" for g
    by (auto simp: splitGap_def)
  have upper: "tiled q' gs' p" if "tiled ?q (fb_gaps s) p" "?hi \<le> p" for p
  proof (rule tiled_upper [OF that(1) ok FM that(2)])
    show "q' r = ?q r" if "?hi \<le> r" for r
      using that le order(3) by (auto simp: q' restrict_map_def)
    show "g \<in> set gs'" if "g \<in> set (fb_gaps s)" "?hi \<le> bi_Start g" for g
      using that order gaps_nonempty [OF sorted that(1)] unfolding gs gs' by auto
  qed
  show at_start: "tiled q' gs' start'"
  proof (rule tiled.frame [where f = f'])
    have "start' + sf_DataLen f' = end'" using f' le by (simp add: sf_DataLen_def word_less_nat_alt word_unat_eq_iff unat_of_nat)
    moreover have "tiled q' gs' end'"
    proof (cases "end' < ?hi")
      case True
      then show ?thesis using tiled.gap [of "\<lparr>bi_Start = end', bi_End = ?hi\<rparr>" gs'] by (simp add: gs' split)
    next
      case False
      then have "end' = ?hi" using le by simp
      moreover then have "?hi \<noteq> MaxByteCount" using F' FM by auto
      ultimately show ?thesis using upper te [OF ein] by simp
    qed
    ultimately show "tiled q' gs' (start' + sf_DataLen f')" by simp
  qed (use f' le in \<open>simp_all add: q' word_less_nat_alt\<close>)
  have at_lo: "tiled q' gs' ?lo"
  proof (cases "?lo = start'")
    case False
    then have "\<lparr>bi_Start = ?lo, bi_End = start'\<rparr> \<in> set gs'" using le(1) by (simp add: gs' split order.order_iff_strict)
    from tiled.gap [OF this] show ?thesis by simp
  qed (use at_start in simp)
  have "tiled q' gs' p" if "tiled ?q (fb_gaps s) p" "p \<le> ?lo" for p
  proof (rule tiled_lower [OF that(1) ok FM that(2) _ _ _ at_lo])
    show "unat ?lo \<in> gapset (fb_gaps s)"
      using gin gaps_nonempty [OF sorted gin] by (auto simp: in_gapset word_less_nat_alt)
    show "q' r = ?q r" if "r < ?lo" for r
      using that le(1) order(3) by (auto simp: q' restrict_map_def)
    show "g \<in> set gs'" if "g \<in> set (fb_gaps s)" "bi_Start g < ?lo" for g
      using that sorted gap unfolding gs gs' by (cases mid) (auto dest: less_trans less_imp_le)
  qed
  then show "tiled q' gs' p" if "tiled ?q (fb_gaps s) p" "p \<le> ?lo \<or> ?hi \<le> p" using that upper by blast
qed

lemma fill_inv:
  assumes inv: "reassembly_inv \<sigma> F s" and meets: "meets (fb_gaps s) start end pre mid endGap rest"
    and gap: "gap = hd (mid @ [endGap])" and F: "unat end \<le> F"
    and start': "start' = max start (bi_Start gap)" and end': "end' = min end (bi_End endGap)"
    and gs': "gs' = pre @ splitGap (bi_Start gap) start' end' (bi_End endGap) @ rest"
    and f': "sf_Offset f' = start'" "sf_Data f' = map \<sigma> [unat start'..<unat end']"
    and q': "q' = (fb_queuedFrames s |` (- bi_End ` set mid))(start' \<mapsto> f')"
  shows "reassembly_inv \<sigma> F (s\<lparr>fb_queuedFrames := q', fb_gaps := gs'\<rparr>)"
proof -
  have sorted: "gaps_sorted (fb_gaps s)" and FM: "F < unat MaxByteCount" and ok: "queue_ok \<sigma> F (fb_queuedFrames s) (fb_gaps s)"
    and r: "\<And>g. g \<in> set (fb_gaps s) \<Longrightarrow> fb_readPosition s \<le> bi_Start g \<and> unat (bi_Start g) \<le> F"
    and tr: "tiled (fb_queuedFrames s) (fb_gaps s) (fb_readPosition s)"
    and te: "\<And>g. g \<in> set (fb_gaps s) \<Longrightarrow> bi_End g \<noteq> MaxByteCount \<Longrightarrow> tiled (fb_queuedFrames s) (fb_gaps s) (bi_End g)"
    and last: "\<exists>g\<in>set (fb_gaps s). bi_End g = MaxByteCount"
    using inv by (simp_all add: reassembly_inv_def)
  note fill = fill_gaps [OF sorted meets gap start' end' gs'] and tiles = fill_tiled [OF inv meets gap F start' end' gs' f' q']
  have gs: "fb_gaps s = pre @ mid @ endGap # rest" using meets by (simp add: meets_def)
  have gin: "gap \<in> set (fb_gaps s)" using gs gap by (cases mid) auto
  note order = gaps_order [OF sorted [unfolded gs] gap]
  let ?lo = "bi_Start gap" and ?hi = "bi_End endGap"
  have le: "?lo \<le> start'" "start' < end'" "end' \<le> end" "start \<le> start'" using fill(1) start' end' by simp_all
  have F': "unat end' \<le> F" using le(3) F by (simp add: word_le_nat_alt)
  have ok': "queue_ok \<sigma> F q' gs'"
    unfolding q' by (rule queue_fill [OF ok fill(3) _ _ F' le(2) f']) (use le in \<open>simp_all add: word_le_nat_alt\<close>)
  have starts: "fb_readPosition s \<le> bi_Start g \<and> unat (bi_Start g) \<le> F" if "g \<in> set gs'" for g
    using that r [of g] r [OF gin] le F' by (auto simp: gs' gs splitGap_def split: if_splits)
  have ends: "tiled q' gs' (bi_End g)" if "g \<in> set gs'" "bi_End g \<noteq> MaxByteCount" for g
  proof -
    note g = that
    consider "g \<in> set pre" | "g \<in> set rest" | "bi_End g = start'" | "bi_End g = ?hi"
      using g(1) by (auto simp: gs' splitGap_def split: if_splits)
    then show ?thesis
    proof cases
      case 1
      then have "bi_End g \<le> ?lo" using order(1) by (auto intro: less_imp_le)
      then show ?thesis using tiles(2) te [of g] g(2) 1 by (simp add: gs)
    next
      case 2
      then have "?hi \<le> bi_End g" using order(2) gaps_nonempty [OF sorted, of g] by (auto simp: gs intro: less_imp_le less_trans)
      then show ?thesis using tiles(2) te [of g] g(2) 2 by (simp add: gs)
    next
      case 4
      then show ?thesis using tiles(2) te [of endGap] g(2) by (simp add: gs)
    qed (use tiles(1) in simp)
  qed
  have "\<forall>h\<in>set mid. bi_End h \<noteq> MaxByteCount"
    using order(3) leD [OF word_order.extremum [of ?hi]] by (auto simp: MaxByteCount_def)
  moreover have "end' < MaxByteCount" using F' FM by (simp add: word_less_nat_alt)
  ultimately have "\<exists>g\<in>set gs'. bi_End g = MaxByteCount" using last by (auto simp: gs' gs splitGap_def)
  moreover have "tiled q' gs' (fb_readPosition s)" using tiles(2) [OF tr] r [OF gin] by blast
  ultimately show ?thesis using FM fill(4) ok' starts ends by (simp add: reassembly_inv_def)
qed

text \<open>Cutting a frame.\<close>

lemma dropFront_slice:
  assumes "sf_Data f = map \<sigma> [unat (sf_Offset f)..<e]" "sf_Offset f \<le> p"
  shows "sf_Data (dropFront (p - sf_Offset f) f) = map \<sigma> [unat p..<e]" "sf_Offset (dropFront (p - sf_Offset f) f) = p"
  using assms by (simp_all add: dropFront_def drop_map unat_sub word_le_nat_alt)

lemma cutEnd_slice:
  assumes "sf_Data f = map \<sigma> [unat start..<unat end]" "start < end" "start < bi_End g"
  shows "cutEnd end g f =
    (f\<lparr>sf_Data := map \<sigma> [unat start..<unat (min end (bi_End g))]\<rparr>, min end (bi_End g))"
proof (cases "bi_End g < end")
  case True
  have "(of_nat (unat end - unat start) :: ByteCount) = end - start"
    using assms(2) by (simp add: of_nat_diff word_less_nat_alt)
  then have "sf_DataLen f - (end - bi_End g) = bi_End g - start" using assms(1) by (simp add: sf_DataLen_def)
  then have "unat (sf_DataLen f - (end - bi_End g)) = unat (bi_End g) - unat start"
    using assms(3) by (simp only: unat_sub less_imp_le)
  then show ?thesis using True assms by (simp add: cutEnd_def min_def take_map word_less_nat_alt word_le_nat_alt)
next
  case False
  then show ?thesis using assms(1) by (auto simp: cutEnd_def min_def)
qed

text \<open>
  A frame of the stream is refused as a duplicate when all its bytes are there, refused when it leaves too many gaps,
  and otherwise stored.
\<close>

definition insert_outcome ::
    "(nat \<Rightarrow> uint8) \<Rightarrow> nat \<Rightarrow> StreamFrame \<Rightarrow> 'a streamFrameBuffer_scheme \<Rightarrow> 'b result \<times> 'a streamFrameBuffer_scheme \<Rightarrow> bool" where
  "insert_outcome \<sigma> F f s = (\<lambda>(r, s').
     if r = Inl errTooManyGapsInReceivedStreamData then True
     else reassembly_inv \<sigma> F s' \<and> fb_readPosition s' = fb_readPosition s \<and>
          gapset (fb_gaps s') = gapset (fb_gaps s) - frame_set f \<and> fb_unreliableMarker s' = fb_unreliableMarker s \<and>
          (if frame_set f \<inter> gapset (fb_gaps s) = {} then r = Inl errDuplicateStreamData else \<not> isl r))"

lemma errors_distinct [simp]: "errDuplicateStreamData \<noteq> errTooManyGapsInReceivedStreamData"
  "errTooManyGapsInReceivedStreamData \<noteq> errDuplicateStreamData" 
  by (simp_all add: errDuplicateStreamData_def errTooManyGapsInReceivedStreamData_def)

lemma insertFrame_hit:
  assumes inv: "reassembly_inv \<sigma> F s"
    and data: "sf_Data f = map \<sigma> [unat (sf_Offset f)..<unat end]" and e: "end = sf_Offset f + sf_DataLen f"
    and se: "sf_Offset f < end" "unat end \<le> F" "end < MaxByteCount"
    and find: "findGap bug (sf_Offset f) end [] (fb_gaps s) = Inr (pre, gap, gaps)"
    and m: "fb_gaps s = pre @ gap # gaps" "\<forall>h\<in>set pre. bi_End h < sf_Offset f" "bi_Start gap < end" "sf_Offset f < bi_End gap"
  obtains mid endGap rest f' q' gs' where
    "meets (fb_gaps s) (sf_Offset f) end pre mid endGap rest"
    "reassembly_inv \<sigma> F (s\<lparr>fb_queuedFrames := q', fb_gaps := gs'\<rparr>)"
    "gapset gs' = gapset (fb_gaps s) - {unat (sf_Offset f)..<unat end}"
    "insertFrame bug f s =
       (if length gs' > MaxStreamFrameSorterGaps
        then (Inl errTooManyGapsInReceivedStreamData, s\<lparr>fb_queuedFrames := fb_queuedFrames s |` (- bi_End ` set mid), fb_gaps := gs'\<rparr>)
        else (Inr f', s\<lparr>fb_queuedFrames := q', fb_gaps := gs'\<rparr>))"
proof -
  define start' where "start' = max (sf_Offset f) (bi_Start gap)"
  define f1 where "f1 = (if sf_Offset f < bi_Start gap then dropFront (bi_Start gap - sf_Offset f) f else f)"
  have f1: "sf_Data f1 = map \<sigma> [unat start'..<unat end]" "sf_Offset f1 = start'"
    using dropFront_slice [OF data, of "bi_Start gap"] data by (auto simp: f1_def start'_def max_def)
  have sorted: "gaps_sorted (fb_gaps s)" and last: "\<exists>g\<in>set (fb_gaps s). bi_End g = MaxByteCount"
    using inv by (simp_all add: reassembly_inv_def)
  obtain g where g: "g \<in> set (fb_gaps s)" "bi_End g = MaxByteCount" using last by blast
  then have "g \<notin> set pre" using m(2) less_trans [OF se(1,3)] by (auto dest: less_asym)
  then have "\<exists>h\<in>set (gap # gaps). end < bi_End h" using g m(1) se(3) by (intro bexI [of _ g]) auto
  then have "case endGapLoop bug end True gap gaps (fb_queuedFrames s) of (err, isGap', listed, endGap, rest, q') \<Rightarrow>
    err = None \<and> (\<exists>mid. gap # gaps = mid @ endGap # rest \<and> (\<forall>h\<in>set mid. bi_End h < end) \<and> bi_Start endGap < end \<and>
    isGap' = (True \<and> mid = []) \<and> q' = fb_queuedFrames s |` (- bi_End ` set mid) \<and>
    (end < bi_End endGap \<and> listed \<or> bi_End endGap \<le> end \<and> listed = isGap' \<and> (\<forall>h\<in>set rest. end \<le> bi_Start h)))"
    using sorted m(1,3) by (intro endGapLoop_spec) auto
  then obtain listed endGap rest mid where loop:
    "endGapLoop bug end True gap gaps (fb_queuedFrames s) = (None, mid = [], listed, endGap, rest, fb_queuedFrames s |` (- bi_End ` set mid))"
    "gap # gaps = mid @ endGap # rest" "\<forall>h\<in>set mid. bi_End h < end" "bi_Start endGap < end"
    "end < bi_End endGap \<and> listed \<or> bi_End endGap \<le> end \<and> listed = (mid = []) \<and> (\<forall>h\<in>set rest. end \<le> bi_Start h)"
    by (cases "endGapLoop bug end True gap gaps (fb_queuedFrames s)") auto
  define end' where "end' = min end (bi_End endGap)"
  define gs' where "gs' = pre @ splitGap (bi_Start gap) start' end' (bi_End endGap) @ rest"
  define f' where "f' = f1\<lparr>sf_Data := map \<sigma> [unat start'..<unat end']\<rparr>"
  define q' where "q' = (fb_queuedFrames s |` (- bi_End ` set mid))(start' \<mapsto> f')"
  have gap: "gap = hd (mid @ [endGap])" using loop(2) by (cases mid) auto
  have meets: "meets (fb_gaps s) (sf_Offset f) end pre mid endGap rest"
    using m se loop by (auto simp: meets_def gap [symmetric])
  note fill = fill_gaps [OF sorted meets gap start'_def end'_def gs'_def]
  have lo: "bi_Start gap \<le> start'" "start' < bi_End endGap" "start' < end"
    using fill(1,2) by (auto simp: start'_def end'_def min_def split: if_splits)
  have cut: "cutEnd end endGap f1 = (f', end')"
    using cutEnd_slice [OF f1(1) lo(3,2)] by (simp add: f'_def end'_def)
  have adjust: "adjustGaps start' end' pre gap (mid = []) listed endGap rest = gs'"
    using sorted m(1) loop fill(1,2) lo unfolding gs'_def
    by (intro adjustGaps_eq [where mid = mid]) (auto simp: end'_def min_def split: if_splits)
  have "reassembly_inv \<sigma> F (s\<lparr>fb_queuedFrames := q', fb_gaps := gs'\<rparr>)"
    by (rule fill_inv [OF inv meets gap se(2) start'_def end'_def gs'_def _ _ q'_def]) (simp_all add: f'_def f1)
  moreover have "(if sf_Offset f < bi_Start gap then bi_Start gap else sf_Offset f) = start'" "sf_Offset f' = start'"
    using f1(2) by (auto simp: start'_def max_def f'_def)
  then have "insertFrame bug f s =
       (if length gs' > MaxStreamFrameSorterGaps
        then (Inl errTooManyGapsInReceivedStreamData, s\<lparr>fb_queuedFrames := fb_queuedFrames s |` (- bi_End ` set mid), fb_gaps := gs'\<rparr>)
        else (Inr f', s\<lparr>fb_queuedFrames := q', fb_gaps := gs'\<rparr>))"
    by (simp add: insertFrame_def Let_def e [symmetric] f1_def [symmetric] find loop(1) cut adjust q'_def)
  ultimately show ?thesis using that meets fill(3) by blast
qed

lemma meets_hits:
  assumes "gaps_sorted gs" "meets gs start end pre mid endGap rest"
  shows "{unat start..<unat end} \<inter> gapset gs \<noteq> {}"
proof -
  define gap where "gap = hd (mid @ [endGap])"
  define p where "p = max start (bi_Start gap)"
  have g: "gap \<in> set gs" "start < end" "bi_Start gap < end" "start < bi_End gap"
    using assms(2) by (cases mid; simp add: meets_def gap_def)+
  moreover have "bi_Start gap < bi_End gap" using gaps_nonempty [OF assms(1) g(1)] .
  ultimately have "unat p \<in> {unat start..<unat end}" "unat p \<in> gapset gs"
    by (auto simp: p_def in_gapset max_def word_le_nat_alt word_less_nat_alt intro!: bexI [of _ gap])
  then show ?thesis by blast
qed

lemma insertFrame_outcome:
  assumes inv: "reassembly_inv \<sigma> F s" and f: "frame_of \<sigma> F f" "sf_Data f \<noteq> []"
    and ne: "\<forall>g\<in>set (fb_gaps s). sf_Offset f \<noteq> bi_End g"
  shows "insert_outcome \<sigma> F f s (insertFrame bug f s)"
proof -
  define stop where "stop = sf_Offset f + sf_DataLen f"
  have sorted: "gaps_sorted (fb_gaps s)" and FM: "F < unat MaxByteCount" and last: "\<exists>g\<in>set (fb_gaps s). bi_End g = MaxByteCount"
    using inv by (simp_all add: reassembly_inv_def)
  have e: "unat stop = unat (sf_Offset f) + length (sf_Data f)" using frame_end(2) [OF f(1) FM] by (simp add: stop_def)
  then have se: "sf_Offset f < stop" "unat stop \<le> F" "stop < MaxByteCount"
    using f FM by (simp_all add: word_less_nat_alt frame_of_def)
  have fs: "frame_set f = {unat (sf_Offset f)..<unat stop}" and data: "sf_Data f = map \<sigma> [unat (sf_Offset f)..<unat stop]"
    using e f(1) by (simp_all add: frame_set_def frame_of_def)
  have "\<exists>g\<in>set (fb_gaps s). stop \<le> bi_End g" using last se(3) by (force intro: less_imp_le)
  note find = findGap_spec [OF sorted se(1) ne this, where bug = bug and pre = "[]"]
  show ?thesis
  proof (cases "findGap bug (sf_Offset f) stop [] (fb_gaps s)")
    case (Inl err)
    then have "err = errDuplicateStreamData" "gapset (fb_gaps s) \<inter> frame_set f = {}" "insertFrame bug f s = (Inl err, s)"
      using find fs by (simp_all add: insertFrame_def stop_def Let_def)
    then show ?thesis using inv by (auto simp: insert_outcome_def)
  next
    case (Inr res)
    obtain pre gap gaps where res: "res = (pre, gap, gaps)" by (cases res)
    then have m: "fb_gaps s = pre @ gap # gaps" "\<forall>h\<in>set pre. bi_End h < sf_Offset f" "bi_Start gap < stop" "sf_Offset f < bi_End gap"
      using find Inr by simp_all
    from insertFrame_hit [OF inv data stop_def se Inr [unfolded res] m] obtain mid endGap rest f' q' gs' where
      hit: "meets (fb_gaps s) (sf_Offset f) stop pre mid endGap rest"
      "reassembly_inv \<sigma> F (s\<lparr>fb_queuedFrames := q', fb_gaps := gs'\<rparr>)"
      "gapset gs' = gapset (fb_gaps s) - {unat (sf_Offset f)..<unat stop}"
      "insertFrame bug f s =
         (if length gs' > MaxStreamFrameSorterGaps
          then (Inl errTooManyGapsInReceivedStreamData, s\<lparr>fb_queuedFrames := fb_queuedFrames s |` (- bi_End ` set mid), fb_gaps := gs'\<rparr>)
          else (Inr f', s\<lparr>fb_queuedFrames := q', fb_gaps := gs'\<rparr>))" .
    have "frame_set f \<inter> gapset (fb_gaps s) \<noteq> {}" unfolding fs by (rule meets_hits [OF sorted hit(1)])
    then show ?thesis using hit(2,3) unfolding hit(4) insert_outcome_def by (simp add: fs)
  qed
qed

text \<open>
  A frame that the peer sends; only the last one is empty. When a frame begins where a queued frame begins, the
  insertion works on the rest of it, which begins at no end of a gap.
\<close>

definition sent_frame :: "(nat \<Rightarrow> uint8) \<Rightarrow> nat \<Rightarrow> StreamFrame \<Rightarrow> bool" where
  "sent_frame \<sigma> F f \<longleftrightarrow> frame_of \<sigma> F f \<and> (if sf_Data f = [] then sf_FinBit f \<and> unat (sf_Offset f) = F else True)"

lemma queued:
  assumes "reassembly_inv \<sigma> F s" "fb_queuedFrames s p = Some f"
  shows "sf_Offset f = p" "frame_of \<sigma> F f" "frame_set f \<inter> gapset (fb_gaps s) = {}"
  using assms by (auto simp: reassembly_inv_def queue_ok_def)

lemma gap_end_queued:
  assumes inv: "reassembly_inv \<sigma> F s" and g: "g \<in> set (fb_gaps s)" "unat (bi_End g) \<le> F"
  obtains f where "fb_queuedFrames s (bi_End g) = Some f" "sf_Data f \<noteq> []"
proof -
  have "bi_End g \<noteq> MaxByteCount" using inv g(2) by (auto simp: reassembly_inv_def)
  then have "tiled (fb_queuedFrames s) (fb_gaps s) (bi_End g)" using inv g(1) by (simp add: reassembly_inv_def)
  then show ?thesis
  proof cases
    case (gap h)
    have "gaps_sorted (fb_gaps s)" using inv by (simp add: reassembly_inv_def)
    moreover obtain as bs where "fb_gaps s = as @ g # bs" using split_list [OF g(1)] by blast
    ultimately have "h \<in> set as \<and> bi_End h < bi_Start g \<or> h = g \<or> bi_End g < bi_Start h" "bi_Start g < bi_End g" "bi_Start h < bi_End h"
      using gap(2) gaps_nonempty by auto
    then show ?thesis using gap(1) by (auto dest: less_trans less_asym)
  next
    case (frame f)
    then show ?thesis using that by blast
  qed
qed

lemma cutOldFrame_outcome:
  assumes inv: "reassembly_inv \<sigma> F s" and f: "frame_of \<sigma> F f" "sf_Data f \<noteq> []"
  shows "case cutOldFrame (fb_queuedFrames s) f of
      Inl e \<Rightarrow> e = errDuplicateStreamData \<and> frame_set f \<inter> gapset (fb_gaps s) = {}
    | Inr f1 \<Rightarrow> frame_of \<sigma> F f1 \<and> sf_Data f1 \<noteq> [] \<and> frame_set f1 \<subseteq> frame_set f \<and>
        (frame_set f - frame_set f1) \<inter> gapset (fb_gaps s) = {} \<and> (\<forall>g\<in>set (fb_gaps s). sf_Offset f1 \<noteq> bi_End g)"
proof (cases "fb_queuedFrames s (sf_Offset f)")
  case None
  have "sf_Offset f \<noteq> bi_End g" if "g \<in> set (fb_gaps s)" for g
  proof
    assume "sf_Offset f = bi_End g"
    moreover then have "unat (bi_End g) \<le> F" using f(1) by (simp add: frame_of_def)
    ultimately show False using gap_end_queued [OF inv that] None by fastforce
  qed
  then show ?thesis using None f by (simp add: cutOldFrame_def)
next
  case (Some old)
  note q = queued [OF inv Some]
  have FM: "F < unat MaxByteCount" using inv by (simp add: reassembly_inv_def)
  note l = frame_end [OF f(1) FM] frame_end [OF q(2) FM]
  show ?thesis
  proof (cases "sf_DataLen f \<le> sf_DataLen old")
    case True
    then have "frame_set f \<subseteq> frame_set old" using l q(1) by (auto simp: frame_set_def word_le_nat_alt)
    then show ?thesis using True Some q(3) by (auto simp: cutOldFrame_def)
  next
    case False
    then have lt: "length (sf_Data old) < length (sf_Data f)" using l by (simp add: word_le_nat_alt)
    define f1 where "f1 = dropFront (sf_DataLen old) f"
    have o: "unat (sf_Offset f1) = unat (sf_Offset f) + length (sf_Data old)" and d: "sf_Data f1 = drop (length (sf_Data old)) (sf_Data f)"
      using l q(1) by (simp_all add: f1_def dropFront_def)
    have slice: "sf_Data f = map \<sigma> [unat (sf_Offset f)..<unat (sf_Offset f) + length (sf_Data f)]" using f(1) by (simp add: frame_of_def)
    have "sf_Data f1 = map \<sigma> [unat (sf_Offset f1)..<unat (sf_Offset f) + length (sf_Data f)]"
      unfolding d o by (subst slice) (simp only: drop_map drop_upt)
    then have "frame_of \<sigma> F f1" using f(1) lt by (simp add: frame_of_def o)
    moreover have "frame_set f1 \<subseteq> frame_set f" "frame_set f - frame_set f1 \<subseteq> frame_set old" "sf_Data f1 \<noteq> []"
      using lt q(1) by (auto simp: frame_set_def o d)
    moreover have "sf_Offset f1 \<noteq> bi_End g" if g: "g \<in> set (fb_gaps s)" for g
    proof
      assume eq: "sf_Offset f1 = bi_End g"
      have "unat (bi_End g) \<le> F" using o lt f(1) by (simp add: eq [symmetric] frame_of_def)
      from gap_end_queued [OF inv g this] obtain h where h: "fb_queuedFrames s (bi_End g) = Some h" "sf_Data h \<noteq> []" .
      have "bi_Start g < bi_End g" using inv g by (auto simp: reassembly_inv_def intro: gaps_nonempty)
      then have "unat (sf_Offset f1) - 1 \<in> gapset (fb_gaps s)"
        using g by (auto simp: eq in_gapset word_less_nat_alt intro!: bexI [of _ g])
      then have "unat (sf_Offset f1) - 1 \<notin> frame_set old" using q(3) by blast
      then have "length (sf_Data old) = 0" using o q(1) by (simp only: frame_set_def atLeastLessThan_iff) linarith
      moreover then have "bi_End g = sf_Offset f" using o by (simp add: eq [symmetric] word_unat_eq_iff)
      ultimately show False using h Some by simp
    qed
    ultimately show ?thesis using False Some q(3) by (auto simp: cutOldFrame_def f1_def [symmetric])
  qed
qed

lemma insert_outcome_mono:
  assumes "insert_outcome \<sigma> F f1 s (r, s')" "frame_set f1 \<subseteq> frame_set f" "(frame_set f - frame_set f1) \<inter> gapset (fb_gaps s) = {}"
  shows "insert_outcome \<sigma> F f s (r', s') \<longleftrightarrow> insert_outcome \<sigma> F f1 s (r', s')"
proof -
  have "frame_set f \<inter> gapset (fb_gaps s) = frame_set f1 \<inter> gapset (fb_gaps s)"
    "gapset (fb_gaps s) - frame_set f = gapset (fb_gaps s) - frame_set f1" using assms(2,3) by auto
  then show ?thesis by (simp add: insert_outcome_def)
qed

lemma tiled_empty:
  assumes "tiled q gs p" "\<And>g. q a = Some g \<Longrightarrow> sf_Data g = []"
  shows "tiled (q(a := v)) gs p"
  using assms(1)
proof induction
  case (frame p g)
  then show ?case using assms(2) by (auto intro!: tiled.frame [of _ p g])
qed (rule tiled.gap)

text \<open>What the two methods \<^verbatim>\<open>Push\<close> do with a frame of the stream.\<close>

definition push_outcome ::
    "(nat \<Rightarrow> uint8) \<Rightarrow> nat \<Rightarrow> StreamFrame \<Rightarrow> 'a streamFrameBuffer_scheme \<Rightarrow> 'b result \<times> 'a streamFrameBuffer_scheme \<Rightarrow> bool" where
  "push_outcome \<sigma> F f s = (\<lambda>(r, s').
     if sf_Data f = []
     then \<not> isl r \<and> reassembly_inv \<sigma> F s' \<and> fb_gaps s' = fb_gaps s \<and> fb_readPosition s' = fb_readPosition s \<and>
          fb_unreliableMarker s' = fb_unreliableMarker s
     else insert_outcome \<sigma> F f s (r, s'))"

lemma pushFrame_empty:
  assumes inv: "reassembly_inv \<sigma> F s" and f: "sf_Data f = []" "unat (sf_Offset f) = F"
  shows "reassembly_inv \<sigma> F (s\<lparr>fb_queuedFrames := (fb_queuedFrames s)(sf_Offset f \<mapsto> f)\<rparr>)"
proof -
  have "sf_Data g = []" if "fb_queuedFrames s (sf_Offset f) = Some g" for g
    using queued(1,2) [OF inv that] f(2) by (simp add: frame_of_def)
  note tiles = tiled_empty [of "fb_queuedFrames s" "fb_gaps s" _ "sf_Offset f", OF _ this]
  have "queue_ok \<sigma> F ((fb_queuedFrames s)(sf_Offset f \<mapsto> f)) (fb_gaps s)"
    using inv f by (auto simp: reassembly_inv_def queue_ok_def frame_of_def frame_set_def)
  then show ?thesis using inv tiles by (auto simp: reassembly_inv_def)
qed

lemma pushFrame_outcome:
  assumes inv: "reassembly_inv \<sigma> F s" and f: "sent_frame \<sigma> F f"
  shows "push_outcome \<sigma> F f s (pushFrame bug f s)"
proof (cases "sf_Data f = []")
  case True
  then have "sf_DataLen f = 0" "sf_FinBit f" "unat (sf_Offset f) = F" using f by (simp_all add: sf_DataLen_def sent_frame_def)
  then show ?thesis using pushFrame_empty [OF inv True] True by (simp add: pushFrame_def push_outcome_def)
next
  case False
  have FM: "F < unat MaxByteCount" using inv by (simp add: reassembly_inv_def)
  have fr: "frame_of \<sigma> F f" using f by (simp add: sent_frame_def)
  have len: "sf_DataLen f \<noteq> 0" using frame_end(1) [OF fr FM] False by auto
  note cut = cutOldFrame_outcome [OF inv fr False]
  show ?thesis
  proof (cases "cutOldFrame (fb_queuedFrames s) f")
    case (Inl e)
    then show ?thesis using cut inv False len by (auto simp: pushFrame_def push_outcome_def insert_outcome_def)
  next
    case (Inr f1)
    with cut have f1: "frame_of \<sigma> F f1" "sf_Data f1 \<noteq> []" "frame_set f1 \<subseteq> frame_set f"
      "(frame_set f - frame_set f1) \<inter> gapset (fb_gaps s) = {}" "\<forall>g\<in>set (fb_gaps s). sf_Offset f1 \<noteq> bi_End g" by simp_all
    obtain r s' where i: "insertFrame bug f1 s = (r, s')" by fastforce
    have o: "insert_outcome \<sigma> F f1 s (r, s')" using insertFrame_outcome [OF inv f1(1,2,5), of bug] by (simp add: i)
    then have "insert_outcome \<sigma> F f s (r, s')" using insert_outcome_mono [OF o f1(3,4)] by blast
    then show ?thesis using False len Inr i
      by (cases r) (auto simp: pushFrame_def push_outcome_def insert_outcome_def split: if_splits)
  qed
qed

section \<open>Reading\<close>

text \<open>Taking out the frame at the read position.\<close>

lemma take_frame:
  assumes inv: "reassembly_inv \<sigma> F s" and f: "fb_queuedFrames s (fb_readPosition s) = Some f"
  shows "reassembly_inv \<sigma> F (s\<lparr>fb_readPosition := fb_readPosition s + sf_DataLen f,
    fb_queuedFrames := (fb_queuedFrames s)(fb_readPosition s := None)\<rparr>)" (is "reassembly_inv \<sigma> F ?s")
proof -
  let ?p = "fb_readPosition s" and ?q = "fb_queuedFrames s"
  note q = queued [OF inv f]
  have FM: "F < unat MaxByteCount" and sorted: "gaps_sorted (fb_gaps s)" and ok: "queue_ok \<sigma> F ?q (fb_gaps s)"
    and r: "\<And>g. g \<in> set (fb_gaps s) \<Longrightarrow> ?p \<le> bi_Start g"
    using inv by (auto simp: reassembly_inv_def)
  have e: "unat (?p + sf_DataLen f) = unat ?p + length (sf_Data f)" using frame_end(2) [OF q(2) FM] by (simp add: q(1))
  have r': "?p + sf_DataLen f \<le> bi_Start g" if g: "g \<in> set (fb_gaps s)" for g
  proof -
    have "unat (bi_Start g) \<in> gapset (fb_gaps s)" using g gaps_nonempty [OF sorted g] by (auto simp: in_gapset word_less_nat_alt)
    then have "unat (bi_Start g) \<notin> frame_set f" using q(3) by blast
    then show ?thesis using r [OF g] by (simp add: frame_set_def q(1) e word_le_nat_alt)
  qed
  have ok': "queue_ok \<sigma> F (?q(?p := None)) (fb_gaps s)" using ok by (simp add: queue_ok_def)
  have tiles: "tiled (?q(?p := None)) (fb_gaps s) r" if "tiled ?q (fb_gaps s) r" "?p + sf_DataLen f \<le> r" for r
  proof (cases "sf_Data f = []")
    case True
    then show ?thesis using tiled_empty [OF that(1), of ?p] f by auto
  next
    case False
    then have "?p < ?p + sf_DataLen f" using e by (simp add: word_less_nat_alt)
    then show ?thesis by (auto intro!: tiled_upper [OF that(1) ok FM that(2)])
  qed
  have "tiled ?q (fb_gaps s) ?p" using inv by (simp add: reassembly_inv_def)
  then have "tiled ?q (fb_gaps s) (?p + sf_DataLen f)"
  proof cases
    case (gap g)
    then have "?p + sf_DataLen f = ?p" using r' [OF gap(2)] e by (simp add: word_le_nat_alt word_unat_eq_iff)
    then show ?thesis using \<open>tiled ?q (fb_gaps s) ?p\<close> by simp
  qed (use f in simp)
  moreover have "?p + sf_DataLen f \<le> bi_End g" if "g \<in> set (fb_gaps s)" for g
    using r' [OF that] gaps_nonempty [OF sorted that] by simp
  ultimately show ?thesis using inv ok' r' tiles by (simp add: reassembly_inv_def)
qed

text \<open>
  A run of the sorter of a reliable stream: frames arrive in any order and any number of times, and the reader pops.
  \<open>R\<close> is the set of the bytes received and \<open>out\<close> what the reader got.
\<close>

inductive sorter_run :: "(nat \<Rightarrow> uint8) \<Rightarrow> nat \<Rightarrow> streamFrameSorter \<Rightarrow> nat set \<Rightarrow> bytes \<Rightarrow> bool" for \<sigma> F where
  start: "sorter_run \<sigma> F newStreamFrameSorter {} []"
| push: "sorter_run \<sigma> F s R out \<Longrightarrow> sent_frame \<sigma> F f \<Longrightarrow> sfs_Push now f flag s = (e, s') \<Longrightarrow>
    e \<noteq> Some errTooManyGapsInReceivedStreamData \<Longrightarrow> sorter_run \<sigma> F s' (R \<union> frame_set f) out"
| pop: "sorter_run \<sigma> F s R out \<Longrightarrow> sfs_Pop now s = Inr (res, s') \<Longrightarrow>
    sorter_run \<sigma> F s' R (out @ (case res of None \<Rightarrow> [] | Some f \<Rightarrow> sf_Data f))"

lemma new_inv: "F < unat MaxByteCount \<Longrightarrow> reassembly_inv \<sigma> F newStreamFrameSorter"
  using tiled.gap [of "\<lparr>bi_Start = 0, bi_End = MaxByteCount\<rparr>" "[\<lparr>bi_Start = 0, bi_End = MaxByteCount\<rparr>]"]
  by (auto simp: reassembly_inv_def newStreamFrameSorter_def queue_ok_def MaxByteCount_def word_gt_0)

lemma reassembly_inv_cong:
  "fb_queuedFrames s' = fb_queuedFrames s \<Longrightarrow> fb_gaps s' = fb_gaps s \<Longrightarrow> fb_readPosition s' = fb_readPosition s \<Longrightarrow>
   reassembly_inv \<sigma> F s' \<longleftrightarrow> reassembly_inv \<sigma> F s"
  by (simp add: reassembly_inv_def)

lemma sfs_Push_outcome:
  assumes inv: "reassembly_inv \<sigma> F s" and f: "sent_frame \<sigma> F f" and e: "sfs_Push now f flag s = (e, s')"
  shows "e = Some errTooManyGapsInReceivedStreamData \<or>
    reassembly_inv \<sigma> F s' \<and> gapset (fb_gaps s') = gapset (fb_gaps s) - frame_set f \<and>
    fb_readPosition s' = fb_readPosition s \<and> fb_unreliableMarker s' = fb_unreliableMarker s"
proof -
  obtain r t where p: "pushFrame ''StreamFrameSorter'' f s = (r, t)" by fastforce
  have o: "push_outcome \<sigma> F f s (r, t)" using pushFrame_outcome [OF inv f] p by metis
  have eq: "r = Inl e' \<Longrightarrow> e = Some e'" "fb_queuedFrames s' = fb_queuedFrames t" "fb_gaps s' = fb_gaps t"
    "fb_readPosition s' = fb_readPosition t" "fb_unreliableMarker s' = fb_unreliableMarker t" for e'
    using e by (auto simp: sfs_Push_def p Let_def split: sum.splits option.splits if_splits)
  have "frame_set f = {}" if "sf_Data f = []" using that by (simp add: frame_set_def)
  then show ?thesis
    using o eq(1) reassembly_inv_cong [OF eq(2-4)] by (auto simp: push_outcome_def insert_outcome_def eq(2-) split: if_splits)
qed

text \<open>A pop on a reliable stream: the frame at the read position, if there is one.\<close>

lemma sfs_Pop_reliable:
  assumes "reassembly_inv \<sigma> F s" "\<not> fb_unreliableMarker s" "sfs_Pop now s = Inr (res, s')"
  shows "res = fb_queuedFrames s (fb_readPosition s)"
    and "case res of None \<Rightarrow> s' = s
         | Some f \<Rightarrow> streamFrameBuffer.truncate s' =
             streamFrameBuffer.truncate (s\<lparr>fb_readPosition := fb_readPosition s + sf_DataLen f,
               fb_queuedFrames := (fb_queuedFrames s)(fb_readPosition s := None)\<rparr>)"
  using assms queued(1) [OF assms(1)]
  by (auto simp: sfs_Pop_def sfs_Head_def Let_def streamFrameBuffer.truncate_def split: option.splits if_splits)

lemma truncate_eqD:
  assumes "streamFrameBuffer.truncate s = streamFrameBuffer.truncate t"
  shows "fb_queuedFrames s = fb_queuedFrames t" "fb_gaps s = fb_gaps t" "fb_readPosition s = fb_readPosition t"
    "fb_unreliableMarker s = fb_unreliableMarker t"
  using assms by (simp_all add: streamFrameBuffer.truncate_def)

lemma readable:
  assumes inv: "reassembly_inv \<sigma> F s"
  shows "(case fb_queuedFrames s (fb_readPosition s) of Some f \<Rightarrow> sf_Data f \<noteq> [] | None \<Rightarrow> False) \<longleftrightarrow>
    unat (fb_readPosition s) \<notin> gapset (fb_gaps s)"
proof -
  have "tiled (fb_queuedFrames s) (fb_gaps s) (fb_readPosition s)" and sorted: "gaps_sorted (fb_gaps s)"
    using inv by (simp_all add: reassembly_inv_def)
  then show ?thesis
  proof cases
    case (gap g)
    then have "unat (fb_readPosition s) \<in> gapset (fb_gaps s)"
      using gaps_nonempty [OF sorted gap(2)] by (auto simp: in_gapset word_less_nat_alt)
    moreover have "sf_Data f = []" if "fb_queuedFrames s (fb_readPosition s) = Some f" for f
    proof -
      have "unat (fb_readPosition s) \<notin> frame_set f" using calculation queued(3) [OF inv that] by blast
      then show ?thesis using queued(1) [OF inv that] by (simp add: frame_set_def)
    qed
    ultimately show ?thesis by (auto split: option.splits)
  next
    case (frame f)
    then have "unat (fb_readPosition s) \<in> frame_set f" using queued(1) [OF inv frame(1)] by (simp add: frame_set_def)
    then show ?thesis using frame queued(3) [OF inv frame(1)] by auto
  qed
qed

lemma sorter_run_inv:
  assumes "sorter_run \<sigma> F s R out" "F < unat MaxByteCount"
  shows "reassembly_inv \<sigma> F s \<and> \<not> fb_unreliableMarker s \<and> gapset (fb_gaps s) = {..<unat MaxByteCount} - R \<and>
    out = map \<sigma> [0..<unat (fb_readPosition s)]"
  using assms(1)
proof induction
  case start
  then show ?case using new_inv [OF assms(2)] by (auto simp: newStreamFrameSorter_def bi_set_def)
next
  case (push s R out f now flag e s')
  then show ?case using sfs_Push_outcome [of \<sigma> F s f now flag e s'] by auto
next
  case (pop s R out now res s')
  then have inv: "reassembly_inv \<sigma> F s" and rel: "\<not> fb_unreliableMarker s" by simp_all
  note p = sfs_Pop_reliable [OF inv rel pop.hyps(2)]
  show ?case
  proof (cases res)
    case None
    then show ?thesis using pop p by simp
  next
    case (Some f)
    with p have f: "fb_queuedFrames s (fb_readPosition s) = Some f" by simp
    note q = queued [OF inv f] and t = truncate_eqD [OF p(2) [unfolded Some option.case]]
    have e: "unat (fb_readPosition s') = unat (fb_readPosition s) + length (sf_Data f)"
      using frame_end(2) [OF q(2) assms(2)] by (simp add: t q(1))
    have "reassembly_inv \<sigma> F s'" using take_frame [OF inv f] reassembly_inv_cong [OF t(1-3)] by simp
    moreover have "map \<sigma> [0..<unat (fb_readPosition s)] @ sf_Data f = map \<sigma> [0..<unat (fb_readPosition s')]"
      using q(2) unfolding e frame_of_def q(1) upt_add_eq_append [OF le0] map_append by metis
    ultimately show ?thesis using pop.IH rel t Some by simp
  qed
qed

section \<open>The two structs\<close>

text \<open>
  A sequence of operations on a buffer: the answers tell which pushes were accepted and which frames were popped. The
  errors of the two structs differ in the name they begin with.
\<close>

datatype stream_op = PushOp gotime bool StreamFrame | PopOp gotime
datatype stream_answer = Accepted bool | Popped "StreamFrame option" | Panicked

fun sfs_ops :: "stream_op list \<Rightarrow> streamFrameSorter \<Rightarrow> stream_answer list \<times> streamFrameSorter" where
  "sfs_ops [] s = ([], s)"
| "sfs_ops (PushOp now flag f # ops) s =
     (let (e, s) = sfs_Push now f flag s in apfst ((#) (Accepted (e = None))) (sfs_ops ops s))"
| "sfs_ops (PopOp now # ops) s =
     (case sfs_Pop now s of Inl _ \<Rightarrow> ([Panicked], s) | Inr (f, s) \<Rightarrow> apfst ((#) (Popped f)) (sfs_ops ops s))"

fun fb_ops :: "stream_op list \<Rightarrow> streamFrameBuffer \<Rightarrow> stream_answer list \<times> streamFrameBuffer" where
  "fb_ops [] s = ([], s)"
| "fb_ops (PushOp now flag f # ops) s =
     (let (e, s) = fb_Push f s in apfst ((#) (Accepted (e = None))) (fb_ops ops s))"
| "fb_ops (PopOp now # ops) s =
     (case fb_Pop s of Inl _ \<Rightarrow> ([Panicked], s) | Inr (f, s) \<Rightarrow> apfst ((#) (Popped f)) (fb_ops ops s))"

lemma findGap_bug:
  "(case findGap b start end pre gs of Inl _ \<Rightarrow> None | Inr r \<Rightarrow> Some r) =
   (case findGap b' start end pre gs of Inl _ \<Rightarrow> None | Inr r \<Rightarrow> Some r)"
  by (induction gs arbitrary: pre) auto

lemma endGapLoop_bug:
  "snd (endGapLoop b end i g gs q) = snd (endGapLoop b' end i g gs q) \<and>
   (fst (endGapLoop b end i g gs q) = None \<longleftrightarrow> fst (endGapLoop b' end i g gs q) = None)"
  by (induction gs arbitrary: g i q) auto

lemma truncate_simps:
  "fb_gaps (streamFrameBuffer.truncate s) = fb_gaps s" "fb_queuedFrames (streamFrameBuffer.truncate s) = fb_queuedFrames s"
  "fb_readPosition (streamFrameBuffer.truncate s) = fb_readPosition s" "fb_unreliableMarker (streamFrameBuffer.truncate s) = fb_unreliableMarker s"
  "(streamFrameBuffer.truncate s)\<lparr>fb_gaps := gs\<rparr> = streamFrameBuffer.truncate (s\<lparr>fb_gaps := gs\<rparr>)"
  "(streamFrameBuffer.truncate s)\<lparr>fb_queuedFrames := q\<rparr> = streamFrameBuffer.truncate (s\<lparr>fb_queuedFrames := q\<rparr>)"
  "(streamFrameBuffer.truncate s)\<lparr>fb_readPosition := p\<rparr> = streamFrameBuffer.truncate (s\<lparr>fb_readPosition := p\<rparr>)"
  by (simp_all add: streamFrameBuffer.truncate_def)

definition same_answer :: "'b result \<times> 'a streamFrameBuffer_scheme \<Rightarrow> 'b result \<times> streamFrameBuffer \<Rightarrow> bool" where
  "same_answer x y \<longleftrightarrow> rel_sum (\<lambda>_ _. True) (=) (fst x) (fst y) \<and> snd y = streamFrameBuffer.truncate (snd x)"

lemma insertFrame_same: "same_answer (insertFrame b f s) (insertFrame b' f (streamFrameBuffer.truncate s))"
proof -
  define stop where "stop = sf_Offset f + sf_DataLen f"
  note bug = findGap_bug [of b "sf_Offset f" stop "[]" "fb_gaps s" b']
  show ?thesis
  proof (cases "findGap b (sf_Offset f) stop [] (fb_gaps s)")
    case (Inl e)
    then show ?thesis using bug
      by (auto simp: insertFrame_def Let_def stop_def truncate_simps same_answer_def split: sum.splits)
  next
    case (Inr r)
    obtain pre gap gaps where r: "r = (pre, gap, gaps)" by (cases r)
    have F: "findGap b' (sf_Offset f) stop [] (fb_gaps s) = Inr r" using bug Inr by (auto split: sum.splits)
    obtain e1 e2 rest where l: "endGapLoop b stop True gap gaps (fb_queuedFrames s) = (e1, rest)"
      "endGapLoop b' stop True gap gaps (fb_queuedFrames s) = (e2, rest)" "e1 = None \<longleftrightarrow> e2 = None"
      using endGapLoop_bug [of b stop True gap gaps "fb_queuedFrames s" b'] by (metis prod.collapse)
    show ?thesis using l(3)
      unfolding insertFrame_def Let_def stop_def [symmetric] truncate_simps Inr F r sum.case prod.case l(1,2)
      by (cases rest; cases "cutEnd stop (fst (snd (snd rest))) (if sf_Offset f < bi_Start gap then dropFront (bi_Start gap - sf_Offset f) f else f)")
        (auto simp: same_answer_def truncate_simps split: option.splits)
  qed
qed

lemma pushFrame_same: "same_answer (pushFrame b f s) (pushFrame b' f (streamFrameBuffer.truncate s))"
proof (cases "cutOldFrame (fb_queuedFrames s) f")
  case (Inl e)
  then show ?thesis by (simp add: pushFrame_def truncate_simps same_answer_def)
next
  case (Inr f1)
  then show ?thesis using insertFrame_same [of b f1 s b']
    by (cases "insertFrame b f1 s"; cases "insertFrame b' f1 (streamFrameBuffer.truncate s)")
       (auto simp: pushFrame_def truncate_simps same_answer_def split: sum.splits)
qed

lemma Push_same:
  "fst (fb_Push f (streamFrameBuffer.truncate s)) = None \<longleftrightarrow> fst (sfs_Push now f flag s) = None"
  "snd (fb_Push f (streamFrameBuffer.truncate s)) = streamFrameBuffer.truncate (snd (sfs_Push now f flag s))"
  using pushFrame_same [of "''StreamFrameSorter''" f s "''StreamFrameBuffer''"]
  by (auto simp: fb_Push_def sfs_Push_def same_answer_def Let_def streamFrameBuffer.truncate_def split: prod.splits sum.splits option.splits)

lemma sfs_Push_marker: "fb_unreliableMarker (snd (sfs_Push now f flag s)) = fb_unreliableMarker s"
proof -
  have "fb_unreliableMarker (snd (insertFrame b f s)) = fb_unreliableMarker s" for b f and s :: streamFrameSorter
    by (auto simp: insertFrame_def Let_def split: sum.splits prod.splits option.splits)
  then have "fb_unreliableMarker (snd (pushFrame b f s)) = fb_unreliableMarker s" for b f and s :: streamFrameSorter
    by (auto simp: pushFrame_def split: sum.splits prod.splits) (metis snd_conv)+
  then show ?thesis by (auto simp: sfs_Push_def Let_def split: prod.splits sum.splits option.splits) (metis snd_conv)+
qed

lemma Pop_same:
  assumes "\<not> fb_unreliableMarker s"
  shows "\<exists>f s'. sfs_Pop now s = Inr (f, s') \<and> fb_Pop (streamFrameBuffer.truncate s) = Inr (f, streamFrameBuffer.truncate s') \<and>
    \<not> fb_unreliableMarker s'"
  using assms
  by (auto simp: sfs_Pop_def sfs_Head_def fb_Pop_def fb_Head_def Let_def streamFrameBuffer.truncate_def split: option.splits)

lemma ops_same:
  "\<not> fb_unreliableMarker s \<Longrightarrow> fb_ops ops (streamFrameBuffer.truncate s) = apsnd streamFrameBuffer.truncate (sfs_ops ops s)"
proof (induction ops s rule: sfs_ops.induct)
  case (2 now flag f ops s)
  then show ?case using Push_same [of f s now flag] sfs_Push_marker [of now f flag s]
    by (cases "sfs_Push now f flag s"; cases "fb_Push f (streamFrameBuffer.truncate s)") (auto simp: apfst_def apsnd_def map_prod_def split: prod.splits)
next
  case (3 now ops s)
  then show ?case using Pop_same [of s now] by (auto simp: apfst_def apsnd_def map_prod_def split: prod.splits)
qed simp

text \<open>
  (C8) Reassembly. However the frames of a stream arrive, the reader of a reliable stream has got the first bytes of the
  stream, all of them received, and a pop never fails: it returns data exactly when the next byte has been received.
\<close>

theorem reassembly:
  assumes "F < unat MaxByteCount" "sorter_run \<sigma> F s R out"
  shows "out = map \<sigma> [0..<length out] \<and> {..<length out} \<subseteq> R \<and>
    (case sfs_Pop now s of
       Inr (Some f, _) \<Rightarrow> (sf_Data f \<noteq> [] \<longleftrightarrow> length out \<in> R) \<and> sf_Data f = map \<sigma> [length out..<length out + length (sf_Data f)]
     | Inr (None, _) \<Rightarrow> length out \<notin> R
     | Inl _ \<Rightarrow> False)"
proof -
  have inv: "reassembly_inv \<sigma> F s" and rel: "\<not> fb_unreliableMarker s" and R: "gapset (fb_gaps s) = {..<unat MaxByteCount} - R"
    and out: "out = map \<sigma> [0..<unat (fb_readPosition s)]"
    using sorter_run_inv [OF assms(2,1)] by simp_all
  obtain g where "g \<in> set (fb_gaps s)" using inv by (auto simp: reassembly_inv_def)
  then have lt: "unat (fb_readPosition s) < unat MaxByteCount" using inv assms(1) by (fastforce simp: reassembly_inv_def word_le_nat_alt)
  have "x \<notin> gapset (fb_gaps s)" if "x < unat (fb_readPosition s)" for x
    using that inv by (fastforce simp: reassembly_inv_def in_gapset word_le_nat_alt)
  then have sub: "{..<unat (fb_readPosition s)} \<subseteq> R" using lt by (fastforce simp: R)
  have pop: "sfs_Pop now s = Inr (res, s') \<Longrightarrow> res = fb_queuedFrames s (fb_readPosition s)" "\<not> isl (sfs_Pop now s)" for res s'
    using rel by (auto simp: sfs_Pop_def sfs_Head_def Let_def split: option.splits)
  show ?thesis
  proof (cases "sfs_Pop now s")
    case (Inr p)
    then show ?thesis using pop(1) readable [OF inv] queued(1,2) [OF inv, of "fb_readPosition s"] out sub lt R
      by (cases p) (auto split: option.splits simp: frame_of_def)
  qed (use pop(2) in simp)
qed


text \<open>A frame of the stream \<open>0, 1, 2, \<dots>\<close>.\<close>

definition frame_at :: "nat \<Rightarrow> nat \<Rightarrow> bool \<Rightarrow> StreamFrame" where
  "frame_at a b fin = \<lparr>sf_StreamID = 5, sf_UnreliableMarker = False, sf_FinBit = fin, sf_DataLenPresent = True,
     sf_Offset = of_nat a, sf_Data = map of_nat [a..<b]\<rparr>"

theorem reassembly_witness:
  "let s = snd (sfs_Push 0 (frame_at 0 3 False) True (snd (sfs_Push 0 (frame_at 2 4 True) True newStreamFrameSorter)))
   in sorter_run of_nat 4 s {0..<4} [] \<and> 
     (case sfs_Pop 0 s of Inr (Some f, _) \<Rightarrow> sf_Data f \<noteq> [] | _ \<Rightarrow> False)"
proof -
  define s1 where "s1 = snd (sfs_Push 0 (frame_at 2 4 True) True newStreamFrameSorter)"
  define s2 where "s2 = snd (sfs_Push 0 (frame_at 0 3 False) True s1)"
  have "fst (sfs_Push 0 (frame_at 2 4 True) True newStreamFrameSorter) = None \<and> fst (sfs_Push 0 (frame_at 0 3 False) True s1) = None"
    unfolding s1_def by code_simp
  then have p: "sfs_Push 0 (frame_at 2 4 True) True newStreamFrameSorter = (None, s1)" "sfs_Push 0 (frame_at 0 3 False) True s1 = (None, s2)"
    by (simp_all add: s1_def s2_def prod_eq_iff)
  have f: "sent_frame of_nat 4 (frame_at 2 4 True)" "sent_frame of_nat 4 (frame_at 0 3 False)"
    by (simp_all add: sent_frame_def frame_of_def frame_at_def)
  have "sorter_run of_nat 4 s2 ({} \<union> frame_set (frame_at 2 4 True) \<union> frame_set (frame_at 0 3 False)) []"
    by (rule sorter_run.push [OF sorter_run.push [OF sorter_run.start f(1) p(1)] f(2) p(2)]) simp_all
  moreover have "{} \<union> frame_set (frame_at 2 4 True) \<union> frame_set (frame_at 0 3 False) = {0..<4}"
    by (auto simp: frame_set_def frame_at_def)
  ultimately have run: "sorter_run of_nat 4 s2 {0..<4} []" by simp
  moreover have "4 < unat MaxByteCount" by (simp add: MaxByteCount_def unsigned_minus_1_eq_mask mask_eq_exp_minus_1)
  ultimately show ?thesis using reassembly [of 4 of_nat s2 "{0..<4}" "[]" 0] unfolding s1_def [symmetric] s2_def [symmetric]
    by (auto split: sum.splits option.splits)
qed


end
