(* ===== verification/Handshake_Message.thy ===== *)
theory Handshake_Message
imports Byte_Order "HOL-Library.Finite_Map"
begin

text \<open>
  The messages of the handshake (\<^verbatim>\<open>internal/handshake/handshake_message.go\<close>, \<^verbatim>\<open>tags.go\<close>) and the public reset
  packet, which has the same format (\<^verbatim>\<open>internal/wire/public_reset.go\<close>). A Go map is a finite map. Writing sorts its
  keys, so the order in which Go visits a map does not matter. The text form of a message is left out.
\<close>

section \<open>Definitions\<close>

type_synonym Tag = uint32

definition tag_of :: "string \<Rightarrow> Tag" where
  "tag_of s = foldr (\<lambda>c t. of_char c + push_bit 8 t) s 0"

definition TagCHLO :: Tag where "TagCHLO = tag_of ''CHLO''"
definition TagREJ :: Tag where "TagREJ = tag_of ''REJ''"
definition TagSCFG :: Tag where "TagSCFG = tag_of ''SCFG''"
definition TagPAD :: Tag where "TagPAD = tag_of ''PAD''"
definition TagSNI :: Tag where "TagSNI = tag_of ''SNI''"
definition TagVER :: Tag where "TagVER = tag_of ''VER''"
definition TagMSPC :: Tag where "TagMSPC = tag_of ''MSPC''"
definition TagMIDS :: Tag where "TagMIDS = tag_of ''MIDS''"
definition TagTCID :: Tag where "TagTCID = tag_of ''TCID''"
definition TagICSL :: Tag where "TagICSL = tag_of ''ICSL''"
definition TagCFCW :: Tag where "TagCFCW = tag_of ''CFCW''"
definition TagSFCW :: Tag where "TagSFCW = tag_of ''SFCW''"
definition TagSHLO :: Tag where "TagSHLO = tag_of ''SHLO''"
definition TagPRST :: Tag where "TagPRST = tag_of ''PRST''"
definition TagRSEQ :: Tag where "TagRSEQ = tag_of ''RSEQ''"
definition TagRNON :: Tag where "TagRNON = tag_of ''RNON''"

lemmas tag_defs = TagCHLO_def TagREJ_def TagSCFG_def TagPAD_def TagSNI_def TagVER_def TagMSPC_def TagMIDS_def
  TagTCID_def TagICSL_def TagCFCW_def TagSFCW_def TagSHLO_def TagPRST_def TagRSEQ_def TagRNON_def tag_of_def

definition CryptoMaxParams :: uint32 where "CryptoMaxParams = 128"
definition CryptoParameterMaxLength :: uint32 where "CryptoParameterMaxLength = 4000"
definition CryptoTooManyEntries :: ErrorCode where "CryptoTooManyEntries = 30"
definition CryptoInvalidValueLength :: ErrorCode where "CryptoInvalidValueLength = 31"

record HandshakeMessage =
  hm_Tag :: Tag
  hm_Data :: "(Tag, bytes) fmap"

text \<open>\<^verbatim>\<open>binary.LittleEndian.Uint32\<close> and \<^verbatim>\<open>Uint64\<close> of the standard library, on slices of that size.\<close>

definition le_Uint32 :: "bytes \<Rightarrow> uint32" where "le_Uint32 bs = of_nat (le_val bs)"
definition le_Uint64 :: "bytes \<Rightarrow> uint64" where "le_Uint64 bs = of_nat (le_val bs)"

text \<open>The loop over the index: \<open>n\<close> entries are left, in \<open>index\<close>.\<close>

fun parseEntries :: "nat \<Rightarrow> bytes \<Rightarrow> uint32 \<Rightarrow> (Tag, bytes) fmap \<Rightarrow> (Tag, bytes) fmap reader" where
  "parseEntries 0 index dataStart resultMap r = Inr (resultMap, r)"
| "parseEntries (Suc n) index dataStart resultMap r =
     (let tag = le_Uint32 (take 4 index);
          dataEnd = le_Uint32 (take 4 (drop 4 index));
          dataLen = dataEnd - dataStart
      in if dataLen > CryptoParameterMaxLength then Inl (QuicErr CryptoInvalidValueLength ''value too long'')
         else bindE (ReadFull (unat dataLen) r) (\<lambda>(data, r).
              parseEntries n (drop 8 index) dataEnd (fmupd tag data resultMap) r))"

definition ParseHandshakeMessage :: "HandshakeMessage reader" where
  "ParseHandshakeMessage r =
     bindE (ReadFull 4 r) (\<lambda>(slice4, r). let messageTag = le_Uint32 slice4 in
     bindE (ReadFull 4 r) (\<lambda>(slice4, r). let nPairs = le_Uint32 slice4 in
     if nPairs > CryptoMaxParams then Inl (CodeErr CryptoTooManyEntries)
     else bindE (ReadFull (unat (nPairs * 8)) r) (\<lambda>(index, r).
          bindE (parseEntries (unat nPairs) index 0 fmempty r) (\<lambda>(resultMap, r).
          Inr (\<lparr>hm_Tag = messageTag, hm_Data = resultMap\<rparr>, r)))))"

definition getTagsSorted :: "HandshakeMessage \<Rightarrow> Tag list" where
  "getTagsSorted h = sorted_list_of_fset (fmdom (hm_Data h))"

text \<open>The loop over the tags: the entries of the index and the values, from the offset reached so far.\<close>

fun writeEntries :: "(Tag, bytes) fmap \<Rightarrow> uint32 \<Rightarrow> Tag list \<Rightarrow> bytes \<times> bytes" where
  "writeEntries data offset [] = ([], [])"
| "writeEntries data offset (t # ts) =
     (let v = the (fmlookup data t);
          offset = offset + of_nat (length v);
          (index, values) = writeEntries data offset ts
      in (WriteUint32 LittleEndian t @ WriteUint32 LittleEndian offset @ index, v @ values))"

definition hm_Write :: "HandshakeMessage \<Rightarrow> bytes" where
  "hm_Write h =
     (let (index, values) = writeEntries (hm_Data h) 0 (getTagsSorted h)
      in WriteUint32 LittleEndian (hm_Tag h) @ WriteUint16 LittleEndian (of_nat (fcard (fmdom (hm_Data h))))
         @ WriteUint16 LittleEndian 0 @ index @ values)"

record PublicReset =
  pr_RejectedPacketNumber :: PacketNumber
  pr_Nonce :: uint64

definition WritePublicReset :: "ConnectionID \<Rightarrow> PacketNumber \<Rightarrow> uint64 \<Rightarrow> bytes" where
  "WritePublicReset connectionID rejectedPacketNumber nonceProof =
     [0x0a] @ WriteUint64 LittleEndian connectionID @ WriteUint32 LittleEndian TagPRST
     @ WriteUint32 LittleEndian 2 @ WriteUint32 LittleEndian TagRNON @ WriteUint32 LittleEndian 8
     @ WriteUint32 LittleEndian TagRSEQ @ WriteUint32 LittleEndian 16
     @ WriteUint64 LittleEndian nonceProof @ WriteUint64 LittleEndian rejectedPacketNumber"

definition ParsePublicReset :: "PublicReset reader" where
  "ParsePublicReset r =
     bindE (ParseHandshakeMessage r) (\<lambda>(msg, r).
       if hm_Tag msg \<noteq> TagPRST then Inl (GoErr ''wrong public reset tag'')
       else case fmlookup (hm_Data msg) TagRSEQ of
              None \<Rightarrow> Inl (GoErr ''RSEQ missing'')
            | Some rseq \<Rightarrow>
                if length rseq \<noteq> 8 then Inl (GoErr ''invalid RSEQ tag'')
                else case fmlookup (hm_Data msg) TagRNON of
                       None \<Rightarrow> Inl (GoErr ''RNON missing'')
                     | Some rnon \<Rightarrow>
                         if length rnon \<noteq> 8 then Inl (GoErr ''invalid RNON tag'')
                         else Inr (\<lparr>pr_RejectedPacketNumber = le_Uint64 rseq, pr_Nonce = le_Uint64 rnon\<rparr>, r))"

section \<open>Round trips\<close>

declare LittleEndian_sel [simp del]

lemma le_Uint32_write [simp]: "le_Uint32 (WriteUint32 LittleEndian t) = t"
  using unat_lt32 [of t] by (simp add: le_Uint32_def le.write32 le_val_le_bytes del: le_bytes_numeral)

lemma le_Uint64_write [simp]: "le_Uint64 (WriteUint64 LittleEndian t) = t"
  using unat_lt64 [of t] by (simp add: le_Uint64_def le.write64 le_val_le_bytes del: le_bytes_numeral)

lemma parseEntries_no_panic: "no_panic (parseEntries n index start m r)"
  by (induction n arbitrary: index start m r) (auto simp: Let_def intro!: no_panic_intros)

lemma parse_writeEntries:
  assumes "\<forall>t\<in>set ts. \<exists>v. fmlookup data t = Some v \<and> length v \<le> 4000" "distinct ts"
  shows "case writeEntries data offset ts of (index, values) \<Rightarrow>
    length index = 8 * length ts \<and>
    parseEntries (length ts) (index @ x) offset m (values @ r) = Inr (m ++\<^sub>f fmrestrict_set (set ts) data, r)"
  using assms
proof (induction ts arbitrary: offset m)
  case (Cons t ts)
  then obtain v where v: "fmlookup data t = Some v" "length v \<le> 4000" by auto
  obtain index vals where w: "writeEntries data (offset + of_nat (length v)) ts = (index, vals)" by fastforce
  have IH: "length index = 8 * length ts"
    "parseEntries (length ts) (index @ x) (offset + of_nat (length v)) m' (vals @ r) = Inr (m' ++\<^sub>f fmrestrict_set (set ts) data, r)" for m'
    using Cons.IH [of "offset + of_nat (length v)" m'] Cons.prems w by auto
  have l: "unat (of_nat (length v) :: uint32) = length v" using v(2) by (simp add: unat_of_nat)
  have "fmupd t v m ++\<^sub>f fmrestrict_set (set ts) data = m ++\<^sub>f fmrestrict_set (insert t (set ts)) data"
    using Cons.prems(2) v(1) by (intro fmap_ext) (auto simp: fmlookup_dom_iff)
  moreover have "\<not> CryptoParameterMaxLength < (of_nat (length v) :: uint32)"
    using v(2) by (simp add: CryptoParameterMaxLength_def word_less_nat_alt l)
  ultimately show ?case using v w IH by (simp add: Let_def l)
qed simp

text \<open>A message of at most 128 values of at most 4000 bytes is parsed back.\<close>

definition hm_writable :: "HandshakeMessage \<Rightarrow> bool" where
  "hm_writable h \<longleftrightarrow> fcard (fmdom (hm_Data h)) \<le> 128 \<and> fmpred (\<lambda>_ v. length v \<le> 4000) (hm_Data h)"

lemma ParseHandshakeMessage_Write:
  assumes "hm_writable h"
  shows "ParseHandshakeMessage (hm_Write h @ r) = Inr (h, r)"
proof -
  define n where "n = fcard (fmdom (hm_Data h))"
  have n: "n \<le> 128" "length (getTagsSorted h) = n" "set (getTagsSorted h) = fset (fmdom (hm_Data h))" "distinct (getTagsSorted h)"
    using assms by (simp_all add: n_def hm_writable_def getTagsSorted_def sorted_list_of_fset.rep_eq fcard.rep_eq)
  obtain index vals where w: "writeEntries (hm_Data h) 0 (getTagsSorted h) = (index, vals)" by fastforce
  have "\<forall>t\<in>set (getTagsSorted h). \<exists>v. fmlookup (hm_Data h) t = Some v \<and> length v \<le> 4000"
    using assms unfolding n(3) hm_writable_def by (metis fmlookup_dom_iff fmpredD)
  from parse_writeEntries [OF this n(4), where offset = 0 and x = "[]" and m = fmempty and r = r]
  have p: "length index = 8 * n" "parseEntries n index 0 fmempty (vals @ r) = Inr (fmrestrict_set (fset (fmdom (hm_Data h))) (hm_Data h), r)"
    using w n by simp_all
  have same: "fmrestrict_set (fset (fmdom (hm_Data h))) (hm_Data h) = hm_Data h"
    by (rule fmap_ext) (auto simp: fmdom_notD)
  define c where "c = WriteUint16 LittleEndian (of_nat n) @ WriteUint16 LittleEndian 0"
  have l: "le_Uint32 c = of_nat n" "length c = 4"
    using n(1) by (simp_all add: c_def le_Uint32_def le.write16 le_val_append le_val_le_bytes unat_of_nat del: le_bytes_numeral)
  have k: "unat (of_nat n :: uint32) = n" "unat (of_nat n * 8 :: uint32) = 8 * n" "\<not> CryptoMaxParams < of_nat n"
    using n(1) by (simp_all add: unat_of_nat unat_word_ariths CryptoMaxParams_def word_less_nat_alt)
  have "hm_Write h @ r = WriteUint32 LittleEndian (hm_Tag h) @ c @ index @ vals @ r"
    using w by (simp add: hm_Write_def n_def c_def)
  then show ?thesis
    by (simp add: ParseHandshakeMessage_def Let_def l k p same)
qed

lemma WritePublicReset_message:
  "WritePublicReset c p n = [0x0a] @ WriteUint64 LittleEndian c @
     hm_Write \<lparr>hm_Tag = TagPRST, hm_Data = fmap_of_list [(TagRNON, WriteUint64 LittleEndian n), (TagRSEQ, WriteUint64 LittleEndian p)]\<rparr>"
proof -
  have "sorted_list_of_fset {|TagRNON, TagRSEQ|} = [TagRNON, TagRSEQ]" "TagRNON \<noteq> TagRSEQ" "fcard {|TagRNON, TagRSEQ|} = 2"
    by (simp_all add: sorted_list_of_fset.rep_eq fcard.rep_eq tag_defs)
  moreover have "WriteUint32 LittleEndian 2 = WriteUint16 LittleEndian 2 @ WriteUint16 LittleEndian 0"
    by (simp add: LittleEndian_sel le_WriteUint32_def le_WriteUint16_def)
  ultimately show ?thesis by (simp add: WritePublicReset_def hm_Write_def getTagsSorted_def)
qed

lemma ParsePublicReset_Write:
  "ParsePublicReset (drop 9 (WritePublicReset c p n) @ r) = Inr (\<lparr>pr_RejectedPacketNumber = p, pr_Nonce = n\<rparr>, r)"
proof -
  define h where "h = \<lparr>hm_Tag = TagPRST, hm_Data = fmap_of_list [(TagRNON, WriteUint64 LittleEndian n), (TagRSEQ, WriteUint64 LittleEndian p)]\<rparr>"
  have "TagRNON \<noteq> TagRSEQ" by (simp add: tag_defs)
  moreover have "hm_writable h" by (auto simp: hm_writable_def h_def fcard.rep_eq card_insert_if intro!: fmpred_upd)
  ultimately show ?thesis
    using ParseHandshakeMessage_Write [of h r] unfolding WritePublicReset_message h_def [symmetric]
    by (simp add: ParsePublicReset_def) (simp add: h_def)
qed

end
