(* ===== verification/Connection_Parameters.thy ===== *)
theory Connection_Parameters
imports Handshake_Message Go_Numeric
begin

text \<open>
  The connection parameters (\<^verbatim>\<open>internal/handshake/connection_parameters_manager.go\<close>): the values that the two ends
  announce in their hello messages and what each end makes of them. \<^verbatim>\<open>SetFromMap\<close> stores the values one after the other
  and may fail on the way, so it returns the error together with the parameters stored until then. The lock is left out.
\<close>

section \<open>Definitions\<close>

definition InvalidCryptoMessageParameter :: ErrorCode where "InvalidCryptoMessageParameter = 34"
definition ErrMalformedTag :: error where "ErrMalformedTag = QuicErr InvalidCryptoMessageParameter ''malformed Tag value''"
definition ErrFlowControlRenegotiationNotSupported :: error where
  "ErrFlowControlRenegotiationNotSupported =
     QuicErr InvalidCryptoMessageParameter ''renegotiation of flow control parameters not supported''"

definition InitialStreamFlowControlWindow :: ByteCount where "InitialStreamFlowControlWindow = push_bit 14 1"
definition InitialConnectionFlowControlWindow :: ByteCount where "InitialConnectionFlowControlWindow = push_bit 14 1"
definition ReceiveStreamFlowControlWindow :: ByteCount where "ReceiveStreamFlowControlWindow = push_bit 10 1 * 10000"
definition ReceiveConnectionFlowControlWindow :: ByteCount where "ReceiveConnectionFlowControlWindow = push_bit 10 1 * 100000"
definition DefaultMaxReceiveStreamFlowControlWindowServer :: ByteCount where
  "DefaultMaxReceiveStreamFlowControlWindowServer = push_bit 20 1"
definition DefaultMaxReceiveConnectionFlowControlWindowServer :: ByteCount where
  "DefaultMaxReceiveConnectionFlowControlWindowServer = 3 * push_bit 19 1"
definition DefaultMaxReceiveStreamFlowControlWindowClient :: ByteCount where
  "DefaultMaxReceiveStreamFlowControlWindowClient = 16 * push_bit 20 1"
definition DefaultMaxReceiveConnectionFlowControlWindowClient :: ByteCount where
  "DefaultMaxReceiveConnectionFlowControlWindowClient = 24 * push_bit 20 1"
definition MaxStreamsPerConnection :: uint32 where "MaxStreamsPerConnection = 100"
definition MaxIncomingDynamicStreamsPerConnection :: uint32 where "MaxIncomingDynamicStreamsPerConnection = 100"
definition MaxStreamsMultiplier :: rat where "MaxStreamsMultiplier = 11 / 10"
definition MaxStreamsMinimumIncrement :: uint32 where "MaxStreamsMinimumIncrement = 10"
definition DefaultIdleTimeout :: duration where "DefaultIdleTimeout = 30 * Second"

record connectionParametersManager =
  cpm_version :: VersionNumber
  cpm_perspective :: Perspective
  cpm_flowControlNegotiated :: bool
  cpm_truncateConnectionID :: bool
  cpm_maxStreamsPerConnection :: uint32
  cpm_maxIncomingDynamicStreamsPerConnection :: uint32
  cpm_idleConnectionStateLifetime :: duration
  cpm_sendStreamFlowControlWindow :: ByteCount
  cpm_sendConnectionFlowControlWindow :: ByteCount
  cpm_receiveStreamFlowControlWindow :: ByteCount
  cpm_receiveConnectionFlowControlWindow :: ByteCount
  cpm_maxReceiveStreamFlowControlWindow :: ByteCount
  cpm_maxReceiveConnectionFlowControlWindow :: ByteCount

definition NewConnectionParamatersManager ::
    "Perspective \<Rightarrow> VersionNumber \<Rightarrow> ByteCount \<Rightarrow> ByteCount \<Rightarrow> duration \<Rightarrow> connectionParametersManager" where
  "NewConnectionParamatersManager pers v maxStream maxConnection idleTimeout =
     \<lparr>cpm_version = v, cpm_perspective = pers, cpm_flowControlNegotiated = False, cpm_truncateConnectionID = False,
      cpm_maxStreamsPerConnection = MaxStreamsPerConnection,
      cpm_maxIncomingDynamicStreamsPerConnection = MaxStreamsPerConnection,
      cpm_idleConnectionStateLifetime = idleTimeout,
      cpm_sendStreamFlowControlWindow = InitialStreamFlowControlWindow,
      cpm_sendConnectionFlowControlWindow = InitialConnectionFlowControlWindow,
      cpm_receiveStreamFlowControlWindow = ReceiveStreamFlowControlWindow,
      cpm_receiveConnectionFlowControlWindow = ReceiveConnectionFlowControlWindow,
      cpm_maxReceiveStreamFlowControlWindow = maxStream,
      cpm_maxReceiveConnectionFlowControlWindow = maxConnection\<rparr>"

definition negotiateMaxStreamsPerConnection :: "uint32 \<Rightarrow> uint32" where
  "negotiateMaxStreamsPerConnection clientValue = MinUint32 clientValue MaxStreamsPerConnection"

definition negotiateMaxIncomingDynamicStreamsPerConnection :: "uint32 \<Rightarrow> uint32" where
  "negotiateMaxIncomingDynamicStreamsPerConnection clientValue = MinUint32 clientValue MaxIncomingDynamicStreamsPerConnection"

definition negotiateIdleConnectionStateLifetime :: "duration \<Rightarrow> connectionParametersManager \<Rightarrow> duration" where
  "negotiateIdleConnectionStateLifetime clientValue h = MinDuration clientValue (cpm_idleConnectionStateLifetime h)"

text \<open>One parameter of \<^verbatim>\<open>SetFromMap\<close>: nothing to do if it is absent, an error if it is shorter than four bytes.\<close>

definition setParam ::
    "bytes option \<Rightarrow> (uint32 \<Rightarrow> connectionParametersManager \<Rightarrow> connectionParametersManager) \<Rightarrow>
     error option \<times> connectionParametersManager \<Rightarrow> error option \<times> connectionParametersManager" where
  "setParam value store = (\<lambda>(err, h).
     if err \<noteq> None then (err, h)
     else case value of
            None \<Rightarrow> (None, h)
          | Some v \<Rightarrow> (case ReadUint32 LittleEndian v of
                        Inl _ \<Rightarrow> (Some ErrMalformedTag, h)
                      | Inr (clientValue, _) \<Rightarrow> (None, store clientValue h)))"

definition setWindow ::
    "bytes option \<Rightarrow> (uint32 \<Rightarrow> connectionParametersManager \<Rightarrow> connectionParametersManager) \<Rightarrow>
     error option \<times> connectionParametersManager \<Rightarrow> error option \<times> connectionParametersManager" where
  "setWindow value store = (\<lambda>(err, h).
     if err = None \<and> value \<noteq> None \<and> cpm_flowControlNegotiated h
     then (Some ErrFlowControlRenegotiationNotSupported, h)
     else setParam value store (err, h))"

definition SetFromMap ::
    "(Tag, bytes) fmap \<Rightarrow> connectionParametersManager \<Rightarrow> error option \<times> connectionParametersManager" where
  "SetFromMap params h =
     (let x = (None, h);
          x = setParam (if cpm_perspective h = PerspectiveServer then fmlookup params TagTCID else None)
                (\<lambda>v h. h\<lparr>cpm_truncateConnectionID := (v = 0)\<rparr>) x;
          x = setParam (fmlookup params TagMSPC)
                (\<lambda>v h. h\<lparr>cpm_maxStreamsPerConnection := negotiateMaxStreamsPerConnection v\<rparr>) x;
          x = setParam (fmlookup params TagMIDS)
                (\<lambda>v h. h\<lparr>cpm_maxIncomingDynamicStreamsPerConnection := negotiateMaxIncomingDynamicStreamsPerConnection v\<rparr>) x;
          x = setParam (fmlookup params TagICSL)
                (\<lambda>v h. h\<lparr>cpm_idleConnectionStateLifetime :=
                        negotiateIdleConnectionStateLifetime (int64 (uint v * Second)) h\<rparr>) x;
          x = setWindow (fmlookup params TagSFCW) (\<lambda>v h. h\<lparr>cpm_sendStreamFlowControlWindow := ucast v\<rparr>) x;
          x = setWindow (fmlookup params TagCFCW) (\<lambda>v h. h\<lparr>cpm_sendConnectionFlowControlWindow := ucast v\<rparr>) x
      in case x of
           (Some e, h) \<Rightarrow> (Some e, h)
         | (None, h) \<Rightarrow>
             (None, if fmlookup params TagCFCW \<noteq> None \<or> fmlookup params TagSFCW \<noteq> None
                    then h\<lparr>cpm_flowControlNegotiated := True\<rparr> else h))"

definition GetHelloMap :: "connectionParametersManager \<Rightarrow> (Tag, bytes) fmap" where
  "GetHelloMap h = fmap_of_list
     [(TagICSL, WriteUint32 LittleEndian (word_of_int (cpm_idleConnectionStateLifetime h sdiv Second))),
      (TagMSPC, WriteUint32 LittleEndian (cpm_maxStreamsPerConnection h)),
      (TagMIDS, WriteUint32 LittleEndian MaxIncomingDynamicStreamsPerConnection),
      (TagCFCW, WriteUint32 LittleEndian (ucast (cpm_receiveConnectionFlowControlWindow h))),
      (TagSFCW, WriteUint32 LittleEndian (ucast (cpm_receiveStreamFlowControlWindow h)))]"

definition GetMaxOutgoingStreams :: "connectionParametersManager \<Rightarrow> uint32" where
  "GetMaxOutgoingStreams h = cpm_maxIncomingDynamicStreamsPerConnection h"

definition GetMaxIncomingStreams :: "connectionParametersManager \<Rightarrow> uint32" where
  "GetMaxIncomingStreams h =
     MaxUint32 (MaxIncomingDynamicStreamsPerConnection + MaxStreamsMinimumIncrement)
       (ucast (uint64_of_float (float64 (float64 (of_int (uint MaxIncomingDynamicStreamsPerConnection))
                                         * float64 MaxStreamsMultiplier))))"

definition TruncateConnectionID :: "connectionParametersManager \<Rightarrow> bool" where
  "TruncateConnectionID h = (if cpm_perspective h = PerspectiveClient then False else cpm_truncateConnectionID h)"

section \<open>Negotiation\<close>

text \<open>The effect of the hello values of the peer; other tags of its message do not matter.\<close>

definition negotiated :: "connectionParametersManager \<Rightarrow> connectionParametersManager \<Rightarrow> connectionParametersManager" where
  "negotiated peer h = h\<lparr>
     cpm_maxStreamsPerConnection := min (cpm_maxStreamsPerConnection peer) 100,
     cpm_maxIncomingDynamicStreamsPerConnection := 100,
     cpm_idleConnectionStateLifetime := min (cpm_idleConnectionStateLifetime peer) (cpm_idleConnectionStateLifetime h),
     cpm_sendStreamFlowControlWindow := cpm_receiveStreamFlowControlWindow peer,
     cpm_sendConnectionFlowControlWindow := cpm_receiveConnectionFlowControlWindow peer,
     cpm_flowControlNegotiated := True\<rparr>"

text \<open>Values that the four bytes of a parameter can hold.\<close>

definition announceable :: "connectionParametersManager \<Rightarrow> bool" where
  "announceable h \<longleftrightarrow> (\<exists>n < 2 ^ 32. cpm_idleConnectionStateLifetime h = int n * Second) \<and>
     unat (cpm_receiveStreamFlowControlWindow h) < 2 ^ 32 \<and> unat (cpm_receiveConnectionFlowControlWindow h) < 2 ^ 32"

lemma read_hello:
  assumes "GetHelloMap peer \<subseteq>\<^sub>f params"
  shows "fmlookup params TagICSL = Some (WriteUint32 LittleEndian (word_of_int (cpm_idleConnectionStateLifetime peer sdiv Second)))"
    "fmlookup params TagMSPC = Some (WriteUint32 LittleEndian (cpm_maxStreamsPerConnection peer))"
    "fmlookup params TagMIDS = Some (WriteUint32 LittleEndian MaxIncomingDynamicStreamsPerConnection)"
    "fmlookup params TagCFCW = Some (WriteUint32 LittleEndian (ucast (cpm_receiveConnectionFlowControlWindow peer)))"
    "fmlookup params TagSFCW = Some (WriteUint32 LittleEndian (ucast (cpm_receiveStreamFlowControlWindow peer)))"
  using fmsubset.rep_eq [of "GetHelloMap peer" params] assms
  by (auto simp: map_le_def GetHelloMap_def tag_defs)
lemma SetFromMap_hello:
  assumes "GetHelloMap peer \<subseteq>\<^sub>f params" "fmlookup params TagTCID = None" "announceable peer" "\<not> cpm_flowControlNegotiated h"
  shows "SetFromMap params h = (None, negotiated peer h)"
proof -
  obtain n where n: "n < 2 ^ 32" "cpm_idleConnectionStateLifetime peer = int n * Second" using assms(3) by (auto simp: announceable_def)
  have "unat (ucast (cpm_receiveStreamFlowControlWindow peer) :: uint32) = unat (cpm_receiveStreamFlowControlWindow peer)"
    "unat (ucast (cpm_receiveConnectionFlowControlWindow peer) :: uint32) = unat (cpm_receiveConnectionFlowControlWindow peer)"
    using assms(3) by (simp_all add: announceable_def unsigned_ucast_eq take_bit_nat_eq_self)
  then have w: "ucast (ucast (cpm_receiveStreamFlowControlWindow peer) :: uint32) = cpm_receiveStreamFlowControlWindow peer"
    "ucast (ucast (cpm_receiveConnectionFlowControlWindow peer) :: uint32) = cpm_receiveConnectionFlowControlWindow peer"
    by (simp_all add: word_unat_eq_iff)
  have i: "int64 (uint (word_of_int (cpm_idleConnectionStateLifetime peer sdiv Second) :: uint32) * Second) = cpm_idleConnectionStateLifetime peer"
    using n by (simp add: sdiv_nonneg unsigned_of_nat take_bit_nat_eq_self int64_id)
  have r: "ReadUint32 LittleEndian (WriteUint32 LittleEndian v) = Inr (v, [])" for v
    using le.read32_write32 [of v "[]"] by simp
  show ?thesis
    using read_hello [OF assms(1)] assms(2,4)
    by (simp add: SetFromMap_def setParam_def setWindow_def r w i negotiated_def negotiateMaxStreamsPerConnection_def
        negotiateMaxIncomingDynamicStreamsPerConnection_def negotiateIdleConnectionStateLifetime_def minmax
        MaxStreamsPerConnection_def MaxIncomingDynamicStreamsPerConnection_def)
qed


lemma hello_writable: "hm_writable \<lparr>hm_Tag = t, hm_Data = GetHelloMap h\<rparr>" "fmlookup (GetHelloMap h) TagTCID = None"
proof -
  have "fcard (fmdom (GetHelloMap h)) \<le> 5"
    by (simp add: GetHelloMap_def fcard.rep_eq card_insert_if)
  then show "hm_writable \<lparr>hm_Tag = t, hm_Data = GetHelloMap h\<rparr>"
    by (auto simp: hm_writable_def GetHelloMap_def intro!: fmpred_upd)
  show "fmlookup (GetHelloMap h) TagTCID = None" by (simp add: GetHelloMap_def tag_defs)
qed


end
