(* ===== verification/Flow_Control.thy ===== *)
theory Flow_Control
imports Connection_Parameters RTT_Stats
begin

text \<open>
  Flow control (\<^verbatim>\<open>internal/flowcontrol\<close>): the controller of a stream or of the connection, and the manager of all
  controllers of a connection. The pointers that every controller has to the connection parameters, the round-trip times and the
  remote round-trip times are fields of the manager and arguments of the controllers' methods. Locks and debug output are left
  out; the clock is the argument \<open>now\<close>.

  \<^verbatim>\<open>GetWindowUpdates\<close> visits the streams in the order of a Go map, which is not defined; the model takes the order as an
  argument. The map of the remote round-trip times is an association list, of which only the maximum is used.
\<close>

section \<open>Definitions\<close>

definition StreamDataAfterTermination :: ErrorCode where "StreamDataAfterTermination = 2"
definition FlowControlReceivedTooMuchData :: ErrorCode where "FlowControlReceivedTooMuchData = 59"
definition ConnectionFlowControlMultiplier :: rat where "ConnectionFlowControlMultiplier = 3 / 2"

record flowController =
  fc_streamID :: StreamID
  fc_contributesToConnection :: bool
  fc_bytesSent :: ByteCount
  fc_sendWindow :: ByteCount
  fc_bytesRetrans :: ByteCount
  fc_lastWindowUpdateTime :: gotime
  fc_bytesRead :: ByteCount
  fc_highestReceived :: ByteCount
  fc_receiveWindow :: ByteCount
  fc_receiveWindowIncrement :: ByteCount
  fc_maxReceiveWindowIncrement :: ByteCount

definition ErrReceivedSmallerByteOffset :: error where
  "ErrReceivedSmallerByteOffset = GoErr ''Received a smaller byte offset''"

definition newFlowController :: "StreamID \<Rightarrow> bool \<Rightarrow> connectionParametersManager \<Rightarrow> flowController" where
  "newFlowController streamID contributesToConnection cp =
     (let receiveWindow = (if streamID = 0 then cpm_receiveConnectionFlowControlWindow cp else cpm_receiveStreamFlowControlWindow cp)
      in \<lparr>fc_streamID = streamID, fc_contributesToConnection = contributesToConnection, fc_bytesSent = 0,
          fc_sendWindow = 0, fc_bytesRetrans = 0, fc_lastWindowUpdateTime = 0, fc_bytesRead = 0, fc_highestReceived = 0,
          fc_receiveWindow = receiveWindow, fc_receiveWindowIncrement = receiveWindow,
          fc_maxReceiveWindowIncrement =
            (if streamID = 0 then cpm_maxReceiveConnectionFlowControlWindow cp else cpm_maxReceiveStreamFlowControlWindow cp)\<rparr>)"

definition getSendWindow :: "connectionParametersManager \<Rightarrow> flowController \<Rightarrow> ByteCount" where
  "getSendWindow cp c =
     (if fc_sendWindow c = 0
      then if fc_streamID c = 0 then cpm_sendConnectionFlowControlWindow cp else cpm_sendStreamFlowControlWindow cp
      else fc_sendWindow c)"

definition fc_AddBytesSent :: "ByteCount \<Rightarrow> flowController \<Rightarrow> flowController" where
  "fc_AddBytesSent n c = c\<lparr>fc_bytesSent := fc_bytesSent c + n\<rparr>"

definition fc_AddBytesRetrans :: "ByteCount \<Rightarrow> flowController \<Rightarrow> flowController" where
  "fc_AddBytesRetrans n c = c\<lparr>fc_bytesRetrans := fc_bytesRetrans c + n\<rparr>"

definition UpdateSendWindow :: "ByteCount \<Rightarrow> flowController \<Rightarrow> bool \<times> flowController" where
  "UpdateSendWindow newOffset c =
     (if newOffset > fc_sendWindow c then (True, c\<lparr>fc_sendWindow := newOffset\<rparr>) else (False, c))"

definition fc_SendWindowSize :: "connectionParametersManager \<Rightarrow> flowController \<Rightarrow> ByteCount" where
  "fc_SendWindowSize cp c =
     (let sendWindow = getSendWindow cp c in if fc_bytesSent c > sendWindow then 0 else sendWindow - fc_bytesSent c)"

definition SendWindowOffset :: "connectionParametersManager \<Rightarrow> flowController \<Rightarrow> ByteCount" where
  "SendWindowOffset cp c = getSendWindow cp c"

definition fc_UpdateHighestReceived :: "ByteCount \<Rightarrow> flowController \<Rightarrow> (ByteCount \<times> error option) \<times> flowController" where
  "fc_UpdateHighestReceived byteOffset c =
     (if byteOffset = fc_highestReceived c then ((0, None), c)
      else if byteOffset > fc_highestReceived c
      then ((byteOffset - fc_highestReceived c, None), c\<lparr>fc_highestReceived := byteOffset\<rparr>)
      else ((0, Some ErrReceivedSmallerByteOffset), c))"

definition IncrementHighestReceived :: "ByteCount \<Rightarrow> flowController \<Rightarrow> flowController" where
  "IncrementHighestReceived increment c = c\<lparr>fc_highestReceived := fc_highestReceived c + increment\<rparr>"

definition fc_AddBytesRead :: "gotime \<Rightarrow> ByteCount \<Rightarrow> flowController \<Rightarrow> flowController" where
  "fc_AddBytesRead now n c =
     (let c = (if fc_bytesRead c = 0 then c\<lparr>fc_lastWindowUpdateTime := now\<rparr> else c)
      in c\<lparr>fc_bytesRead := fc_bytesRead c + n\<rparr>)"

definition maybeAdjustWindowIncrement ::
    "gotime \<Rightarrow> RTTStats \<Rightarrow> (PathID \<times> duration) list \<Rightarrow> flowController \<Rightarrow> flowController" where
  "maybeAdjustWindowIncrement now rttStats remoteRTTs c =
     (let rtt = rtt_smoothedRTT rttStats;
          maxRemoteRTT = foldl MaxDuration 0 (map snd remoteRTTs)
      in if fc_lastWindowUpdateTime c = 0 \<or> rtt = 0
            \<or> time_Sub now (fc_lastWindowUpdateTime c) \<ge> int64 (2 * MaxDuration rtt maxRemoteRTT)
         then c
         else c\<lparr>fc_receiveWindowIncrement :=
                utils_MinByteCount (2 * fc_receiveWindowIncrement c) (fc_maxReceiveWindowIncrement c)\<rparr>)"

definition MaybeUpdateWindow ::
    "gotime \<Rightarrow> RTTStats \<Rightarrow> (PathID \<times> duration) list \<Rightarrow> flowController \<Rightarrow> (bool \<times> ByteCount \<times> ByteCount) \<times> flowController" where
  "MaybeUpdateWindow now rttStats remoteRTTs c =
     (let diff = fc_receiveWindow c - fc_bytesRead c
      in if diff < fc_receiveWindowIncrement c div 2
         then let oldWindowIncrement = fc_receiveWindowIncrement c;
                  c = maybeAdjustWindowIncrement now rttStats remoteRTTs c;
                  newWindowIncrement = (if fc_receiveWindowIncrement c \<noteq> oldWindowIncrement
                                        then fc_receiveWindowIncrement c else 0);
                  c = c\<lparr>fc_lastWindowUpdateTime := now,
                        fc_receiveWindow := fc_bytesRead c + fc_receiveWindowIncrement c\<rparr>
              in ((True, newWindowIncrement, fc_receiveWindow c), c)
         else ((False, fc_receiveWindowIncrement c, fc_receiveWindow c), c))"

definition EnsureMinimumWindowIncrement :: "ByteCount \<Rightarrow> flowController \<Rightarrow> flowController" where
  "EnsureMinimumWindowIncrement inc c =
     (if inc > fc_receiveWindowIncrement c
      then c\<lparr>fc_receiveWindowIncrement := utils_MinByteCount inc (fc_maxReceiveWindowIncrement c), fc_lastWindowUpdateTime := 0\<rparr>
      else c)"

definition CheckFlowControlViolation :: "flowController \<Rightarrow> bool" where
  "CheckFlowControlViolation c = (fc_highestReceived c > fc_receiveWindow c)"

text \<open>The manager.\<close>

record flowControlManager =
  fcm_connectionParameters :: connectionParametersManager
  fcm_rttStats :: RTTStats
  fcm_remoteRTTs :: "(PathID \<times> duration) list"
  fcm_streamFlowController :: "StreamID \<rightharpoonup> flowController"
  fcm_connFlowController :: flowController

record WindowUpdate =
  wup_StreamID :: StreamID
  wup_Offset :: ByteCount

definition errMapAccess :: error where "errMapAccess = GoErr ''Error accessing the flowController map.''"

definition NewFlowControlManager ::
    "connectionParametersManager \<Rightarrow> RTTStats \<Rightarrow> (PathID \<times> duration) list \<Rightarrow> flowControlManager" where
  "NewFlowControlManager cp rttStats remoteRTTs =
     \<lparr>fcm_connectionParameters = cp, fcm_rttStats = rttStats, fcm_remoteRTTs = remoteRTTs,
      fcm_streamFlowController = Map.empty, fcm_connFlowController = newFlowController 0 False cp\<rparr>"

definition setController :: "StreamID \<Rightarrow> flowController \<Rightarrow> flowControlManager \<Rightarrow> flowControlManager" where
  "setController streamID fc f = f\<lparr>fcm_streamFlowController := (fcm_streamFlowController f)(streamID \<mapsto> fc)\<rparr>"

definition setConnection :: "flowController \<Rightarrow> flowControlManager \<Rightarrow> flowControlManager" where
  "setConnection fc f = f\<lparr>fcm_connFlowController := fc\<rparr>"

definition fcm_NewStream :: "StreamID \<Rightarrow> bool \<Rightarrow> flowControlManager \<Rightarrow> flowControlManager" where
  "fcm_NewStream streamID contributesToConnection f =
     (if fcm_streamFlowController f streamID \<noteq> None then f
      else setController streamID (newFlowController streamID contributesToConnection (fcm_connectionParameters f)) f)"

definition fcm_RemoveStream :: "StreamID \<Rightarrow> flowControlManager \<Rightarrow> flowControlManager" where
  "fcm_RemoveStream streamID f = f\<lparr>fcm_streamFlowController := (fcm_streamFlowController f)(streamID := None)\<rparr>"

definition getFlowController :: "StreamID \<Rightarrow> flowControlManager \<Rightarrow> flowController result" where
  "getFlowController streamID f =
     (case fcm_streamFlowController f streamID of None \<Rightarrow> Inl errMapAccess | Some fc \<Rightarrow> Inr fc)"

text \<open>The common part of \<^verbatim>\<open>ResetStream\<close> and \<^verbatim>\<open>UpdateHighestReceived\<close>, after the update of the stream's controller.\<close>

definition checkReceived :: "flowController \<Rightarrow> ByteCount \<Rightarrow> flowControlManager \<Rightarrow> error option \<times> flowControlManager" where
  "checkReceived fc increment f =
     (if CheckFlowControlViolation fc
      then (Some (QuicErr FlowControlReceivedTooMuchData ''Received %d bytes on stream %d, allowed %d bytes''), f)
      else if fc_contributesToConnection fc
      then let f = setConnection (IncrementHighestReceived increment (fcm_connFlowController f)) f
           in if CheckFlowControlViolation (fcm_connFlowController f)
              then (Some (QuicErr FlowControlReceivedTooMuchData ''Received %d bytes for the connection, allowed %d bytes''), f)
              else (None, f)
      else (None, f))"

definition fcm_ResetStream :: "StreamID \<Rightarrow> ByteCount \<Rightarrow> flowControlManager \<Rightarrow> error option \<times> flowControlManager" where
  "fcm_ResetStream streamID byteOffset f =
     (case getFlowController streamID f of
        Inl err \<Rightarrow> (Some err, f)
      | Inr fc \<Rightarrow>
          case fc_UpdateHighestReceived byteOffset fc of
            ((increment, Some _), fc) \<Rightarrow> (Some (CodeErr StreamDataAfterTermination), setController streamID fc f)
          | ((increment, None), fc) \<Rightarrow> checkReceived fc increment (setController streamID fc f))"

definition fcm_UpdateHighestReceived :: "StreamID \<Rightarrow> ByteCount \<Rightarrow> flowControlManager \<Rightarrow> error option \<times> flowControlManager" where
  "fcm_UpdateHighestReceived streamID byteOffset f =
     (case getFlowController streamID f of
        Inl err \<Rightarrow> (Some err, f)
      | Inr fc \<Rightarrow>
          case fc_UpdateHighestReceived byteOffset fc of
            ((increment, _), fc) \<Rightarrow> checkReceived fc increment (setController streamID fc f))"

text \<open>An update of a stream's controller and, if the stream contributes to it, of the connection's.\<close>

definition updateBoth ::
    "StreamID \<Rightarrow> (flowController \<Rightarrow> flowController) \<Rightarrow> flowControlManager \<Rightarrow> error option \<times> flowControlManager" where
  "updateBoth streamID upd f =
     (case getFlowController streamID f of
        Inl err \<Rightarrow> (Some err, f)
      | Inr fc \<Rightarrow>
          let f = setController streamID (upd fc) f
          in (None, if fc_contributesToConnection fc then setConnection (upd (fcm_connFlowController f)) f else f))"

definition fcm_AddBytesRead :: "gotime \<Rightarrow> StreamID \<Rightarrow> ByteCount \<Rightarrow> flowControlManager \<Rightarrow> error option \<times> flowControlManager" where
  "fcm_AddBytesRead now streamID n = updateBoth streamID (fc_AddBytesRead now n)"

definition fcm_AddBytesSent :: "StreamID \<Rightarrow> ByteCount \<Rightarrow> flowControlManager \<Rightarrow> error option \<times> flowControlManager" where
  "fcm_AddBytesSent streamID n = updateBoth streamID (fc_AddBytesSent n)"

definition fcm_AddBytesRetrans :: "StreamID \<Rightarrow> ByteCount \<Rightarrow> flowControlManager \<Rightarrow> error option \<times> flowControlManager" where
  "fcm_AddBytesRetrans streamID n = updateBoth streamID (fc_AddBytesRetrans n)"

definition fcm_GetBytesSent :: "StreamID \<Rightarrow> flowControlManager \<Rightarrow> ByteCount result" where
  "fcm_GetBytesSent streamID f = bindE (getFlowController streamID f) (\<lambda>fc. Inr (fc_bytesSent fc))"

definition fcm_GetBytesRetrans :: "StreamID \<Rightarrow> flowControlManager \<Rightarrow> ByteCount result" where
  "fcm_GetBytesRetrans streamID f = bindE (getFlowController streamID f) (\<lambda>fc. Inr (fc_bytesRetrans fc))"

definition fcm_GetReceiveWindow :: "StreamID \<Rightarrow> flowControlManager \<Rightarrow> ByteCount result" where
  "fcm_GetReceiveWindow streamID f =
     (if streamID = 0 then Inr (fc_receiveWindow (fcm_connFlowController f))
      else bindE (getFlowController streamID f) (\<lambda>fc. Inr (fc_receiveWindow fc)))"

definition fcm_SendWindowSize :: "StreamID \<Rightarrow> flowControlManager \<Rightarrow> ByteCount result" where
  "fcm_SendWindowSize streamID f =
     bindE (getFlowController streamID f) (\<lambda>fc.
       let cp = fcm_connectionParameters f; res = fc_SendWindowSize cp fc
       in Inr (if fc_contributesToConnection fc
               then utils_MinByteCount res (fc_SendWindowSize cp (fcm_connFlowController f)) else res))"

definition RemainingConnectionWindowSize :: "flowControlManager \<Rightarrow> ByteCount" where
  "RemainingConnectionWindowSize f = fc_SendWindowSize (fcm_connectionParameters f) (fcm_connFlowController f)"

definition fcm_UpdateWindow :: "StreamID \<Rightarrow> ByteCount \<Rightarrow> flowControlManager \<Rightarrow> bool result \<times> flowControlManager" where
  "fcm_UpdateWindow streamID offset f =
     (if streamID = 0
      then let (b, fc) = UpdateSendWindow offset (fcm_connFlowController f) in (Inr b, setConnection fc f)
      else case getFlowController streamID f of
             Inl err \<Rightarrow> (Inl err, f)
           | Inr fc \<Rightarrow> let (b, fc) = UpdateSendWindow offset fc in (Inr b, setController streamID fc f))"

text \<open>The body of the loop of \<^verbatim>\<open>GetWindowUpdates\<close>, and the loop over the streams in the given order.\<close>

definition streamWindowUpdate ::
    "gotime \<Rightarrow> bool \<Rightarrow> StreamID \<Rightarrow> WindowUpdate list \<times> flowControlManager \<Rightarrow> WindowUpdate list \<times> flowControlManager" where
  "streamWindowUpdate now force sid = (\<lambda>(res, f).
     case fcm_streamFlowController f sid of
       None \<Rightarrow> (res, f)
     | Some fc \<Rightarrow>
         case MaybeUpdateWindow now (fcm_rttStats f) (fcm_remoteRTTs f) fc of
           ((necessary, newIncrement, offset), fc) \<Rightarrow>
             let f = setController sid fc f
             in if force \<or> necessary
                then (res @ [\<lparr>wup_StreamID = sid, wup_Offset = offset\<rparr>],
                      if fc_contributesToConnection fc \<and> newIncrement \<noteq> 0
                      then setConnection (EnsureMinimumWindowIncrement
                             (uint64_of_float (float64 (float64 (of_int (uint newIncrement)) * ConnectionFlowControlMultiplier)))
                             (fcm_connFlowController f)) f
                      else f)
                else (res, f))"

definition GetWindowUpdates ::
    "gotime \<Rightarrow> StreamID list \<Rightarrow> bool \<Rightarrow> flowControlManager \<Rightarrow> WindowUpdate list \<times> flowControlManager" where
  "GetWindowUpdates now order force f =
     (case fold (streamWindowUpdate now force) order ([], f) of
        (res, f) \<Rightarrow>
          case MaybeUpdateWindow now (fcm_rttStats f) (fcm_remoteRTTs f) (fcm_connFlowController f) of
            ((necessary, _, offset), fc) \<Rightarrow>
              (if force \<or> necessary then res @ [\<lparr>wup_StreamID = 0, wup_Offset = offset\<rparr>] else res, setConnection fc f))"

section \<open>One controller\<close>

text \<open>
  What an update of the receive window changes. When the increment does not exceed its maximum the window only grows.
\<close>

definition grows :: "flowController \<Rightarrow> flowController \<Rightarrow> bool" where
  "grows c c' \<longleftrightarrow> (\<exists>i t w. c' = c\<lparr>fc_receiveWindowIncrement := i, fc_lastWindowUpdateTime := t, fc_receiveWindow := w\<rparr> \<and>
     fc_receiveWindow c \<le> w \<and> i \<le> fc_maxReceiveWindowIncrement c)"

definition tunable :: "flowController \<Rightarrow> bool" where
  "tunable c \<longleftrightarrow> fc_receiveWindowIncrement c \<le> fc_maxReceiveWindowIncrement c \<and>
     unat (fc_maxReceiveWindowIncrement c) \<le> 2 ^ 62 \<and> fc_bytesRead c \<le> fc_receiveWindow c \<and> unat (fc_bytesRead c) \<le> 2 ^ 62"

lemma grows_refl: "tunable c \<Longrightarrow> grows c c"
  unfolding grows_def tunable_def
  by (intro exI [of _ "fc_receiveWindowIncrement c"] exI [of _ "fc_lastWindowUpdateTime c"] exI [of _ "fc_receiveWindow c"]) simp

lemma grows_trans: "grows a b \<Longrightarrow> grows b c \<Longrightarrow> grows a c"
  unfolding grows_def by (force intro: order.trans)

lemma grows_fields:
  assumes "grows c c'"
  shows "fc_streamID c' = fc_streamID c" "fc_contributesToConnection c' = fc_contributesToConnection c"
    "fc_bytesSent c' = fc_bytesSent c" "fc_sendWindow c' = fc_sendWindow c" "fc_bytesRead c' = fc_bytesRead c"
    "fc_highestReceived c' = fc_highestReceived c" "fc_receiveWindow c \<le> fc_receiveWindow c'"
    "fc_maxReceiveWindowIncrement c' = fc_maxReceiveWindowIncrement c"
    "fc_receiveWindowIncrement c' \<le> fc_maxReceiveWindowIncrement c'"
  using assms by (auto simp: grows_def)

lemma grows_tunable: "grows c c' \<Longrightarrow> tunable c \<Longrightarrow> tunable c'"
  using grows_fields [of c c'] by (auto simp: tunable_def intro: order.trans)

lemma doubled_increment:
  fixes i m :: ByteCount
  assumes "i \<le> m" "unat m \<le> 2 ^ 62"
  shows "i \<le> min (2 * i) m" "min (2 * i) m \<le> m"
proof -
  have "unat (2 * i) = 2 * unat i" using assms by (simp add: unat_word_ariths word_le_nat_alt)
  then show "i \<le> min (2 * i) m" using assms(1) by (simp add: min_def word_le_nat_alt)
qed simp

lemma MaybeUpdateWindow_grows:
  assumes "tunable c" "MaybeUpdateWindow now rtt rem c = ((n, i, off), c')"
  shows "grows c c' \<and> off = fc_receiveWindow c'"
proof (cases "fc_receiveWindow c - fc_bytesRead c < fc_receiveWindowIncrement c div 2")
  case True
  define inc where "inc = fc_receiveWindowIncrement (maybeAdjustWindowIncrement now rtt rem c)"
  have adj: "maybeAdjustWindowIncrement now rtt rem c = c\<lparr>fc_receiveWindowIncrement := inc\<rparr>"
    by (auto simp: inc_def maybeAdjustWindowIncrement_def Let_def)
  have inc: "fc_receiveWindowIncrement c \<le> inc" "inc \<le> fc_maxReceiveWindowIncrement c"
    using assms(1) doubled_increment [of "fc_receiveWindowIncrement c" "fc_maxReceiveWindowIncrement c"]
    by (auto simp: inc_def maybeAdjustWindowIncrement_def Let_def minmax tunable_def)
  have "unat (fc_receiveWindow c - fc_bytesRead c) = unat (fc_receiveWindow c) - unat (fc_bytesRead c)"
    using assms(1) by (simp add: unat_sub tunable_def)
  moreover have "unat (fc_receiveWindow c - fc_bytesRead c) < unat inc"
    using True inc(1) by (auto simp: word_less_nat_alt word_le_nat_alt unat_div)
  moreover have "unat (fc_bytesRead c + inc) = unat (fc_bytesRead c) + unat inc"
    using inc(2) assms(1) by (simp add: unat_word_ariths tunable_def word_le_nat_alt)
  ultimately have "fc_receiveWindow c \<le> fc_bytesRead c + inc" by (simp add: word_le_nat_alt)
  then have "grows c (c\<lparr>fc_receiveWindowIncrement := inc, fc_lastWindowUpdateTime := now, fc_receiveWindow := fc_bytesRead c + inc\<rparr>)"
    using inc(2) unfolding grows_def by blast
  moreover have "c' = c\<lparr>fc_receiveWindowIncrement := inc, fc_lastWindowUpdateTime := now, fc_receiveWindow := fc_bytesRead c + inc\<rparr>"
    "off = fc_receiveWindow c'"
    using assms(2) True by (auto simp: MaybeUpdateWindow_def Let_def adj)
  ultimately show ?thesis by simp
next
  case False
  then show ?thesis using assms grows_refl by (auto simp: MaybeUpdateWindow_def Let_def)
qed

lemma EnsureMinimumWindowIncrement_grows:
  assumes "tunable c"
  shows "grows c (EnsureMinimumWindowIncrement i c)"
proof (cases "i > fc_receiveWindowIncrement c")
  case True
  then show ?thesis unfolding grows_def EnsureMinimumWindowIncrement_def minmax
    by (intro exI [of _ "min i (fc_maxReceiveWindowIncrement c)"] exI [of _ 0] exI [of _ "fc_receiveWindow c"]) simp
qed (use assms in \<open>simp add: EnsureMinimumWindowIncrement_def grows_refl\<close>)

section \<open>A sender and a receiver\<close>

text \<open>
  Two ends of a connection: \<open>s\<close> sends, \<open>r\<close> receives, \<open>d\<close> are the ends of the frames sent and \<open>u\<close> the window updates. Frames and
  window updates arrive in any order, late, repeatedly or never. The sender sends what \<^verbatim>\<open>SendWindowSize\<close> allows, less
  than \<open>2 ^ 62\<close> bytes in all; the receiver reads what has arrived.
\<close>

inductive fc_run ::
    "connectionParametersManager \<Rightarrow> connectionParametersManager \<Rightarrow> flowControlManager \<Rightarrow> flowControlManager \<Rightarrow>
     (StreamID \<times> ByteCount) set \<Rightarrow> (StreamID \<times> ByteCount) set \<Rightarrow> bool" for cpS cpR where
  start: "fc_run cpS cpR (NewFlowControlManager cpS rtt remote) (NewFlowControlManager cpR rtt' remote') {} {}"
| open_stream: "fc_run cpS cpR s r d u \<Longrightarrow> i \<noteq> 0 \<Longrightarrow> fc_run cpS cpR (fcm_NewStream i b s) (fcm_NewStream i b r) d u"
| send: "fc_run cpS cpR s r d u \<Longrightarrow> fcm_SendWindowSize i s = Inr w \<Longrightarrow> n \<le> w \<Longrightarrow>
    fcm_AddBytesSent i n s = (None, s') \<Longrightarrow> fcm_GetBytesSent i s' = Inr off \<Longrightarrow>
    unat off \<le> 2 ^ 62 \<Longrightarrow> unat (fc_bytesSent (fcm_connFlowController s')) \<le> 2 ^ 62 \<Longrightarrow>
    fc_run cpS cpR s' r (insert (i, off) d) u"
| arrive: "fc_run cpS cpR s r d u \<Longrightarrow> (i, off) \<in> d \<Longrightarrow> fcm_UpdateHighestReceived i off r = (e, r') \<Longrightarrow>
    fc_run cpS cpR s r' d u"
| read: "fc_run cpS cpR s r d u \<Longrightarrow> getFlowController i r = Inr c \<Longrightarrow>
    unat (fc_bytesRead c) + unat n \<le> unat (fc_highestReceived c) \<Longrightarrow> fcm_AddBytesRead now i n r = (e, r') \<Longrightarrow>
    fc_run cpS cpR s r' d u"
| update: "fc_run cpS cpR s r d u \<Longrightarrow> set order = dom (fcm_streamFlowController r) \<Longrightarrow> distinct order \<Longrightarrow>
    GetWindowUpdates now order force r = (ws, r') \<Longrightarrow>
    fc_run cpS cpR s r' d (u \<union> (\<lambda>w. (wup_StreamID w, wup_Offset w)) ` set ws)"
| grant: "fc_run cpS cpR s r d u \<Longrightarrow> (i, off) \<in> u \<Longrightarrow> fcm_UpdateWindow i off s = (b, s') \<Longrightarrow> fc_run cpS cpR s' r d u"
| measure: "fc_run cpS cpR s r d u \<Longrightarrow>
    fc_run cpS cpR s (r\<lparr>fcm_rttStats := rtt, fcm_remoteRTTs := remote\<rparr>) d u"

text \<open>
  The invariant: what a controller of the sender has sent fits its send window, which fits the receive window
  of the other end; the controllers of the connection count the bytes of the contributing streams.
\<close>

definition initialWindow :: "connectionParametersManager \<Rightarrow> StreamID \<Rightarrow> ByteCount" where
  "initialWindow cp i = (if i = 0 then cpm_sendConnectionFlowControlWindow cp else cpm_sendStreamFlowControlWindow cp)"

definition ends_ok :: "connectionParametersManager \<Rightarrow> flowController \<Rightarrow> flowController \<Rightarrow> bool" where
  "ends_ok cpS a b \<longleftrightarrow>
     fc_streamID a = fc_streamID b \<and> fc_contributesToConnection a = fc_contributesToConnection b \<and>
     unat (fc_bytesSent a) \<le> 2 ^ 62 \<and> fc_bytesSent a \<le> getSendWindow cpS a \<and> getSendWindow cpS a \<le> fc_receiveWindow b \<and>
     fc_bytesRead b \<le> fc_highestReceived b \<and> fc_highestReceived b \<le> fc_bytesSent a \<and> tunable b \<and>
     initialWindow cpS (fc_streamID b) \<le> fc_receiveWindow b"

definition weight :: "(flowController \<Rightarrow> ByteCount) \<Rightarrow> flowController option \<Rightarrow> nat" where
  "weight g x = (case x of None \<Rightarrow> 0 | Some c \<Rightarrow> if fc_contributesToConnection c then unat (g c) else 0)"

definition total :: "(flowController \<Rightarrow> ByteCount) \<Rightarrow> (StreamID \<rightharpoonup> flowController) \<Rightarrow> nat" where
  "total g M = (\<Sum>i\<in>UNIV. weight g (M i))"

lemma total_upd: "total g (M(i \<mapsto> c)) + weight g (M i) = total g M + weight g (Some c)"
proof -
  have "(\<Sum>j\<in>UNIV - {i}. weight g ((M(i \<mapsto> c)) j)) = (\<Sum>j\<in>UNIV - {i}. weight g (M j))" by (rule sum.cong) auto
  then show ?thesis unfolding total_def by (simp add: sum.remove [of UNIV i])
qed

lemma total_mono: "(\<And>i. weight g (M i) \<le> weight h (N i)) \<Longrightarrow> total g M \<le> total h N"
  unfolding total_def by (rule sum_mono)

definition streams_ok :: "connectionParametersManager \<Rightarrow> flowControlManager \<Rightarrow> flowControlManager \<Rightarrow> bool" where
  "streams_ok cpS s r \<longleftrightarrow> dom (fcm_streamFlowController s) = dom (fcm_streamFlowController r) \<and>
     (\<forall>i a b. fcm_streamFlowController s i = Some a \<longrightarrow> fcm_streamFlowController r i = Some b \<longrightarrow>
        i \<noteq> 0 \<and> fc_streamID a = i \<and> ends_ok cpS a b)"

definition conn_ok :: "connectionParametersManager \<Rightarrow> flowControlManager \<Rightarrow> flowControlManager \<Rightarrow> bool" where
  "conn_ok cpS s r \<longleftrightarrow>
     fc_streamID (fcm_connFlowController s) = 0 \<and> ends_ok cpS (fcm_connFlowController s) (fcm_connFlowController r) \<and>
     unat (fc_bytesSent (fcm_connFlowController s)) = total fc_bytesSent (fcm_streamFlowController s) \<and>
     unat (fc_highestReceived (fcm_connFlowController r)) = total fc_highestReceived (fcm_streamFlowController r) \<and>
     unat (fc_bytesRead (fcm_connFlowController r)) = total fc_bytesRead (fcm_streamFlowController r)"

definition sent_ok :: "flowControlManager \<Rightarrow> (StreamID \<times> ByteCount) set \<Rightarrow> bool" where
  "sent_ok s d \<longleftrightarrow> (\<forall>(i, off)\<in>d. \<exists>a. fcm_streamFlowController s i = Some a \<and> off \<le> fc_bytesSent a)"

definition updates_ok :: "connectionParametersManager \<Rightarrow> flowControlManager \<Rightarrow> (StreamID \<times> ByteCount) set \<Rightarrow> bool" where
  "updates_ok cpS r u \<longleftrightarrow> (\<forall>(i, off)\<in>u. initialWindow cpS i \<le> off \<and>
     (if i = 0 then off \<le> fc_receiveWindow (fcm_connFlowController r)
      else \<exists>b. fcm_streamFlowController r i = Some b \<and> off \<le> fc_receiveWindow b))"

definition fc_inv ::
    "connectionParametersManager \<Rightarrow> connectionParametersManager \<Rightarrow> flowControlManager \<Rightarrow> flowControlManager \<Rightarrow>
     (StreamID \<times> ByteCount) set \<Rightarrow> (StreamID \<times> ByteCount) set \<Rightarrow> bool" where
  "fc_inv cpS cpR s r d u \<longleftrightarrow> fcm_connectionParameters s = cpS \<and> fcm_connectionParameters r = cpR \<and>
     streams_ok cpS s r \<and> conn_ok cpS s r \<and> sent_ok s d \<and> updates_ok cpS r u"

definition agreed :: "connectionParametersManager \<Rightarrow> connectionParametersManager \<Rightarrow> bool" where
  "agreed cpS cpR \<longleftrightarrow>
     cpm_sendStreamFlowControlWindow cpS \<le> cpm_receiveStreamFlowControlWindow cpR \<and>
     cpm_sendConnectionFlowControlWindow cpS \<le> cpm_receiveConnectionFlowControlWindow cpR \<and>
     cpm_receiveStreamFlowControlWindow cpR \<le> cpm_maxReceiveStreamFlowControlWindow cpR \<and>
     cpm_receiveConnectionFlowControlWindow cpR \<le> cpm_maxReceiveConnectionFlowControlWindow cpR \<and>
     unat (cpm_maxReceiveStreamFlowControlWindow cpR) \<le> 2 ^ 62 \<and> unat (cpm_maxReceiveConnectionFlowControlWindow cpR) \<le> 2 ^ 62"

lemma new_fields [simp]:
  "fc_streamID (newFlowController i b cp) = i" "fc_contributesToConnection (newFlowController i b cp) = b"
  "fc_bytesSent (newFlowController i b cp) = 0" "fc_highestReceived (newFlowController i b cp) = 0"
  "fc_bytesRead (newFlowController i b cp) = 0"
  by (simp_all add: newFlowController_def Let_def)

lemma new_ends_ok: "agreed cpS cpR \<Longrightarrow> ends_ok cpS (newFlowController i b cpS) (newFlowController i b cpR)"
  by (simp add: ends_ok_def newFlowController_def Let_def getSendWindow_def tunable_def agreed_def initialWindow_def)

lemma start_inv: "agreed cpS cpR \<Longrightarrow> fc_inv cpS cpR (NewFlowControlManager cpS rtt rem) (NewFlowControlManager cpR rtt' rem') {} {}"
  using new_ends_ok [of cpS cpR 0 False]
  by (simp add: fc_inv_def NewFlowControlManager_def streams_ok_def conn_ok_def sent_ok_def updates_ok_def total_def weight_def)

lemma weight_zero [simp]: "g c = 0 \<Longrightarrow> weight g (Some c) = 0" "weight g None = 0"
  by (simp_all add: weight_def)

text \<open>A step at one stream and at the connection.\<close>

lemma step_inv:
  assumes inv: "fc_inv cpS cpR s r d u"
    and i: "i \<noteq> 0" "fcm_streamFlowController s i = None \<longleftrightarrow> fcm_streamFlowController r i = None"
    and s': "fcm_connectionParameters s' = cpS" "fcm_streamFlowController s' = (fcm_streamFlowController s)(i \<mapsto> a')"
    and r': "fcm_connectionParameters r' = cpR" "fcm_streamFlowController r' = (fcm_streamFlowController r)(i \<mapsto> b')"
    and ab: "fc_streamID a' = i" "ends_ok cpS a' b'"
    and conn: "fc_streamID (fcm_connFlowController s') = 0" "ends_ok cpS (fcm_connFlowController s') (fcm_connFlowController r')"
    and sent: "unat (fc_bytesSent (fcm_connFlowController s')) + weight fc_bytesSent (fcm_streamFlowController s i) =
        unat (fc_bytesSent (fcm_connFlowController s)) + weight fc_bytesSent (Some a')"
    and received: "unat (fc_highestReceived (fcm_connFlowController r')) + weight fc_highestReceived (fcm_streamFlowController r i) =
        unat (fc_highestReceived (fcm_connFlowController r)) + weight fc_highestReceived (Some b')"
    and read: "unat (fc_bytesRead (fcm_connFlowController r')) + weight fc_bytesRead (fcm_streamFlowController r i) =
        unat (fc_bytesRead (fcm_connFlowController r)) + weight fc_bytesRead (Some b')"
    and ok: "sent_ok s' d'" "updates_ok cpS r' u'"
  shows "fc_inv cpS cpR s' r' d' u'"
proof -
  have st: "streams_ok cpS s r" and c: "conn_ok cpS s r" using inv by (simp_all add: fc_inv_def)
  have "dom (fcm_streamFlowController s') = dom (fcm_streamFlowController r')" using st s'(2) r'(2) by (simp add: streams_ok_def)
  moreover have "j \<noteq> 0 \<and> fc_streamID a = j \<and> ends_ok cpS a b"
    if j: "fcm_streamFlowController s' j = Some a" "fcm_streamFlowController r' j = Some b" for j a b
  proof (cases "j = i")
    case True
    then show ?thesis using j i(1) ab by (simp add: s'(2) r'(2))
  next
    case False
    then have "fcm_streamFlowController s j = Some a" "fcm_streamFlowController r j = Some b" using j by (simp_all add: s'(2) r'(2))
    then show ?thesis using st unfolding streams_ok_def by blast
  qed
  ultimately have "streams_ok cpS s' r'" unfolding streams_ok_def by blast
  moreover have "unat (fc_bytesSent (fcm_connFlowController s')) = total fc_bytesSent (fcm_streamFlowController s')"
    "unat (fc_highestReceived (fcm_connFlowController r')) = total fc_highestReceived (fcm_streamFlowController r')"
    "unat (fc_bytesRead (fcm_connFlowController r')) = total fc_bytesRead (fcm_streamFlowController r')"
    using c sent received read total_upd [of fc_bytesSent "fcm_streamFlowController s" i a']
      total_upd [of fc_highestReceived "fcm_streamFlowController r" i b'] total_upd [of fc_bytesRead "fcm_streamFlowController r" i b']
    unfolding s'(2) r'(2) conn_ok_def by linarith+
  then have "conn_ok cpS s' r'" using conn by (simp add: conn_ok_def)
  ultimately show ?thesis using s'(1) r'(1) ok by (simp add: fc_inv_def)
qed

lemma streams_dom:
  assumes "fc_inv cpS cpR s r d u"
  shows "fcm_streamFlowController r i = None \<longleftrightarrow> fcm_streamFlowController s i = None"
proof -
  have "dom (fcm_streamFlowController s) = dom (fcm_streamFlowController r)" using assms unfolding fc_inv_def streams_ok_def by blast
  then show ?thesis by (metis domIff)
qed

lemma streamD:
  assumes "fc_inv cpS cpR s r d u" "fcm_streamFlowController s i = Some a" "fcm_streamFlowController r i = Some b"
  shows "i \<noteq> 0" "fc_streamID a = i" "ends_ok cpS a b"
  using assms unfolding fc_inv_def streams_ok_def by blast+

lemma NewStream_inv:
  assumes inv: "fc_inv cpS cpR s r d u" and ag: "agreed cpS cpR" and i: "i \<noteq> 0"
  shows "fc_inv cpS cpR (fcm_NewStream i b s) (fcm_NewStream i b r) d u"
proof (cases "fcm_streamFlowController s i")
  case None
  then have none: "fcm_streamFlowController r i = None" using streams_dom [OF inv] by simp
  have cp: "fcm_connectionParameters s = cpS" "fcm_connectionParameters r = cpR" and c: "conn_ok cpS s r"
    and "sent_ok s d" "updates_ok cpS r u" using inv by (simp_all add: fc_inv_def)
  then have "sent_ok (fcm_NewStream i b s) d" "updates_ok cpS (fcm_NewStream i b r) u"
    using None none by (fastforce simp: sent_ok_def updates_ok_def fcm_NewStream_def setController_def)+
  then show ?thesis
    using None none c new_ends_ok [OF ag, of i b] cp
    by (intro step_inv [OF inv i, where a' = "newFlowController i b cpS" and b' = "newFlowController i b cpR"])
       (auto simp: fcm_NewStream_def setController_def conn_ok_def)
next
  case (Some a)
  then have "fcm_streamFlowController r i \<noteq> None" using streams_dom [OF inv] by simp
  then show ?thesis using Some inv by (simp add: fcm_NewStream_def)
qed

lemma send_ends:
  assumes "ends_ok cpS a b" "n \<le> fc_SendWindowSize cpS a" "unat (fc_bytesSent a + n) \<le> 2 ^ 62"
  shows "ends_ok cpS (fc_AddBytesSent n a) b" "unat (fc_bytesSent a + n) = unat (fc_bytesSent a) + unat n"
proof -
  have le: "fc_bytesSent a \<le> getSendWindow cpS a" using assms(1) by (simp add: ends_ok_def)
  then have "n \<le> getSendWindow cpS a - fc_bytesSent a" using assms(2) by (auto simp: fc_SendWindowSize_def Let_def split: if_splits)
  then have "unat n \<le> unat (getSendWindow cpS a) - unat (fc_bytesSent a)" using le by (simp add: word_le_nat_alt unat_sub)
  then have n: "unat (fc_bytesSent a) + unat n \<le> unat (getSendWindow cpS a)" using le by (simp add: word_le_nat_alt)
  then show sum: "unat (fc_bytesSent a + n) = unat (fc_bytesSent a) + unat n"
    using le_less_trans [OF n unat_lt64] by (subst unat_add_lem [THEN iffD1]) simp_all
  show "ends_ok cpS (fc_AddBytesSent n a) b"
    using assms(1,3) n sum by (auto simp: ends_ok_def fc_AddBytesSent_def getSendWindow_def word_le_nat_alt)
qed

lemma updateBoth_fields:
  assumes "fst (updateBoth i upd f) = None" "fcm_streamFlowController f i = Some c"
  shows "fcm_streamFlowController (snd (updateBoth i upd f)) = (fcm_streamFlowController f)(i \<mapsto> upd c)"
    "fcm_connFlowController (snd (updateBoth i upd f)) =
       (if fc_contributesToConnection c then upd (fcm_connFlowController f) else fcm_connFlowController f)"
    "fcm_connectionParameters (snd (updateBoth i upd f)) = fcm_connectionParameters f"
  using assms(2) by (simp_all add: updateBoth_def getFlowController_def setController_def setConnection_def Let_def)

lemma send_inv:
  assumes inv: "fc_inv cpS cpR s r d u" and w: "fcm_SendWindowSize i s = Inr w" "n \<le> w"
    and s': "fcm_AddBytesSent i n s = (None, s')" "fcm_GetBytesSent i s' = Inr off"
    and bound: "unat off \<le> 2 ^ 62" "unat (fc_bytesSent (fcm_connFlowController s')) \<le> 2 ^ 62"
  shows "fc_inv cpS cpR s' r (insert (i, off) d) u"
proof -
  obtain a where a: "fcm_streamFlowController s i = Some a"
    using w(1) by (auto simp: fcm_SendWindowSize_def getFlowController_def split: option.splits)
  obtain b where "fcm_streamFlowController r i = Some b" using streams_dom [OF inv, of i] a by fastforce
  note b = this streamD [OF inv a this]
  let ?ca = "fcm_connFlowController s" and ?k = "fc_contributesToConnection a"
  have cp: "fcm_connectionParameters s = cpS" and ca: "fc_streamID ?ca = 0" "ends_ok cpS ?ca (fcm_connFlowController r)"
    using inv by (simp_all add: fc_inv_def conn_ok_def)
  have "fst (updateBoth i (fc_AddBytesSent n) s) = None" "s' = snd (updateBoth i (fc_AddBytesSent n) s)"
    using s'(1) by (simp_all add: fcm_AddBytesSent_def)
  note st = updateBoth_fields [OF this(1) a, folded this(2)]
  have off: "off = fc_bytesSent a + n"
    using s'(2) by (simp add: st fcm_GetBytesSent_def getFlowController_def fc_AddBytesSent_def)
  have n: "n \<le> fc_SendWindowSize cpS a" "?k \<Longrightarrow> n \<le> fc_SendWindowSize cpS ?ca"
    using w a cp by (auto simp: fcm_SendWindowSize_def getFlowController_def minmax Let_def split: if_splits)
  note A = send_ends [OF b(4) n(1) bound(1) [unfolded off]]
  have C: "ends_ok cpS (fc_AddBytesSent n ?ca) (fcm_connFlowController r)" "unat (fc_bytesSent ?ca + n) = unat (fc_bytesSent ?ca) + unat n" if ?k
    using send_ends [OF ca(2) n(2)] bound(2) that by (simp_all add: st fc_AddBytesSent_def)
  have "fc_bytesSent a \<le> fc_bytesSent a + n" using A(2) by (simp add: word_le_nat_alt)
  then have sent: "sent_ok s' (insert (i, off) d)"
    using inv a unfolding fc_inv_def sent_ok_def off st by (fastforce simp: fc_AddBytesSent_def)
  show ?thesis
  proof (rule step_inv [OF inv b(2), where a' = "fc_AddBytesSent n a" and b' = b])
    show "unat (fc_bytesSent (fcm_connFlowController s')) + weight fc_bytesSent (fcm_streamFlowController s i) =
      unat (fc_bytesSent ?ca) + weight fc_bytesSent (Some (fc_AddBytesSent n a))"
      using C(2) A(2) by (simp add: st a weight_def fc_AddBytesSent_def)
  qed (use inv a b A(1) C(1) ca cp st sent in \<open>auto simp: fc_inv_def fc_AddBytesSent_def\<close>)
qed

text \<open>A step of the receiver at one stream and at the connection, and a step of the sender.\<close>

lemma receiver_step:
  assumes inv: "fc_inv cpS cpR s r d u" and a: "fcm_streamFlowController s i = Some a" and b: "fcm_streamFlowController r i = Some b"
    and r': "fcm_connectionParameters r' = fcm_connectionParameters r" "fcm_streamFlowController r' = (fcm_streamFlowController r)(i \<mapsto> b')"
    and ends: "ends_ok cpS a b'" "ends_ok cpS (fcm_connFlowController s) (fcm_connFlowController r')"
    and received: "unat (fc_highestReceived (fcm_connFlowController r')) + weight fc_highestReceived (Some b) =
        unat (fc_highestReceived (fcm_connFlowController r)) + weight fc_highestReceived (Some b')"
    and read: "unat (fc_bytesRead (fcm_connFlowController r')) + weight fc_bytesRead (Some b) =
        unat (fc_bytesRead (fcm_connFlowController r)) + weight fc_bytesRead (Some b')"
    and windows: "fc_receiveWindow b \<le> fc_receiveWindow b'"
      "fc_receiveWindow (fcm_connFlowController r) \<le> fc_receiveWindow (fcm_connFlowController r')"
  shows "fc_inv cpS cpR s r' d u"
proof -
  have cp: "fcm_connectionParameters s = cpS" "fcm_connectionParameters r = cpR" and c: "conn_ok cpS s r"
    and so: "sent_ok s d" and uo: "updates_ok cpS r u" using inv by (simp_all add: fc_inv_def)
  note ab = streamD [OF inv a b]
  show ?thesis
  proof (rule step_inv [OF inv ab(1), where a' = a and b' = b'])
    show "(fcm_streamFlowController s i = None) = (fcm_streamFlowController r i = None)" using a b by simp
    show "fcm_streamFlowController s = (fcm_streamFlowController s)(i \<mapsto> a)" using a by (simp add: fun_upd_idem)
    show "fc_streamID (fcm_connFlowController s) = 0" using c by (simp add: conn_ok_def)
    show "updates_ok cpS r' u" unfolding updates_ok_def
    proof clarify
      fix j off assume "(j, off) \<in> u"
      then have "initialWindow cpS j \<le> off" "if j = 0 then off \<le> fc_receiveWindow (fcm_connFlowController r)
        else \<exists>b. fcm_streamFlowController r j = Some b \<and> off \<le> fc_receiveWindow b" using uo by (auto simp: updates_ok_def)
      then show "initialWindow cpS j \<le> off \<and> (if j = 0 then off \<le> fc_receiveWindow (fcm_connFlowController r')
        else \<exists>b. fcm_streamFlowController r' j = Some b \<and> off \<le> fc_receiveWindow b)"
        using windows b by (auto simp: r'(2) split: if_splits intro: order.trans)
    qed
  qed (use cp r' ab ends received read a b so in simp_all)
qed

lemma weight_received: "ends_ok cpS a b \<Longrightarrow> weight fc_highestReceived (Some b) \<le> weight fc_bytesSent (Some a)"
  by (simp add: ends_ok_def weight_def word_le_nat_alt)

lemma total_received:
  assumes inv: "fc_inv cpS cpR s r d u" and a: "fcm_streamFlowController s i = Some a" and b': "ends_ok cpS a b'"
  shows "total fc_highestReceived ((fcm_streamFlowController r)(i \<mapsto> b')) \<le> total fc_bytesSent (fcm_streamFlowController s)"
proof (rule total_mono)
  fix j
  show "weight fc_highestReceived (((fcm_streamFlowController r)(i \<mapsto> b')) j) \<le> weight fc_bytesSent (fcm_streamFlowController s j)"
  proof (cases "j = i")
    case True
    then show ?thesis using weight_received [OF b'] a by simp
  next
    case False
    show ?thesis
    proof (cases "fcm_streamFlowController r j")
      case (Some b)
      then obtain a where "fcm_streamFlowController s j = Some a" using streams_dom [OF inv, of j] by fastforce
      then show ?thesis using weight_received streamD(3) [OF inv _ Some] False Some by simp
    qed (use False in simp)
  qed
qed

lemma ends_no_violation: "ends_ok cpS a b \<Longrightarrow> \<not> CheckFlowControlViolation b"
  by (simp add: ends_ok_def CheckFlowControlViolation_def word_less_nat_alt word_le_nat_alt)

lemma arrive_outcome:
  assumes inv: "fc_inv cpS cpR s r d u" and off: "(i, off) \<in> d"
  obtains r' where "fcm_UpdateHighestReceived i off r = (None, r')" "fc_inv cpS cpR s r' d u"
proof -
  obtain a where a: "fcm_streamFlowController s i = Some a" "off \<le> fc_bytesSent a" using inv off by (auto simp: fc_inv_def sent_ok_def)
  obtain b where "fcm_streamFlowController r i = Some b" using streams_dom [OF inv, of i] a by fastforce
  note b = this streamD [OF inv a(1) this]
  let ?cb = "fcm_connFlowController r" and ?ca = "fcm_connFlowController s"
  define b' where "b' = snd (fc_UpdateHighestReceived off b)"
  define inc where "inc = fst (fst (fc_UpdateHighestReceived off b))"
  have upd: "b' = b\<lparr>fc_highestReceived := max (fc_highestReceived b) off\<rparr>"
    by (auto simp: b'_def fc_UpdateHighestReceived_def max_def order.order_iff_strict)
  have highest: "unat (fc_highestReceived b') = unat (fc_highestReceived b) + unat inc"
    by (auto simp: b'_def inc_def fc_UpdateHighestReceived_def unat_sub word_less_nat_alt word_le_nat_alt)
  have ends: "ends_ok cpS a b'" using b(4) a(2) by (simp add: upd ends_ok_def tunable_def max.coboundedI1)
  define cb' where "cb' = (if fc_contributesToConnection b then IncrementHighestReceived inc ?cb else ?cb)"
  have c: "conn_ok cpS s r" using inv by (simp add: fc_inv_def)
  have k: "fc_contributesToConnection b' = fc_contributesToConnection b" by (simp add: upd)
  have le: "unat (fc_highestReceived ?cb) + unat inc \<le> unat (fc_bytesSent ?ca)" if "fc_contributesToConnection b"
    using total_received [OF inv a(1) ends] total_upd [of fc_highestReceived "fcm_streamFlowController r" i b'] c b(1) that highest k
    by (simp add: conn_ok_def weight_def)
  then have sum: "unat (fc_highestReceived ?cb + inc) = unat (fc_highestReceived ?cb) + unat inc" if "fc_contributesToConnection b"
    using le_less_trans [OF le [OF that] unat_lt64] by (subst unat_add_lem [THEN iffD1]) simp_all
  have ce: "ends_ok cpS ?ca cb'"
    using c le sum by (auto simp: cb'_def conn_ok_def ends_ok_def IncrementHighestReceived_def word_le_nat_alt tunable_def)
  have res: "fcm_UpdateHighestReceived i off r = (None, setConnection cb' (setController i b' r))"
    using ends_no_violation [OF ends] ends_no_violation [OF ce] b(1) k by (cases "fc_UpdateHighestReceived off b"; cases "fst (fc_UpdateHighestReceived off b)")
      (auto simp: fcm_UpdateHighestReceived_def getFlowController_def checkReceived_def cb'_def b'_def inc_def setController_def setConnection_def)
  have "fc_inv cpS cpR s (setConnection cb' (setController i b' r)) d u"
  proof (rule receiver_step [OF inv a(1) b(1), where b' = b'])
    show "unat (fc_highestReceived (fcm_connFlowController (setConnection cb' (setController i b' r)))) + weight fc_highestReceived (Some b) =
      unat (fc_highestReceived ?cb) + weight fc_highestReceived (Some b')"
      using sum highest k by (simp add: setConnection_def cb'_def IncrementHighestReceived_def weight_def)
  qed (use ends ce in \<open>simp_all add: setConnection_def setController_def upd cb'_def IncrementHighestReceived_def weight_def\<close>)
  with res show ?thesis using that by blast
qed

lemma read_inv:
  assumes inv: "fc_inv cpS cpR s r d u" and c: "getFlowController i r = Inr b"
    and n: "unat (fc_bytesRead b) + unat n \<le> unat (fc_highestReceived b)" and r': "fcm_AddBytesRead now i n r = (e, r')"
  shows "fc_inv cpS cpR s r' d u"
proof -
  have b: "fcm_streamFlowController r i = Some b" using c by (auto simp: getFlowController_def split: option.splits)
  then obtain a where a: "fcm_streamFlowController s i = Some a" using streams_dom [OF inv, of i] by fastforce
  note ab = streamD [OF inv a b]
  let ?cb = "fcm_connFlowController r" and ?b' = "fc_AddBytesRead now n b"
  have "fst (updateBoth i (fc_AddBytesRead now n) r) = None" "r' = snd (updateBoth i (fc_AddBytesRead now n) r)"
    using r' b by (auto simp: fcm_AddBytesRead_def updateBoth_def getFlowController_def Let_def)
  note st = updateBoth_fields [OF this(1) b, folded this(2)]
  have fields: "fc_bytesRead (fc_AddBytesRead now n x) = fc_bytesRead x + n" "fc_highestReceived (fc_AddBytesRead now n x) = fc_highestReceived x"
    "fc_receiveWindow (fc_AddBytesRead now n x) = fc_receiveWindow x" "fc_streamID (fc_AddBytesRead now n x) = fc_streamID x"
    "fc_contributesToConnection (fc_AddBytesRead now n x) = fc_contributesToConnection x"
    "fc_maxReceiveWindowIncrement (fc_AddBytesRead now n x) = fc_maxReceiveWindowIncrement x"
    "fc_receiveWindowIncrement (fc_AddBytesRead now n x) = fc_receiveWindowIncrement x" for x
    by (simp_all add: fc_AddBytesRead_def Let_def)
  have ends: "ends_ok cpS y (fc_AddBytesRead now n x) \<and> unat (fc_bytesRead x + n) = unat (fc_bytesRead x) + unat n"
    if "ends_ok cpS y x" "unat (fc_bytesRead x) + unat n \<le> unat (fc_highestReceived x)" for x y
  proof -
    have "unat (fc_bytesRead x + n) = unat (fc_bytesRead x) + unat n"
      using le_less_trans [OF that(2) unat_lt64] by (subst unat_add_lem [THEN iffD1]) simp_all
    then show ?thesis using that by (auto simp: ends_ok_def tunable_def fields word_le_nat_alt)
  qed
  have co: "conn_ok cpS s r" using inv by (simp add: fc_inv_def)
  have "total fc_bytesRead ((fcm_streamFlowController r)(i \<mapsto> ?b')) \<le> total fc_highestReceived (fcm_streamFlowController r)"
  proof (rule total_mono)
    fix j
    show "weight fc_bytesRead (((fcm_streamFlowController r)(i \<mapsto> ?b')) j) \<le> weight fc_highestReceived (fcm_streamFlowController r j)"
    proof (cases "fcm_streamFlowController r j")
      case (Some x)
      moreover then obtain y where "fcm_streamFlowController s j = Some y" using streams_dom [OF inv, of j] by fastforce
      ultimately show ?thesis using streamD(3) [OF inv _ Some] ends [OF ab(3) n] b
        by (auto simp: weight_def ends_ok_def word_le_nat_alt fields)
    qed (use b in auto)
  qed
  then have "unat (fc_bytesRead ?cb) + unat n \<le> unat (fc_highestReceived ?cb)" if "fc_contributesToConnection b"
    using total_upd [of fc_bytesRead "fcm_streamFlowController r" i ?b'] co b that ends [OF ab(3) n]
    by (simp add: conn_ok_def weight_def fields)
  then have conn: "fc_contributesToConnection b \<Longrightarrow> ends_ok cpS (fcm_connFlowController s) (fc_AddBytesRead now n ?cb) \<and>
      unat (fc_bytesRead ?cb + n) = unat (fc_bytesRead ?cb) + unat n"
    using ends [of "fcm_connFlowController s" ?cb] co unfolding conn_ok_def by blast
  show ?thesis
  proof (rule receiver_step [OF inv a b, where b' = ?b'])
    show "unat (fc_bytesRead (fcm_connFlowController r')) + weight fc_bytesRead (Some b) =
      unat (fc_bytesRead ?cb) + weight fc_bytesRead (Some ?b')"
      using conn ends [OF ab(3) n] by (simp add: st weight_def fields)
  qed (use ends [OF ab(3) n] conn co in \<open>simp_all add: st fields weight_def conn_ok_def\<close>)
qed

lemma ends_grow: "ends_ok cpS a b \<Longrightarrow> grows b b' \<Longrightarrow> ends_ok cpS a b'"
  using grows_fields [of b b'] grows_tunable [of b b'] by (auto simp: ends_ok_def intro: order.trans)

lemma conn_grow:
  assumes inv: "fc_inv cpS cpR s r d u" and g: "grows (fcm_connFlowController r) c"
  shows "fc_inv cpS cpR s (setConnection c r) d u"
proof -
  note f = grows_fields [OF g]
  have co: "conn_ok cpS s r" and uo: "updates_ok cpS r u" using inv by (simp_all add: fc_inv_def)
  have "conn_ok cpS s (setConnection c r)" using co ends_grow [OF _ g] f by (simp add: conn_ok_def setConnection_def)
  moreover have "updates_ok cpS (setConnection c r) u" using uo f(7) by (fastforce simp: updates_ok_def setConnection_def)
  moreover have "streams_ok cpS s (setConnection c r) = streams_ok cpS s r" by (simp add: streams_ok_def setConnection_def)
  ultimately show ?thesis using inv by (simp add: fc_inv_def) (simp add: setConnection_def)
qed

lemma offer_inv:
  assumes "fc_inv cpS cpR s r d u" "initialWindow cpS i \<le> off"
    and "if i = 0 then off \<le> fc_receiveWindow (fcm_connFlowController r)
      else \<exists>b. fcm_streamFlowController r i = Some b \<and> off \<le> fc_receiveWindow b"
  shows "fc_inv cpS cpR s r d (insert (i, off) u)"
  using assms unfolding fc_inv_def updates_ok_def by blast

lemma stream_grow:
  assumes inv: "fc_inv cpS cpR s r d u" and b: "fcm_streamFlowController r i = Some b" and g: "grows b b'"
  shows "fc_inv cpS cpR s (setController i b' r) d (insert (i, fc_receiveWindow b') u)" "fc_inv cpS cpR s (setController i b' r) d u"
proof -
  obtain a where a: "fcm_streamFlowController s i = Some a" using streams_dom [OF inv, of i] b by fastforce
  note ab = streamD [OF inv a b] and f = grows_fields [OF g]
  show r: "fc_inv cpS cpR s (setController i b' r) d u"
    by (rule receiver_step [OF inv a b, where b' = b'])
       (use inv ends_grow [OF ab(3) g] f in \<open>simp_all add: setController_def weight_def fc_inv_def conn_ok_def\<close>)
  have "initialWindow cpS i \<le> fc_receiveWindow b'" using ends_grow [OF ab(3) g] ab(2) by (simp add: ends_ok_def)
  then show "fc_inv cpS cpR s (setController i b' r) d (insert (i, fc_receiveWindow b') u)"
    by (rule offer_inv [OF r]) (use ab(1) in \<open>simp add: setController_def\<close>)
qed

abbreviation offers :: "WindowUpdate list \<Rightarrow> (StreamID \<times> ByteCount) set" where
  "offers ws \<equiv> (\<lambda>w. (wup_StreamID w, wup_Offset w)) ` set ws"

lemma stream_tunable: "fc_inv cpS cpR s r d u \<Longrightarrow> fcm_streamFlowController r i = Some b \<Longrightarrow> tunable b"
  using streams_dom [of cpS cpR s r d u i] streamD(3) [of cpS cpR s r d u i _ b] by (cases "fcm_streamFlowController s i") (auto simp: ends_ok_def)

lemma conn_tunable: "fc_inv cpS cpR s r d u \<Longrightarrow> tunable (fcm_connFlowController r)"
  by (simp add: fc_inv_def conn_ok_def ends_ok_def)

lemma streamWindowUpdate_inv:
  assumes inv: "fc_inv cpS cpR s r d (u \<union> offers res)" and step: "streamWindowUpdate now force i (res, r) = (res', r')"
  shows "fc_inv cpS cpR s r' d (u \<union> offers res')"
proof (cases "fcm_streamFlowController r i")
  case None
  then show ?thesis using inv step by (simp add: streamWindowUpdate_def)
next
  case (Some b)
  obtain nec inc off b' where m: "MaybeUpdateWindow now (fcm_rttStats r) (fcm_remoteRTTs r) b = ((nec, inc, off), b')"
    by (metis prod.collapse)
  have g: "grows b b'" "off = fc_receiveWindow b'" using MaybeUpdateWindow_grows [OF stream_tunable [OF inv Some] m] by simp_all
  define r1 where "r1 = setController i b' r"
  have inv1: "fc_inv cpS cpR s r1 d (u \<union> offers res)" "fc_inv cpS cpR s r1 d (insert (i, off) (u \<union> offers res))"
    using stream_grow [OF inv Some g(1)] by (simp_all add: r1_def g(2))
  have inv2: "fc_inv cpS cpR s (setConnection (EnsureMinimumWindowIncrement x (fcm_connFlowController r1)) r1) d (insert (i, off) (u \<union> offers res))" for x
    by (rule conn_grow [OF inv1(2) EnsureMinimumWindowIncrement_grows [OF conn_tunable [OF inv1(1)]]])
  show ?thesis
  proof (cases "force \<or> nec")
    case True
    then have "res' = res @ [\<lparr>wup_StreamID = i, wup_Offset = off\<rparr>]" and
      "r' = r1 \<or> (\<exists>x. r' = setConnection (EnsureMinimumWindowIncrement x (fcm_connFlowController r1)) r1)"
      using step Some m by (auto simp: streamWindowUpdate_def r1_def Let_def split: if_splits)
    then show ?thesis using inv1(2) inv2 by auto
  next
    case False
    then show ?thesis using step Some m inv1(1) by (auto simp: streamWindowUpdate_def r1_def Let_def)
  qed
qed

lemma update_inv:
  assumes inv: "fc_inv cpS cpR s r d u" and step: "GetWindowUpdates now order force r = (ws, r')"
  shows "fc_inv cpS cpR s r' d (u \<union> offers ws)"
proof -
  have fold: "fc_inv cpS cpR s r1 d (u \<union> offers res1)"
    if "fold (streamWindowUpdate now force) order (res, r) = (res1, r1)" "fc_inv cpS cpR s r d (u \<union> offers res)" for res r res1 r1
    using that
  proof (induction order arbitrary: res r)
    case (Cons i order)
    obtain res2 r2 where "streamWindowUpdate now force i (res, r) = (res2, r2)" by fastforce
    then show ?case using Cons streamWindowUpdate_inv [OF Cons.prems(2)] by simp
  qed simp
  obtain res r1 where f: "fold (streamWindowUpdate now force) order ([], r) = (res, r1)" by fastforce
  have inv1: "fc_inv cpS cpR s r1 d (u \<union> offers res)" using fold [OF f] inv by simp
  obtain nec inc off c where m: "MaybeUpdateWindow now (fcm_rttStats r1) (fcm_remoteRTTs r1) (fcm_connFlowController r1) = ((nec, inc, off), c)"
    by (metis prod.collapse)
  have g: "grows (fcm_connFlowController r1) c" "off = fc_receiveWindow c" using MaybeUpdateWindow_grows [OF conn_tunable [OF inv1] m] by simp_all
  have inv2: "fc_inv cpS cpR s (setConnection c r1) d (u \<union> offers res)" by (rule conn_grow [OF inv1 g(1)])
  have "fc_streamID (fcm_connFlowController s) = 0" "ends_ok cpS (fcm_connFlowController s) (fcm_connFlowController r1)"
    using inv1 by (simp_all add: fc_inv_def conn_ok_def)
  then have "initialWindow cpS 0 \<le> off" using ends_grow [OF _ g(1)] unfolding g(2) ends_ok_def by metis
  then have "fc_inv cpS cpR s (setConnection c r1) d (insert (0, off) (u \<union> offers res))"
    by (rule offer_inv [OF inv2]) (simp add: setConnection_def g(2))
  moreover have "r' = setConnection c r1" "ws = (if force \<or> nec then res @ [\<lparr>wup_StreamID = 0, wup_Offset = off\<rparr>] else res)"
    using step f m by (simp_all add: GetWindowUpdates_def)
  ultimately show ?thesis using inv2 by simp
qed

lemma grant_ends:
  assumes "ends_ok cpS a b" "initialWindow cpS (fc_streamID a) \<le> off" "off \<le> fc_receiveWindow b"
  shows "ends_ok cpS (snd (UpdateSendWindow off a)) b"
proof (cases "off > fc_sendWindow a")
  case True
  then have "off \<noteq> 0" by auto
  moreover have "getSendWindow cpS a \<le> off"
    using assms(2) True by (auto simp: getSendWindow_def initialWindow_def split: if_splits)
  ultimately show ?thesis using True assms
    by (auto simp: UpdateSendWindow_def ends_ok_def getSendWindow_def word_le_nat_alt split: if_splits)
qed (use assms in \<open>simp add: UpdateSendWindow_def\<close>)

lemma UpdateSendWindow_fields [simp]:
  "fc_streamID (snd (UpdateSendWindow off a)) = fc_streamID a" "fc_bytesSent (snd (UpdateSendWindow off a)) = fc_bytesSent a"
  "fc_contributesToConnection (snd (UpdateSendWindow off a)) = fc_contributesToConnection a"
  by (simp_all add: UpdateSendWindow_def)

lemma grant_inv:
  assumes inv: "fc_inv cpS cpR s r d u" and off: "(i, off) \<in> u" and step: "fcm_UpdateWindow i off s = (x, s')"
  shows "fc_inv cpS cpR s' r d u"
proof -
  have co: "conn_ok cpS s r" and so: "sent_ok s d" and uo: "updates_ok cpS r u" and cp: "fcm_connectionParameters s = cpS" "fcm_connectionParameters r = cpR"
    using inv by (simp_all add: fc_inv_def)
  have init: "initialWindow cpS i \<le> off" and w: "if i = 0 then off \<le> fc_receiveWindow (fcm_connFlowController r)
      else \<exists>b. fcm_streamFlowController r i = Some b \<and> off \<le> fc_receiveWindow b"
    using uo off unfolding updates_ok_def by blast+
  show ?thesis
  proof (cases "i = 0")
    case True
    then have le: "off \<le> fc_receiveWindow (fcm_connFlowController r)" using w by simp
    have s': "s' = setConnection (snd (UpdateSendWindow off (fcm_connFlowController s))) s"
      using step True by (simp add: fcm_UpdateWindow_def split: prod.splits)
    have "conn_ok cpS s' r" using co grant_ends [OF _ _ le, of cpS "fcm_connFlowController s"] init True
      by (simp add: conn_ok_def s' setConnection_def)
    moreover have "streams_ok cpS s' r = streams_ok cpS s r" "sent_ok s' d = sent_ok s d"
      by (simp_all add: streams_ok_def sent_ok_def s' setConnection_def)
    ultimately show ?thesis using inv by (simp add: fc_inv_def) (simp add: s' setConnection_def)
  next
    case False
    then obtain b where b: "fcm_streamFlowController r i = Some b" "off \<le> fc_receiveWindow b" using w by auto
    then obtain a where a: "fcm_streamFlowController s i = Some a" using streams_dom [OF inv, of i] by fastforce
    note ab = streamD [OF inv a b(1)]
    have s': "s' = setController i (snd (UpdateSendWindow off a)) s"
      using step a False by (simp add: fcm_UpdateWindow_def getFlowController_def split: prod.splits)
    have "sent_ok s' d" using so a by (fastforce simp: sent_ok_def s' setController_def)
    then show ?thesis
      using inv uo co cp a b(1) ab grant_ends [OF ab(3) _ b(2)] init
      by (intro step_inv [OF inv False, where a' = "snd (UpdateSendWindow off a)" and b' = b])
         (auto simp: s' setController_def fun_upd_idem weight_def conn_ok_def)
  qed
qed

lemma measure_inv:
  assumes "fc_inv cpS cpR s r d u"
  shows "fc_inv cpS cpR s (r\<lparr>fcm_rttStats := rtt, fcm_remoteRTTs := remote\<rparr>) d u" (is "fc_inv cpS cpR s ?r d u")
proof -
  have "streams_ok cpS s ?r = streams_ok cpS s r" "conn_ok cpS s ?r = conn_ok cpS s r" "updates_ok cpS ?r u = updates_ok cpS r u"
    by (simp_all add: streams_ok_def conn_ok_def updates_ok_def)
  then show ?thesis using assms by (simp add: fc_inv_def)
qed

lemma fc_run_inv:
  assumes "fc_run cpS cpR s r d u" "agreed cpS cpR"
  shows "fc_inv cpS cpR s r d u"
  using assms(1)
proof induction
  case start
  show ?case by (rule start_inv [OF assms(2)])
next
  case open_stream
  show ?case by (rule NewStream_inv [OF open_stream.IH assms(2) open_stream.hyps(2)])
next
  case send
  show ?case by (rule send_inv [OF send.IH send.hyps(2-)])
next
  case arrive
  from arrive_outcome [OF arrive.IH arrive.hyps(2)] show ?case using arrive.hyps(3) by fastforce
next
  case read
  show ?case by (rule read_inv [OF read.IH read.hyps(2-)])
next
  case update
  show ?case by (rule update_inv [OF update.IH update.hyps(4)])
next
  case grant
  show ?case by (rule grant_inv [OF grant.IH grant.hyps(2-)])
next
  case measure
  show ?case by (rule measure_inv [OF measure.IH])
qed

text \<open>
  (C10) A sender that keeps to its windows is never accused of violating flow control. When the ends agreed on their windows and the
  receive windows do not exceed their configured maxima, then in every run a frame that was sent is accepted by the receiver, and no stream and
  not the whole connection has sent more than the receiver's current window; the connection counts what its streams have sent.
\<close>

theorem flow_control_respected:
  assumes "agreed cpS cpR" "fc_run cpS cpR s r d u" "(i, off) \<in> d"
  shows "fst (fcm_UpdateHighestReceived i off r) = None \<and>
    (case (fcm_streamFlowController s i, fcm_streamFlowController r i) of
       (Some a, Some b) \<Rightarrow> fc_bytesSent a \<le> fc_receiveWindow b | _ \<Rightarrow> False) \<and>
    fc_bytesSent (fcm_connFlowController s) \<le> fc_receiveWindow (fcm_connFlowController r) \<and>
    unat (fc_bytesSent (fcm_connFlowController s)) = total fc_bytesSent (fcm_streamFlowController s)"
proof -
  have inv: "fc_inv cpS cpR s r d u" by (rule fc_run_inv [OF assms(2,1)])
  obtain a where a: "fcm_streamFlowController s i = Some a" using inv assms(3) by (auto simp: fc_inv_def sent_ok_def)
  obtain b where b: "fcm_streamFlowController r i = Some b" using streams_dom [OF inv, of i] a by fastforce
  have "fc_bytesSent x \<le> fc_receiveWindow y" if "ends_ok cpS x y" for x y
    using that by (auto simp: ends_ok_def word_le_nat_alt)
  moreover have "conn_ok cpS s r" using inv by (simp add: fc_inv_def)
  moreover have "fst (fcm_UpdateHighestReceived i off r) = None" using arrive_outcome [OF inv assms(3)] by fastforce
  ultimately show ?thesis using a b streamD(3) [OF inv a b] by (simp add: conn_ok_def)
qed

theorem flow_control_respected_witness:
  "let cp = NewConnectionParamatersManager PerspectiveServer 39 0x20000000 0x20000000 (30 * Second);
       s = fcm_NewStream 3 True (NewFlowControlManager cp NewRTTStats []);
       s' = snd (fcm_AddBytesSent 3 1000 s)
   in fc_run cp cp s' s {(3, 1000)} {} \<and> fst (fcm_UpdateHighestReceived 3 1000 s) = None"
proof -
  define cp where "cp = NewConnectionParamatersManager PerspectiveServer 39 0x20000000 0x20000000 (30 * Second)"
  define s where "s = fcm_NewStream 3 True (NewFlowControlManager cp NewRTTStats [])"
  define s' where "s' = snd (fcm_AddBytesSent 3 1000 s)"
  have "fcm_SendWindowSize 3 s = Inr 16384 \<and> fst (fcm_AddBytesSent 3 1000 s) = None \<and> fcm_GetBytesSent 3 s' = Inr 1000 \<and>
    fc_bytesSent (fcm_connFlowController s') = 1000"
    unfolding s'_def s_def cp_def by code_simp
  then have e: "fcm_SendWindowSize 3 s = Inr 16384" "fcm_AddBytesSent 3 1000 s = (None, s')" "fcm_GetBytesSent 3 s' = Inr 1000"
    "fc_bytesSent (fcm_connFlowController s') = 1000" by (simp_all add: s'_def prod_eq_iff)
  have "fc_run cp cp s s {} {}"
    unfolding s_def by (rule fc_run.open_stream [OF fc_run.start]) simp
  from fc_run.send [OF this e(1) _ e(2,3)] e(4) have run: "fc_run cp cp s' s {(3, 1000)} {}" by simp
  moreover have "agreed cp cp"
    by (simp add: agreed_def cp_def NewConnectionParamatersManager_def InitialStreamFlowControlWindow_def
        InitialConnectionFlowControlWindow_def ReceiveStreamFlowControlWindow_def ReceiveConnectionFlowControlWindow_def push_bit_eq_mult)
  from flow_control_respected [OF this run, of 3 1000] have "fst (fcm_UpdateHighestReceived 3 1000 s) = None" by simp
  ultimately show ?thesis unfolding s'_def s_def cp_def Let_def by blast
qed


end
