(* ===== verification/Spec2Isabelle.thy ===== *)
theory Spec2Isabelle
imports Loss_Recovery Linked_List Frame_Sorter Flow_Control
begin

text \<open>
  A verification library for mpquic, a multipath variant of quic-go
  (\<^verbatim>\<open>src/repository/lucas-clemente/quic-go\<close>).
\<close>

end
